(* ===== verification/Kernel_Prelude.thy ===== *)
theory Kernel_Prelude
  imports Main "HOL-Library.Word" "HOL-Library.Monad_Syntax"
begin

text \<open>
  Shared vocabulary of the development.

  \<^item> Machine integers of the 32-bit kernel are words: \<open>u32\<close> is \<^verbatim>\<open>uint32_t\<close>, \<^verbatim>\<open>size_t\<close> and
    \<^verbatim>\<open>uintptr_t\<close>; additions and subtractions on it wrap around.
  \<^item> A pointer to a kernel object is a natural number, \<open>NULL\<close> is 0. The objects of one
    C type live in a heap, a partial map from pointers to records.
  \<^item> A C function that returns is \<open>Some\<close> of its result and of the new state. \<open>None\<close> means
    that the kernel does not return to the caller: \<^verbatim>\<open>panic\<close> was called, an \<^verbatim>\<open>assert\<close> failed, or a
    pointer that is \<open>NULL\<close> or does not point to a live object was dereferenced.
  \<^item> Error returns (\<^verbatim>\<open>-EINVAL\<close>, \<^verbatim>\<open>-ENOMEM\<close>) are ordinary integer results.
  \<^item> The address returned by \<^verbatim>\<open>kmalloc\<close> is an argument of the operations that call it
    (\<open>NULL\<close> when it fails); that it is the address of no live object is a hypothesis where
    a lemma needs it.
\<close>

unbundle bit_operations_syntax

type_synonym u8 = "8 word"
type_synonym u32 = "32 word"
type_synonym u64 = "64 word"
type_synonym ptr = nat
type_synonym 'n heap = "ptr \<Rightarrow> 'n option"

abbreviation NULL :: ptr where "NULL \<equiv> 0"

declare neq0_conv [iff del] bot_nat_0.not_eq_extremum [simp del]

named_theorems exec_simps \<open>execution of the elementary statements\<close>
named_theorems seg_simps \<open>linked segments in a heap\<close>


section \<open>Error numbers\<close>

abbreviation ENOENT :: int where "ENOENT \<equiv> 2"
abbreviation EINTR :: int where "EINTR \<equiv> 4"
abbreviation ENOMEM :: int where "ENOMEM \<equiv> 12"
abbreviation EACCES :: int where "EACCES \<equiv> 13"
abbreviation EEXIST :: int where "EEXIST \<equiv> 17"
abbreviation EINVAL :: int where "EINVAL \<equiv> 22"
abbreviation EALREADY :: int where "EALREADY \<equiv> 114"
abbreviation EPIPE :: int where "EPIPE \<equiv> 32"


section \<open>Elementary statements\<close>

definition kassert :: "bool \<Rightarrow> unit option" where
  "kassert b = (if b then Some () else None)"

definition deref :: "'n heap \<Rightarrow> ptr \<Rightarrow> 'n option" where
  "deref h p = (if p = NULL then None else h p)"

definition modify :: "'n heap \<Rightarrow> ptr \<Rightarrow> ('n \<Rightarrow> 'n) \<Rightarrow> 'n heap option" where
  "modify h p f = do { n \<leftarrow> deref h p; Some (h(p := Some (f n))) }"

text \<open>The frequent guarded store \<^verbatim>\<open>if (p) p->field = v;\<close>.\<close>

definition modify_nn :: "'n heap \<Rightarrow> ptr \<Rightarrow> ('n \<Rightarrow> 'n) \<Rightarrow> 'n heap option" where
  "modify_nn h p f = (if p = NULL then Some h else modify h p f)"

lemma kassert_simps [simp, exec_simps]:
  "kassert True = Some ()" "kassert False = None"
  by (simp_all add: kassert_def)

lemma kassert_eq_Some [simp]: "kassert b = Some u \<longleftrightarrow> b"
  by (simp add: kassert_def)

lemma bind_kassert [simp]: "(kassert b \<bind> f) = (if b then f () else None)"
  by (simp add: kassert_def)

lemma deref_NULL [simp]: "deref h NULL = None"
  by (simp add: deref_def)

lemma deref_nn [exec_simps]: "p \<noteq> NULL \<Longrightarrow> deref h p = h p"
  by (simp add: deref_def)

lemma deref_eq_Some [simp]: "deref h p = Some n \<longleftrightarrow> p \<noteq> NULL \<and> h p = Some n"
  by (simp add: deref_def)

lemma modify_Some [exec_simps]:
  "p \<noteq> NULL \<Longrightarrow> h p = Some n \<Longrightarrow> modify h p f = Some (h(p := Some (f n)))"
  by (simp add: modify_def deref_def)

lemma modify_eq_Some [simp]:
  "modify h p f = Some h' \<longleftrightarrow>
    p \<noteq> NULL \<and> (\<exists>n. h p = Some n \<and> h' = h(p := Some (f n)))"
  by (auto simp: modify_def deref_def bind_eq_Some_conv)

lemma modify_nn_NULL [simp, exec_simps]: "modify_nn h NULL f = Some h"
  by (simp add: modify_nn_def)

lemma modify_nn_Some [exec_simps]:
  "p \<noteq> NULL \<Longrightarrow> h p = Some n \<Longrightarrow> modify_nn h p f = Some (h(p := Some (f n)))"
  by (simp add: modify_nn_def modify_Some)


section \<open>First and last elements of pointer lists\<close>

definition fst_or :: "'a \<Rightarrow> 'a list \<Rightarrow> 'a" where
  "fst_or d xs = (case xs of [] \<Rightarrow> d | x # _ \<Rightarrow> x)"

definition lst_or :: "'a \<Rightarrow> 'a list \<Rightarrow> 'a" where
  "lst_or d xs = (if xs = [] then d else last xs)"

lemma fst_or_simps [simp]: "fst_or d [] = d" "fst_or d (x # xs) = x"
  by (simp_all add: fst_or_def)

lemma lst_or_simps [simp]:
  "lst_or d [] = d" "lst_or d (x # xs) = lst_or x xs" "lst_or d (xs @ [x]) = x"
  "lst_or d (xs @ x # ys) = lst_or x ys"
  by (simp_all add: lst_or_def)

lemma fst_or_append [simp]: "fst_or d (xs @ ys) = fst_or (fst_or d ys) xs"
  by (cases xs) simp_all

lemma lst_or_append: "lst_or d (xs @ ys) = lst_or (lst_or d xs) ys"
  by (simp add: lst_or_def)

lemma fst_or_rev [simp]: "fst_or d (rev xs) = lst_or d xs"
  by (cases xs rule: rev_cases) simp_all

lemma lst_or_rev [simp]: "lst_or d (rev xs) = fst_or d xs"
  by (cases xs) simp_all

lemma fst_or_eq_default: "d \<notin> set xs \<Longrightarrow> fst_or d xs = d \<longleftrightarrow> xs = []"
  by (cases xs) auto

lemma lst_or_eq_default: "d \<notin> set xs \<Longrightarrow> lst_or d xs = d \<longleftrightarrow> xs = []"
  by (cases xs rule: rev_cases) auto

lemma lst_or_in: "xs \<noteq> [] \<Longrightarrow> lst_or d xs \<in> set xs"
  by (simp add: lst_or_def)

lemma fst_or_in: "xs \<noteq> [] \<Longrightarrow> fst_or d xs \<in> set xs"
  by (cases xs) simp_all


section \<open>Words\<close>

lemma unat_Suc_less:
  fixes x y :: "'a::len word"
  assumes "unat x < unat y"
  shows "unat (x + 1) = Suc (unat x)"
proof -
  have "Suc (unat x) < 2 ^ LENGTH('a)" 
    by (rule le_less_trans [OF Suc_leI [OF assms] unsigned_less])
  then show ?thesis by (simp add: unat_word_ariths(1) mod_less)
qed

lemma unat_add_less:
  fixes x y :: "'a::len word"
  shows "unat x + unat y < 2 ^ LENGTH('a) \<Longrightarrow> unat (x + y) = unat x + unat y"
  by (simp add: unat_word_ariths(1))

end
