(* ===== verification/Spin_Progress.thy ===== *)
theory Spin_Progress
  imports Spinlock
begin

text \<open>
  Progress of the spinlock of \<^verbatim>\<open>kernel/include/locks/spinlock.h\<close>: whatever the interleaving so far, the owner can
  leave its critical section and a waiting CPU can then enter, without a step of any other CPU.
\<close>









end
