(* ===== verification/Linked_List.thy ===== *)
theory Linked_List
  imports Kernel_Prelude
begin

text \<open>
  Doubly linked lists in a heap, the representation shared by the queues
  (\<^verbatim>\<open>kernel/ds/queue\<close>), the kernel virtual memory arena (\<^verbatim>\<open>kernel/mm/vmm\<close>) and the memory
  maps (\<^verbatim>\<open>kernel/mm/mmap\<close>). \<open>dseg nxt prv h p xs q\<close> says that the nodes at \<open>xs\<close> are
  linked in this order, the first one back to \<open>p\<close>, the last one forward to \<open>q\<close>. The
  locale \<open>link_fields\<close> states what the two link fields of a node type promise;
  each node type of the model interprets it once.
\<close>

section \<open>Segments\<close>

fun dseg :: "('n \<Rightarrow> ptr) \<Rightarrow> ('n \<Rightarrow> ptr) \<Rightarrow> 'n heap \<Rightarrow> ptr \<Rightarrow> ptr list \<Rightarrow> ptr \<Rightarrow> bool" where
  "dseg nxt prv h p [] q = True"
| "dseg nxt prv h p (x # xs) q =
    (x \<noteq> NULL \<and> (\<exists>n. h x = Some n \<and> prv n = p \<and> nxt n = fst_or q xs) \<and>
     dseg nxt prv h x xs q)"

definition dlist :: "('n \<Rightarrow> ptr) \<Rightarrow> ('n \<Rightarrow> ptr) \<Rightarrow> 'n heap \<Rightarrow> ptr list \<Rightarrow> bool" where
  "dlist nxt prv h xs \<longleftrightarrow> distinct xs \<and> dseg nxt prv h NULL xs NULL"

lemma dseg_append [simp]:
  "dseg nxt prv h p (xs @ ys) q \<longleftrightarrow>
    dseg nxt prv h p xs (fst_or q ys) \<and> dseg nxt prv h (lst_or p xs) ys q"
  by (induction xs arbitrary: p) auto

lemma dseg_upd [simp, seg_simps]:
  "x \<notin> set xs \<Longrightarrow> dseg nxt prv (h(x := v)) p xs q = dseg nxt prv h p xs q"
  by (induction xs arbitrary: p) auto

lemma dseg_cong:
  "(\<And>x. x \<in> set xs \<Longrightarrow> h' x = h x) \<Longrightarrow> dseg nxt prv h' p xs q = dseg nxt prv h p xs q"
  by (induction xs arbitrary: p) auto

lemma dseg_links:
  "(\<And>x. x \<in> set xs \<Longrightarrow> map_option nxt (h' x) = map_option nxt (h x) \<and>
      map_option prv (h' x) = map_option prv (h x)) \<Longrightarrow>
    dseg nxt prv h' p xs q = dseg nxt prv h p xs q"
proof (induction xs arbitrary: p)
  case Nil
  then show ?case by simp
next
  case (Cons x xs)
  have l: "map_option nxt (h' x) = map_option nxt (h x)" "map_option prv (h' x) = map_option prv (h x)"
    using Cons.prems [of x] by simp_all
  have "dseg nxt prv h' x xs q = dseg nxt prv h x xs q" by (rule Cons.IH, rule Cons.prems) simp
  moreover have "(\<exists>n. h' x = Some n \<and> prv n = p \<and> nxt n = fst_or q xs) =
      (\<exists>n. h x = Some n \<and> prv n = p \<and> nxt n = fst_or q xs)"
    using l by (cases "h x"; cases "h' x") auto
  ultimately show ?case by simp
qed

lemma dlist_links:
  assumes "\<And>x. x \<in> set xs \<Longrightarrow> map_option nxt (h' x) = map_option nxt (h x) \<and>
      map_option prv (h' x) = map_option prv (h x)"
  shows "dlist nxt prv h' xs = dlist nxt prv h xs"
  using dseg_links [where p = NULL and q = NULL, OF assms] by (simp add: dlist_def)

lemma dseg_not_NULL: "dseg nxt prv h p xs q \<Longrightarrow> NULL \<notin> set xs"
  by (induction xs arbitrary: p) auto

lemma dseg_live: "dseg nxt prv h p xs q \<Longrightarrow> x \<in> set xs \<Longrightarrow> \<exists>n. h x = Some n"
  by (induction xs arbitrary: p) auto

lemma dseg_rev: "dseg prv nxt h q (rev xs) p = dseg nxt prv h p xs q"
  by (induction xs arbitrary: p) (auto simp: fst_or_rev)

lemma dlist_Nil [simp]: "dlist nxt prv h []"
  by (simp add: dlist_def)

lemma dlist_upd: "x \<notin> set xs \<Longrightarrow> dlist nxt prv (h(x := v)) xs = dlist nxt prv h xs"
  by (simp add: dlist_def)

lemma dlist_cong:
  "(\<And>x. x \<in> set xs \<Longrightarrow> h' x = h x) \<Longrightarrow> dlist nxt prv h' xs = dlist nxt prv h xs"
  by (simp add: dlist_def cong: dseg_cong)

lemma dlist_not_NULL: "dlist nxt prv h xs \<Longrightarrow> NULL \<notin> set xs"
  by (auto simp: dlist_def dest: dseg_not_NULL)

lemma dlist_live: "dlist nxt prv h xs \<Longrightarrow> x \<in> set xs \<Longrightarrow> \<exists>n. h x = Some n"
  by (auto simp: dlist_def dest: dseg_live)

lemma dlist_node:
  "dlist nxt prv h (as @ x # bs) \<Longrightarrow>
    \<exists>n. h x = Some n \<and> prv n = lst_or NULL as \<and> nxt n = fst_or NULL bs"
  by (auto simp: dlist_def)

lemma dlist_ends:
  assumes "dlist nxt prv h xs"
  shows "fst_or NULL xs = NULL \<longleftrightarrow> xs = []" and "lst_or NULL xs = NULL \<longleftrightarrow> xs = []"
  using dlist_not_NULL [OF assms] by (simp_all add: fst_or_eq_default lst_or_eq_default)


section \<open>Walking a list\<close>

text \<open>
  The macro \<^verbatim>\<open>forlinked(n, list, n->next)\<close> around \<^verbatim>\<open>if (P(n)) return n;\<close>, followed by
  \<^verbatim>\<open>return NULL;\<close>. On a cyclic list with no matching node the loop does not end.
\<close>

partial_function (option) find_node ::
    "('n \<Rightarrow> ptr) \<Rightarrow> 'n heap \<Rightarrow> (ptr \<Rightarrow> 'n \<Rightarrow> bool) \<Rightarrow> ptr \<Rightarrow> ptr option" where
  "find_node nxt h P p =
    (if p = NULL then Some NULL
     else do { n \<leftarrow> h p; if P p n then Some p else find_node nxt h P (nxt n) })"

lemma find_node_NULL [simp]: "find_node nxt h P NULL = Some NULL"
  by (subst find_node.simps) simp

lemma find_node_step:
  "p \<noteq> NULL \<Longrightarrow> h p = Some n \<Longrightarrow>
    find_node nxt h P p = (if P p n then Some p else find_node nxt h P (nxt n))"
  by (subst find_node.simps) simp

lemma find_node_dseg:
  "dseg nxt prv h p xs NULL \<Longrightarrow>
    find_node nxt h P (fst_or NULL xs) =
      Some (fst_or NULL (dropWhile (\<lambda>x. \<not> P x (the (h x))) xs))"
proof (induction xs arbitrary: p)
  case Nil
  then show ?case by simp
next
  case (Cons x xs)
  then obtain n where n: "x \<noteq> NULL" "h x = Some n" "nxt n = fst_or NULL xs"
    and seg: "dseg nxt prv h x xs NULL" by auto
  from Cons.IH [OF seg] n show ?case by (simp add: find_node_step)
qed

lemma find_node_Some:
  assumes "dlist nxt prv h (as @ x # bs)" and "P x (the (h x))"
    and "\<And>y. y \<in> set as \<Longrightarrow> \<not> P y (the (h y))"
  shows "find_node nxt h P (fst_or NULL (as @ x # bs)) = Some x"
proof -
  have "dropWhile (\<lambda>x. \<not> P x (the (h x))) (as @ x # bs) = x # bs"
    using assms(2,3) by (induction as) auto
  then show ?thesis
    using find_node_dseg assms(1) unfolding dlist_def by (metis fst_or_simps(2))
qed

lemma find_node_None:
  assumes "dlist nxt prv h xs" and "\<And>y. y \<in> set xs \<Longrightarrow> \<not> P y (the (h y))"
  shows "find_node nxt h P (fst_or NULL xs) = Some NULL"
proof -
  have "dropWhile (\<lambda>x. \<not> P x (the (h x))) xs = []"
    using assms(2) by simp
  then show ?thesis
    using find_node_dseg assms(1) unfolding dlist_def by (metis fst_or_simps(1))
qed


section \<open>The contract of the link fields\<close>

locale link_fields =
  fixes nxt prv :: "'n \<Rightarrow> ptr"
    and set_nxt set_prv :: "ptr \<Rightarrow> 'n \<Rightarrow> 'n"
    and pay :: "'n \<Rightarrow> 'd"
  assumes nxt_set_nxt [simp]: "nxt (set_nxt v n) = v"
    and nxt_set_prv [simp]: "nxt (set_prv v n) = nxt n"
    and prv_set_prv [simp]: "prv (set_prv v n) = v"
    and prv_set_nxt [simp]: "prv (set_nxt v n) = prv n"
    and pay_set_nxt [simp]: "pay (set_nxt v n) = pay n"
    and pay_set_prv [simp]: "pay (set_prv v n) = pay n"
begin

text \<open>What relinking keeps: every node stays live with its payload, others are untouched.\<close>

definition relinked :: "'n heap \<Rightarrow> 'n heap \<Rightarrow> ptr set \<Rightarrow> bool" where
  "relinked h h' X \<longleftrightarrow>
    (\<forall>y. map_option pay (h' y) = map_option pay (h y)) \<and> (\<forall>y. y \<notin> X \<longrightarrow> h' y = h y)"

lemma relinkedI:
  "(\<And>y. map_option pay (h' y) = map_option pay (h y)) \<Longrightarrow> (\<And>y. y \<notin> X \<Longrightarrow> h' y = h y) \<Longrightarrow>
    relinked h h' X"
  by (simp add: relinked_def)

lemma relinked_pay: "relinked h h' X \<Longrightarrow> map_option pay (h' y) = map_option pay (h y)"
  by (simp add: relinked_def)

lemma relinked_other: "relinked h h' X \<Longrightarrow> y \<notin> X \<Longrightarrow> h' y = h y"
  by (simp add: relinked_def)

lemma relinked_Some: "relinked h h' X \<Longrightarrow> h y = Some n \<Longrightarrow> \<exists>n'. h' y = Some n' \<and> pay n' = pay n"
  using relinked_pay [of h h' X y] by (cases "h' y") auto

lemma set_nxt_last:
  assumes "dlist nxt prv h (as @ [l])" and "h l = Some n"
  shows "distinct (as @ [l])" and "dseg nxt prv (h(l := Some (set_nxt v n))) NULL (as @ [l]) v"
  using assms by (auto simp: dlist_def)

lemma set_prv_first:
  assumes "dlist nxt prv h (r # bs)" and "h r = Some n"
  shows "dseg nxt prv (h(r := Some (set_prv v n))) v (r # bs) NULL"
  using assms by (auto simp: dlist_def)

text \<open>
  The statement pair \<^verbatim>\<open>if (x->prev) x->prev->next = x->next;\<close> and
  \<^verbatim>\<open>if (x->next) x->next->prev = x->prev;\<close> takes \<open>x\<close> out of its list.
\<close>

lemma unlink:
  assumes "dlist nxt prv h (as @ x # bs)" and "h x = Some n"
  obtains h1 h2 where "modify_nn h (prv n) (set_nxt (nxt n)) = Some h1"
    and "modify_nn h1 (nxt n) (set_prv (prv n)) = Some h2"
    and "dlist nxt prv h2 (as @ bs)" and "h1 x = Some n" and "h2 x = Some n"
    and "relinked h h2 (set (as @ bs))"
proof -
  have x: "x \<notin> set as" "x \<notin> set bs" "prv n = lst_or NULL as" "nxt n = fst_or NULL bs"
    using assms by (auto simp: dlist_def)
  show ?thesis
  proof (cases as rule: rev_cases)
    case Nil
    show ?thesis
    proof (cases bs)
      case Nil
      then show ?thesis using x \<open>as = []\<close> assms(2) that [of h h] by (auto intro: relinkedI split: if_splits)
    next
      case (Cons r bs')
      then obtain m where m: "h r = Some m" "r \<noteq> NULL" using assms(1) by (auto simp: dlist_def)
      show ?thesis
        by (rule that [of h "h(r := Some (set_prv NULL m))"])
          (use x \<open>as = []\<close> Cons assms m in \<open>auto simp: dlist_def exec_simps intro!: relinkedI split: if_splits\<close>)
    qed
  next
    case (snoc as' l)
    then obtain k where k: "h l = Some k" "l \<noteq> NULL" using assms(1) by (auto simp: dlist_def)
    show ?thesis
    proof (cases bs)
      case Nil
      show ?thesis
        by (rule that [of "h(l := Some (set_nxt NULL k))" "h(l := Some (set_nxt NULL k))"])
          (use x snoc Nil assms k in \<open>auto simp: dlist_def exec_simps intro!: relinkedI split: if_splits\<close>)
    next
      case (Cons r bs')
      then obtain m where m: "h r = Some m" "r \<noteq> NULL" using assms(1) by (auto simp: dlist_def)
      have "l \<noteq> r" using assms(1) snoc Cons by (auto simp: dlist_def)
      then show ?thesis
        by (intro that [of "h(l := Some (set_nxt r k))"
              "h(l := Some (set_nxt r k), r := Some (set_prv l m))"])
          (use x snoc Cons assms k m in \<open>auto simp: dlist_def exec_simps intro!: relinkedI split: if_splits\<close>)
    qed
  qed
qed

end

end
