(* ===== verification/Fifo.thy ===== *)
theory Fifo
  imports Kernel_Prelude
begin

text \<open>
  The contract of a first-in first-out buffer, as its clients use it: \<open>put\<close> and \<open>get\<close> on a
  state that represents a list. The linked queues and the ring buffers provide it; the
  transfer lemmas below are proved once, from the contract alone. \<open>'c\<close> is what the
  environment supplies to a \<open>put\<close> (the node returned by the allocator), \<open>ok\<close> says when a
  \<open>put\<close> has room.
\<close>

fun iterate_get :: "('s \<Rightarrow> ('a \<times> 's) option) \<Rightarrow> nat \<Rightarrow> 's \<Rightarrow> ('a list \<times> 's) option" where
  "iterate_get get 0 s = Some ([], s)"
| "iterate_get get (Suc n) s = do {
     (x, s) \<leftarrow> get s;
     (xs, s) \<leftarrow> iterate_get get n s;
     Some (x # xs, s)
   }"

fun iterate_put :: "('c \<Rightarrow> 'a \<Rightarrow> 's \<Rightarrow> 's option) \<Rightarrow> ('c \<times> 'a) list \<Rightarrow> 's \<Rightarrow> 's option" where
  "iterate_put put [] s = Some s"
| "iterate_put put ((c, x) # cs) s = do { s \<leftarrow> put c x s; iterate_put put cs s }"

locale fifo =
  fixes rep :: "'s \<Rightarrow> 'a list \<Rightarrow> bool"
    and ok :: "'c \<Rightarrow> 's \<Rightarrow> bool"
    and put :: "'c \<Rightarrow> 'a \<Rightarrow> 's \<Rightarrow> 's option"
    and get :: "'s \<Rightarrow> ('a \<times> 's) option"
  assumes put_rep: "rep s xs \<Longrightarrow> ok c s \<Longrightarrow> \<exists>s'. put c x s = Some s' \<and> rep s' (xs @ [x])"
    and get_rep: "rep s (x # xs) \<Longrightarrow> \<exists>s'. get s = Some (x, s') \<and> rep s' xs"
begin

primrec all_ok :: "('c \<times> 'a) list \<Rightarrow> 's \<Rightarrow> bool" where
  "all_ok [] s = True"
| "all_ok (p # ps) s = (ok (fst p) s \<and> (\<forall>s'. put (fst p) (snd p) s = Some s' \<longrightarrow> all_ok ps s'))"

lemma iterate_put_rep:
  "rep s xs \<Longrightarrow> all_ok ps s \<Longrightarrow> \<exists>s'. iterate_put put ps s = Some s' \<and> rep s' (xs @ map snd ps)"
proof (induction ps arbitrary: s xs)
  case Nil
  then show ?case by simp
next
  case (Cons p ps)
  obtain c x where p: "p = (c, x)" by (cases p)
  with Cons.prems obtain s' where s': "put c x s = Some s'" "rep s' (xs @ [x])"
    using put_rep by fastforce
  with Cons.prems p have "all_ok ps s'" by simp
  from Cons.IH [OF s'(2) this] show ?case using p s' by simp
qed

lemma iterate_get_rep:
  "rep s (xs @ ys) \<Longrightarrow> \<exists>s'. iterate_get get (length xs) s = Some (xs, s') \<and> rep s' ys"
proof (induction xs arbitrary: s)
  case Nil
  then show ?case by simp
next
  case (Cons x xs)
  then obtain s' where s': "get s = Some (x, s')" "rep s' (xs @ ys)"
    using get_rep by fastforce
  from Cons.IH [OF s'(2)] show ?case using s' by auto
qed

lemma in_order:
  assumes "rep s []" and "all_ok ps s"
  shows "\<exists>s' s''. iterate_put put ps s = Some s' \<and>
    iterate_get get (length ps) s' = Some (map snd ps, s'') \<and> rep s'' []"
proof -
  from iterate_put_rep [OF assms] obtain s' where s': "iterate_put put ps s = Some s'"
    "rep s' (map snd ps @ [])" by auto
  from iterate_get_rep [OF s'(2)] show ?thesis using s' by auto
qed

end

end
