(* ===== verification/Queue.thy ===== *)
theory Queue
  imports Linked_List Spinlock Fifo
begin

text \<open>
  Linked queues, \<^verbatim>\<open>kernel/ds/queue/queue.c\<close> and \<^verbatim>\<open>kernel/include/ds/queue.h\<close>. The nodes of
  all queues share one heap. \<open>queue_rep m q xs\<close> says that the queue at \<open>q\<close> holds the nodes
  \<open>xs\<close> in this order; \<open>queue_data m xs\<close> are the pointers they carry. Every operation runs
  with the queue's lock held by the calling CPU and panics otherwise.
\<close>

section \<open>Data\<close>

record queue_node =
  qn_data :: ptr
  qn_queue :: ptr
  qn_prev :: ptr
  qn_next :: ptr

record queue =
  q_count :: int
  q_flags :: u32
  q_name :: ptr
  q_lock :: spinlock
  q_head :: ptr
  q_tail :: ptr

record qmem =
  m_queues :: "queue heap"
  m_nodes :: "queue_node heap"

abbreviation put_queue :: "ptr \<Rightarrow> queue \<Rightarrow> qmem \<Rightarrow> qmem" where
  "put_queue q qr m \<equiv> m\<lparr>m_queues := (m_queues m)(q := Some qr)\<rparr>"


section \<open>Operations\<close>

text \<open>
  The common prologue \<^verbatim>\<open>queue_assert_lock(q); if (spin_trylock(q->lock)) panic(...);\<close>.
\<close>

definition queue_check :: "ptr \<Rightarrow> ptr \<Rightarrow> qmem \<Rightarrow> (queue \<times> qmem) option" where
  "queue_check cpu q m = do {
     qr \<leftarrow> deref (m_queues m) q;
     spin_assert_lock cpu (q_lock qr);
     let (held, lk) = lk_try cpu (q_lock qr);
     kassert (\<not> held);
     let qr = qr\<lparr>q_lock := lk\<rparr>;
     Some (qr, put_queue q qr m)
   }"

definition queue_lock :: "ptr \<Rightarrow> ptr \<Rightarrow> qmem \<Rightarrow> qmem option" where
  "queue_lock cpu q m = do {
     qr \<leftarrow> deref (m_queues m) q;
     lk \<leftarrow> lk_acquire cpu (q_lock qr);
     Some (put_queue q (qr\<lparr>q_lock := lk\<rparr>) m)
   }"

definition queue_unlock :: "ptr \<Rightarrow> ptr \<Rightarrow> qmem \<Rightarrow> qmem option" where
  "queue_unlock cpu q m = do {
     qr \<leftarrow> deref (m_queues m) q;
     lk \<leftarrow> lk_release cpu (q_lock qr);
     Some (put_queue q (qr\<lparr>q_lock := lk\<rparr>) m)
   }"

definition dequeue :: "ptr \<Rightarrow> ptr \<Rightarrow> qmem \<Rightarrow> (ptr \<times> qmem) option" where
  "dequeue cpu q m = do {
     (qr, m) \<leftarrow> queue_check cpu q m;
     let node = q_head qr;
     if node = NULL then Some (NULL, m)
     else do {
       let qr = (if q_head qr = q_tail qr then qr\<lparr>q_head := NULL, q_tail := NULL\<rparr> else qr);
       n \<leftarrow> deref (m_nodes m) node;
       let qr = qr\<lparr>q_head := qn_next n\<rparr>;
       h \<leftarrow> modify_nn (m_nodes m) (q_head qr) (qn_prev_update (\<lambda>_. NULL));
       n \<leftarrow> deref h node;
       let qr = qr\<lparr>q_count := q_count qr - 1\<rparr>;
       Some (qn_data n, (put_queue q qr m)\<lparr>m_nodes := h(node := None)\<rparr>)
     }
   }"

definition queue_get :: "ptr \<Rightarrow> ptr \<Rightarrow> qmem \<Rightarrow> (ptr \<times> qmem) option" where
  "queue_get cpu q m = do {
     m \<leftarrow> queue_lock cpu q m;
     (data, m) \<leftarrow> dequeue cpu q m;
     m \<leftarrow> queue_unlock cpu q m;
     Some (data, m)
   }"

text \<open>\<open>new\<close> is the result of \<^verbatim>\<open>kmalloc(sizeof *node)\<close>.\<close>

definition enqueue :: "ptr \<Rightarrow> ptr \<Rightarrow> ptr \<Rightarrow> ptr \<Rightarrow> qmem \<Rightarrow> (ptr \<times> qmem) option" where
  "enqueue cpu new q data m = do {
     (qr, m) \<leftarrow> queue_check cpu q m;
     let node = new;
     if node = NULL then Some (NULL, m)
     else do {
       let h = (m_nodes m)(node := Some \<lparr>qn_data = NULL, qn_queue = NULL, qn_prev = NULL, qn_next = NULL\<rparr>);
       let qr = (if q_head qr = NULL then qr\<lparr>q_head := node\<rparr> else qr);
       h \<leftarrow> modify_nn h (q_tail qr) (qn_next_update (\<lambda>_. node));
       h \<leftarrow> (if q_tail qr \<noteq> NULL then modify h node (qn_prev_update (\<lambda>_. q_tail qr)) else Some h);
       let qr = qr\<lparr>q_count := q_count qr + 1, q_tail := node\<rparr>;
       h \<leftarrow> modify h node (\<lambda>n. n\<lparr>qn_queue := q, qn_data := data\<rparr>);
       Some (node, (put_queue q qr m)\<lparr>m_nodes := h\<rparr>)
     }
   }"

definition queue_count :: "ptr \<Rightarrow> ptr \<Rightarrow> qmem \<Rightarrow> (int \<times> qmem) option" where
  "queue_count cpu q m = do { (qr, m) \<leftarrow> queue_check cpu q m; Some (q_count qr, m) }"

definition queue_contains :: "ptr \<Rightarrow> ptr \<Rightarrow> ptr \<Rightarrow> qmem \<Rightarrow> (ptr \<times> qmem) option" where
  "queue_contains cpu q data m = do {
     (qr, m) \<leftarrow> queue_check cpu q m;
     node \<leftarrow> find_node qn_next (m_nodes m) (\<lambda>_ n. qn_data n = data) (q_head qr);
     Some (node, m)
   }"

definition queue_contains_node :: "ptr \<Rightarrow> ptr \<Rightarrow> ptr \<Rightarrow> qmem \<Rightarrow> (bool \<times> qmem) option" where
  "queue_contains_node cpu q node m = do {
     (qr, m) \<leftarrow> queue_check cpu q m;
     n \<leftarrow> find_node qn_next (m_nodes m) (\<lambda>p _. p = node) (q_head qr);
     Some (n \<noteq> NULL, m)
   }"

definition queue_remove_node :: "ptr \<Rightarrow> ptr \<Rightarrow> ptr \<Rightarrow> qmem \<Rightarrow> (int \<times> qmem) option" where
  "queue_remove_node cpu q node m = do {
     (qr, m) \<leftarrow> queue_check cpu q m;
     kassert (node \<noteq> NULL);
     (found, m) \<leftarrow> queue_contains_node cpu q node m;
     if \<not> found then Some (- ENOENT, m)
     else do {
       n \<leftarrow> deref (m_nodes m) node;
       h \<leftarrow> modify_nn (m_nodes m) (qn_prev n) (qn_next_update (\<lambda>_. qn_next n));
       let qr = (if qn_prev n \<noteq> NULL then qr else qr\<lparr>q_head := qn_next n\<rparr>);
       n \<leftarrow> deref h node;
       h \<leftarrow> modify_nn h (qn_next n) (qn_prev_update (\<lambda>_. qn_prev n));
       let qr = (if qn_next n \<noteq> NULL then qr else qr\<lparr>q_tail := qn_prev n\<rparr>);
       h \<leftarrow> modify h node (\<lambda>n. n\<lparr>qn_next := NULL, qn_prev := NULL\<rparr>);
       let qr = qr\<lparr>q_count := q_count qr - 1\<rparr>;
       Some (0, (put_queue q qr m)\<lparr>m_nodes := h(node := None)\<rparr>)
     }
   }"

definition queue_remove :: "ptr \<Rightarrow> ptr \<Rightarrow> ptr \<Rightarrow> qmem \<Rightarrow> (int \<times> qmem) option" where
  "queue_remove cpu q data m = do {
     (qr, m) \<leftarrow> queue_check cpu q m;
     (node, m) \<leftarrow> queue_contains cpu q data m;
     if node = NULL then Some (- ENOENT, m) else queue_remove_node cpu q node m
   }"

partial_function (option) flush_loop :: "ptr \<Rightarrow> ptr \<Rightarrow> qmem \<Rightarrow> qmem option" where
  "flush_loop cpu q m = do {
     r \<leftarrow> dequeue cpu q m;
     if fst r = NULL then Some (snd r) else flush_loop cpu q (snd r)
   }"

definition queue_flush :: "ptr \<Rightarrow> ptr \<Rightarrow> qmem \<Rightarrow> qmem option" where
  "queue_flush cpu q m = do { (qr, m) \<leftarrow> queue_check cpu q m; flush_loop cpu q m }"

text \<open>
  \<open>q_flags\<close> bit 0 marks a queue made by \<^verbatim>\<open>queue_new\<close>; its memory is given back. The name
  and the lock object are not part of the modelled heap.
\<close>

definition queue_free :: "ptr \<Rightarrow> ptr \<Rightarrow> qmem \<Rightarrow> qmem option" where
  "queue_free cpu q m = do {
     qr \<leftarrow> deref (m_queues m) q;
     spin_assert_lock cpu (q_lock qr);
     m \<leftarrow> queue_flush cpu q m;
     qr \<leftarrow> deref (m_queues m) q;
     Some (if q_flags qr AND 1 \<noteq> 0 then m\<lparr>m_queues := (m_queues m)(q := None)\<rparr> else m)
   }"

text \<open>
  \<open>q\<close> and \<open>name\<close> are the results of the two allocations, \<open>err\<close> that of \<^verbatim>\<open>spinlock_init\<close>.
  The second component is what is stored through the reference argument.
\<close>

definition queue_new ::
    "ptr \<Rightarrow> ptr \<Rightarrow> ptr \<Rightarrow> ptr \<Rightarrow> int \<Rightarrow> qmem \<Rightarrow> int \<times> ptr option \<times> qmem" where
  "queue_new name' ref q name err m =
    (if name' = NULL \<or> ref = NULL then (- EINVAL, None, m)
     else if q = NULL then (- ENOMEM, None, m)
     else if name = NULL then (- ENOMEM, None, m)
     else if err \<noteq> 0 then (err, None, m)
     else (0, Some q, put_queue q \<lparr>q_count = 0, q_flags = 1, q_name = name, q_lock = spin_unlocked,
             q_head = NULL, q_tail = NULL\<rparr> m))"


section \<open>Representation\<close>

interpretation qlink: link_fields qn_next qn_prev
  "\<lambda>v. qn_next_update (\<lambda>_. v)" "\<lambda>v. qn_prev_update (\<lambda>_. v)" "\<lambda>n. (qn_data n, qn_queue n)"
  by unfold_locales simp_all

definition queue_hdr :: "queue \<Rightarrow> ptr list \<Rightarrow> bool" where
  "queue_hdr qr xs \<longleftrightarrow> lock_ok (q_lock qr) \<and> q_head qr = fst_or NULL xs \<and>
    q_tail qr = lst_or NULL xs \<and> q_count qr = int (length xs)"

definition queue_rep :: "qmem \<Rightarrow> ptr \<Rightarrow> ptr list \<Rightarrow> bool" where
  "queue_rep m q xs \<longleftrightarrow> q \<noteq> NULL \<and> (\<exists>qr. m_queues m q = Some qr \<and> queue_hdr qr xs) \<and>
    dlist qn_next qn_prev (m_nodes m) xs \<and>
    (\<forall>x \<in> set xs. map_option qn_queue (m_nodes m x) = Some q)"

definition queue_held :: "ptr \<Rightarrow> qmem \<Rightarrow> ptr \<Rightarrow> bool" where
  "queue_held cpu m q \<longleftrightarrow> (\<exists>qr. m_queues m q = Some qr \<and> spin_holding cpu (q_lock qr))"

definition node_data :: "qmem \<Rightarrow> ptr \<Rightarrow> ptr" where
  "node_data m x = qn_data (the (m_nodes m x))"

definition queue_data :: "qmem \<Rightarrow> ptr list \<Rightarrow> ptr list" where
  "queue_data m xs = map (node_data m) xs"

lemma queue_rep_hdr:
  assumes "queue_rep m q xs" and "queue_held cpu m q"
  obtains qr where "q \<noteq> NULL" "m_queues m q = Some qr" "queue_hdr qr xs"
    "spin_holding cpu (q_lock qr)" "queue_check cpu q m = Some (qr, m)"
proof -
  from assms obtain qr where qr: "q \<noteq> NULL" "m_queues m q = Some qr" "queue_hdr qr xs"
    "spin_holding cpu (q_lock qr)" by (auto simp: queue_rep_def queue_held_def)
  then have "lk_try cpu (q_lock qr) = (False, q_lock qr)"
    by (simp add: queue_hdr_def lk_try_held)
  with qr have "queue_check cpu q m = Some (qr, m)"
    by (simp add: queue_check_def spin_assert_lock_def exec_simps fun_upd_idem)
  with qr that show thesis by blast
qed

lemma queue_rep_dlist: "queue_rep m q xs \<Longrightarrow> dlist qn_next qn_prev (m_nodes m) xs"
  by (simp add: queue_rep_def)


lemma queue_rep_live:
  assumes "queue_rep m q xs" and "x \<in> set xs"
  shows "x \<noteq> NULL" and "\<exists>n. m_nodes m x = Some n"
  using assms dlist_not_NULL [OF queue_rep_dlist] dlist_live [OF queue_rep_dlist] by metis+

text \<open>Two queues never share a node: every node records the queue it is on.\<close>

lemma queue_rep_disjoint:
  "queue_rep m q xs \<Longrightarrow> queue_rep m q' ys \<Longrightarrow> q \<noteq> q' \<Longrightarrow> set xs \<inter> set ys = {}"
  by (fastforce simp: queue_rep_def)

text \<open>An operation on one queue leaves the representation of the others alone.\<close>

lemma queue_rep_frame:
  assumes "queue_rep m q' ys" and "m_queues m' q' = m_queues m q'"
    and "\<And>y. y \<in> set ys \<Longrightarrow> m_nodes m' y = m_nodes m y"
  shows "queue_rep m' q' ys" and "queue_data m' ys = queue_data m ys"
  using assms by (auto simp: queue_rep_def queue_data_def node_data_def cong: dlist_cong)


section \<open>Behaviour of the operations\<close>

lemma enqueue_NULL:
  assumes "queue_rep m q xs" and "queue_held cpu m q"
  shows "enqueue cpu NULL q data m = Some (NULL, m)"
  by (rule queue_rep_hdr [OF assms]) (simp add: enqueue_def)

definition enqueued :: "ptr \<Rightarrow> ptr \<Rightarrow> ptr \<Rightarrow> ptr list \<Rightarrow> ptr \<Rightarrow> qmem \<Rightarrow> qmem \<Rightarrow> bool" where
  "enqueued cpu new q xs data m m' \<longleftrightarrow>
    queue_rep m' q (xs @ [new]) \<and> queue_data m' (xs @ [new]) = queue_data m xs @ [data] \<and>
    queue_held cpu m' q \<and> (\<forall>p. p \<noteq> q \<longrightarrow> m_queues m' p = m_queues m p) \<and>
    (\<forall>y. y \<notin> set xs \<longrightarrow> y \<noteq> new \<longrightarrow> m_nodes m' y = m_nodes m y)"

lemmas queue_unfold = queue_hdr_def queue_rep_def dlist_def queue_data_def node_data_def
  queue_held_def exec_simps

lemma enqueue_rep:
  assumes rep: "queue_rep m q xs" and held: "queue_held cpu m q"
    and new: "new \<noteq> NULL" "m_nodes m new = None"
  shows "\<exists>m'. enqueue cpu new q data m = Some (new, m') \<and> enqueued cpu new q xs data m m'"
proof -
  from queue_rep_hdr [OF rep held] obtain qr where qr: "q \<noteq> NULL" "m_queues m q = Some qr"
    "queue_hdr qr xs" "spin_holding cpu (q_lock qr)" "queue_check cpu q m = Some (qr, m)" .
  have dl: "dlist qn_next qn_prev (m_nodes m) xs"
    and own: "\<forall>x \<in> set xs. map_option qn_queue (m_nodes m x) = Some q"
    using rep by (auto simp: queue_rep_def)
  have fresh: "new \<notin> set xs" using new(2) dlist_live [OF dl] by fastforce
  show ?thesis
  proof (cases xs rule: rev_cases)
    case Nil
    then show ?thesis
      using qr new by (simp add: enqueue_def enqueued_def queue_unfold)
  next
    case (snoc as l)
    then obtain k where k: "m_nodes m l = Some k" "l \<noteq> NULL"
      using dl by (auto simp: dlist_def)
    have ne: "q_head qr \<noteq> NULL" "q_tail qr = l"
      using qr(3) snoc dlist_ends [OF dl] by (auto simp: queue_hdr_def)
    show ?thesis
      using qr new snoc k ne fresh dl own
      by (auto simp: enqueue_def enqueued_def queue_unfold)
  qed
qed


definition dequeued :: "ptr \<Rightarrow> ptr \<Rightarrow> ptr \<Rightarrow> ptr list \<Rightarrow> ptr list \<Rightarrow> qmem \<Rightarrow> qmem \<Rightarrow> bool" where
  "dequeued cpu x q old xs m m' \<longleftrightarrow>
    queue_rep m' q xs \<and> queue_data m' xs = queue_data m xs \<and>
    queue_held cpu m' q \<and> m_nodes m' x = None \<and> (\<forall>p. p \<noteq> q \<longrightarrow> m_queues m' p = m_queues m p) \<and>
    (\<forall>y. y \<notin> set old \<longrightarrow> m_nodes m' y = m_nodes m y)"

lemma dequeue_rep:
  assumes rep: "queue_rep m q (x # xs)" and held: "queue_held cpu m q"
  shows "\<exists>m'. dequeue cpu q m = Some (node_data m x, m') \<and> dequeued cpu x q (x # xs) xs m m'"
proof -
  from queue_rep_hdr [OF rep held] obtain qr where qr: "q \<noteq> NULL" "m_queues m q = Some qr"
    "queue_hdr qr (x # xs)" "spin_holding cpu (q_lock qr)" "queue_check cpu q m = Some (qr, m)" .
  have dl: "dlist qn_next qn_prev (m_nodes m) (x # xs)"
    and own: "\<forall>y \<in> set (x # xs). map_option qn_queue (m_nodes m y) = Some q"
    using rep by (auto simp: queue_rep_def)
  then obtain k where k: "m_nodes m x = Some k" "x \<noteq> NULL" "qn_next k = fst_or NULL xs"
    by (auto simp: dlist_def)
  show ?thesis
  proof (cases xs)
    case Nil
    then show ?thesis using qr k by (simp add: dequeue_def dequeued_def queue_unfold)
  next
    case (Cons r rs)
    then obtain j where j: "m_nodes m r = Some j" "r \<noteq> NULL" using dl by (auto simp: dlist_def)
    have "x \<noteq> lst_or r rs" using dl Cons by (cases rs) (auto simp: dlist_def lst_or_def)
    then show ?thesis
      using qr k Cons j dl own by (auto simp: dequeue_def dequeued_def queue_unfold)
  qed
qed

text \<open>The searches return the first node that carries the data, and decide membership.\<close>

lemma queue_contains_rep:
  assumes "queue_rep m q xs" and "queue_held cpu m q"
  shows "queue_contains cpu q data m =
    Some (fst_or NULL (dropWhile (\<lambda>x. node_data m x \<noteq> data) xs), m)"
proof (rule queue_rep_hdr [OF assms])
  fix qr assume "queue_hdr qr xs" "queue_check cpu q m = Some (qr, m)"
  then show ?thesis
    using find_node_dseg [of qn_next qn_prev "m_nodes m" NULL xs "\<lambda>_ n. qn_data n = data"]
      queue_rep_dlist [OF assms(1)]
    by (simp add: queue_contains_def queue_hdr_def dlist_def node_data_def)
qed

lemma dropWhile_neq: "dropWhile (\<lambda>x. x \<noteq> a) xs \<noteq> [] \<longleftrightarrow> a \<in> set xs"
  by (induction xs) auto

lemma queue_contains_node_rep:
  assumes "queue_rep m q xs" and "queue_held cpu m q"
  shows "queue_contains_node cpu q node m = Some (node \<in> set xs, m)"
proof (rule queue_rep_hdr [OF assms])
  fix qr assume "queue_hdr qr xs" "queue_check cpu q m = Some (qr, m)"
  moreover have "NULL \<notin> set (dropWhile (\<lambda>p. p \<noteq> node) xs)"
    using dlist_not_NULL [OF queue_rep_dlist [OF assms(1)]] by (meson set_dropWhileD)
  ultimately show ?thesis
    using find_node_dseg [of qn_next qn_prev "m_nodes m" NULL xs "\<lambda>p _. p = node"]
      queue_rep_dlist [OF assms(1)] dropWhile_neq [of node xs]
    by (simp add: queue_contains_node_def queue_hdr_def dlist_def fst_or_eq_default)
qed

lemma queue_remove_node_absent:
  assumes "queue_rep m q xs" and "queue_held cpu m q" and "node \<noteq> NULL" and "node \<notin> set xs"
  shows "queue_remove_node cpu q node m = Some (- ENOENT, m)"
  by (rule queue_rep_hdr [OF assms(1,2)])
    (use assms in \<open>simp add: queue_remove_node_def queue_contains_node_rep\<close>)

lemma queue_remove_node_rep:
  assumes rep: "queue_rep m q (as @ x # bs)" and held: "queue_held cpu m q"
  shows "\<exists>m'. queue_remove_node cpu q x m = Some (0, m') \<and>
    dequeued cpu x q (as @ x # bs) (as @ bs) m m'"
proof -
  from queue_rep_hdr [OF rep held] obtain qr where qr: "q \<noteq> NULL" "m_queues m q = Some qr"
    "queue_hdr qr (as @ x # bs)" "spin_holding cpu (q_lock qr)"
    "queue_check cpu q m = Some (qr, m)" .
  have dl: "dlist qn_next qn_prev (m_nodes m) (as @ x # bs)"
    and own: "\<forall>y \<in> set (as @ x # bs). map_option qn_queue (m_nodes m y) = Some q"
    using rep by (auto simp: queue_rep_def)
  from dlist_node [OF dl] obtain n where n: "m_nodes m x = Some n"
    "qn_prev n = lst_or NULL as" "qn_next n = fst_or NULL bs" by blast
  have x: "x \<noteq> NULL" "x \<notin> set as" "x \<notin> set bs"
    using dl dlist_not_NULL [OF dl] by (auto simp: dlist_def)
  from qlink.unlink [OF dl n(1)] obtain h1 h2 where h:
    "modify_nn (m_nodes m) (qn_prev n) (qn_next_update (\<lambda>_. qn_next n)) = Some h1"
    "modify_nn h1 (qn_next n) (qn_prev_update (\<lambda>_. qn_prev n)) = Some h2"
    "dlist qn_next qn_prev h2 (as @ bs)" "h1 x = Some n" "h2 x = Some n"
    "qlink.relinked (m_nodes m) h2 (set (as @ bs))" .
  have ends: "qn_prev n = NULL \<longleftrightarrow> as = []" "qn_next n = NULL \<longleftrightarrow> bs = []"
    using n dlist_not_NULL [OF dl] by (simp_all add: fst_or_eq_default lst_or_eq_default)
  define qr' where "qr' = (let qr = if as \<noteq> [] then qr else qr\<lparr>q_head := qn_next n\<rparr>;
      qr = if bs \<noteq> [] then qr else qr\<lparr>q_tail := qn_prev n\<rparr> in qr\<lparr>q_count := q_count qr - 1\<rparr>)"
  let ?m = "(put_queue q qr' m)\<lparr>m_nodes := h2(x := None)\<rparr>"
  have eq: "queue_remove_node cpu q x m = Some (0, ?m)"
    using qr x n(1) h ends
    by (simp add: queue_remove_node_def queue_contains_node_rep [OF rep held] exec_simps
        qr'_def Let_def)
  have hdr: "queue_hdr qr' (as @ bs)" "spin_holding cpu (q_lock qr')"
    using qr(3,4) n(2,3) by (auto simp: qr'_def queue_hdr_def Let_def lst_or_def fst_or_def split: list.splits)
  have pay: "map_option (\<lambda>n. (qn_data n, qn_queue n)) (h2 y) =
      map_option (\<lambda>n. (qn_data n, qn_queue n)) (m_nodes m y)" for y
    using qlink.relinked_pay [OF h(6)] .
  have pay': "map_option qn_data (h2 y) = map_option qn_data (m_nodes m y)"
    "map_option qn_queue (h2 y) = map_option qn_queue (m_nodes m y)" for y
    using arg_cong [OF pay, of "map_option fst" y] arg_cong [OF pay, of "map_option snd" y]
    by (simp_all add: option.map_comp comp_def)
  have "\<forall>y \<in> set (as @ bs). map_option qn_queue (h2 y) = Some q"
    unfolding pay' using own by simp
  then have "queue_rep ?m q (as @ bs)"
    using qr(1) hdr(1) h(3) x(2,3) by (auto simp: queue_rep_def dlist_upd)
  moreover have "qn_data (the (h2 y)) = qn_data (the (m_nodes m y))" if "y \<in> set (as @ bs)" for y
    using pay'(1) [of y] dlist_live [OF dl, of y] that by (cases "h2 y") auto
  then have "queue_data ?m (as @ bs) = queue_data m (as @ bs)"
    using x(2,3) by (auto simp: queue_data_def node_data_def)
  moreover have "\<forall>y. y \<notin> set (as @ x # bs) \<longrightarrow> m_nodes ?m y = m_nodes m y"
    using qlink.relinked_other [OF h(6)] by auto
  ultimately have "dequeued cpu x q (as @ x # bs) (as @ bs) m ?m"
    using hdr(2) by (auto simp: dequeued_def queue_held_def)
  with eq show ?thesis by blast
qed

text \<open>On the data, \<^verbatim>\<open>queue_remove\<close> is \<open>remove1\<close>.\<close>

lemma dropWhile_split:
  assumes "dropWhile P xs \<noteq> []"
  obtains as x bs where "xs = as @ x # bs" "\<forall>y \<in> set as. P y" "\<not> P x" "dropWhile P xs = x # bs"
proof -
  from assms obtain x bs where d: "dropWhile P xs = x # bs" by (cases "dropWhile P xs") auto
  then have "xs = takeWhile P xs @ x # bs" by (metis takeWhile_dropWhile_id)
  moreover have "\<forall>y \<in> set (takeWhile P xs). P y" by (blast dest: set_takeWhileD)
  moreover have "\<not> P x" using d by (metis hd_dropWhile list.distinct(1) list.sel(1))
  ultimately show thesis using that d by blast
qed

lemma queue_remove_rep:
  assumes rep: "queue_rep m q xs" and held: "queue_held cpu m q"
  shows "\<exists>m' ys. queue_remove cpu q data m =
      Some (if data \<in> set (queue_data m xs) then 0 else - ENOENT, m') \<and>
    queue_rep m' q ys \<and> queue_held cpu m' q \<and>
    queue_data m' ys = remove1 data (queue_data m xs) \<and> set ys \<subseteq> set xs \<and>
    (\<forall>p. p \<noteq> q \<longrightarrow> m_queues m' p = m_queues m p) \<and>
    (\<forall>y. y \<notin> set xs \<longrightarrow> m_nodes m' y = m_nodes m y)"
proof (cases "dropWhile (\<lambda>x. node_data m x \<noteq> data) xs = []")
  case True
  then have "data \<notin> set (queue_data m xs)" by (auto simp: queue_data_def)
  moreover have "queue_remove cpu q data m = Some (- ENOENT, m)"
    by (rule queue_rep_hdr [OF rep held])
      (simp add: queue_remove_def queue_contains_rep [OF rep held] True)
  ultimately show ?thesis using rep held by (auto simp: remove1_idem)
next
  case False
  from dropWhile_split [OF this] obtain as x bs where xs: "xs = as @ x # bs"
    "\<forall>y \<in> set as. node_data m y \<noteq> data" "\<not> node_data m x \<noteq> data"
    "dropWhile (\<lambda>x. node_data m x \<noteq> data) xs = x # bs" .
  have "queue_remove cpu q data m = queue_remove_node cpu q x m"
    by (rule queue_rep_hdr [OF rep held])
      (use queue_rep_live(1) [OF rep, of x] xs
        in \<open>simp add: queue_remove_def queue_contains_rep [OF rep held]\<close>)
  moreover from queue_remove_node_rep [of m q as x bs cpu] rep held xs(1) obtain m'
    where "queue_remove_node cpu q x m = Some (0, m')" "dequeued cpu x q xs (as @ bs) m m'"
    by auto
  moreover have "remove1 data (queue_data m xs) = queue_data m (as @ bs)"
    using xs by (auto simp: queue_data_def remove1_append)
  moreover have "data \<in> set (queue_data m xs)" using xs by (auto simp: queue_data_def)
  ultimately show ?thesis
    using xs(1) by (intro exI [of _ m'] exI [of _ "as @ bs"]) (auto simp: dequeued_def)
qed


lemma queue_new_rep:
  assumes "name' \<noteq> NULL" "ref \<noteq> NULL" "q \<noteq> NULL" "name \<noteq> NULL"
  shows "\<exists>m'. queue_new name' ref q name 0 m = (0, Some q, m') \<and> queue_rep m' q [] \<and>
    m_nodes m' = m_nodes m"
  using assms by (simp add: queue_new_def queue_rep_def queue_hdr_def)


section \<open>The queue as a first-in first-out buffer\<close>

definition queue_holds :: "ptr \<Rightarrow> ptr \<Rightarrow> qmem \<Rightarrow> ptr list \<Rightarrow> bool" where
  "queue_holds cpu q m ds \<longleftrightarrow>
    (\<exists>xs. queue_rep m q xs \<and> queue_held cpu m q \<and> queue_data m xs = ds)"

definition fresh_node :: "ptr \<Rightarrow> qmem \<Rightarrow> bool" where
  "fresh_node new m \<longleftrightarrow> new \<noteq> NULL \<and> m_nodes m new = None"

definition queue_put :: "ptr \<Rightarrow> ptr \<Rightarrow> ptr \<Rightarrow> ptr \<Rightarrow> qmem \<Rightarrow> qmem option" where
  "queue_put cpu q new data m = map_option snd (enqueue cpu new q data m)"

interpretation qfifo: fifo "queue_holds cpu q" fresh_node "queue_put cpu q" "dequeue cpu q"
  for cpu q
proof
  fix s xs c x
  assume "queue_holds cpu q s xs" and "fresh_node c s"
  then show "\<exists>s'. queue_put cpu q c x s = Some s' \<and> queue_holds cpu q s' (xs @ [x])"
    using enqueue_rep [of s q _ cpu c x]
    by (fastforce simp: queue_holds_def fresh_node_def queue_put_def enqueued_def)
next
  fix s x xs
  assume "queue_holds cpu q s (x # xs)"
  then obtain p ps where "queue_rep s q (p # ps)" "queue_held cpu s q"
    "node_data s p = x" "queue_data s ps = xs"
    by (auto simp: queue_holds_def queue_data_def map_eq_Cons_conv)
  with dequeue_rep [of s q p ps cpu]
  show "\<exists>s'. dequeue cpu q s = Some (x, s') \<and> queue_holds cpu q s' xs"
    by (auto simp: queue_holds_def dequeued_def)
qed

lemma queue_all_ok:
  "queue_rep m q xs \<Longrightarrow> queue_held cpu m q \<Longrightarrow> distinct (map fst ps) \<Longrightarrow>
    \<forall>c \<in> fst ` set ps. fresh_node c m \<Longrightarrow> qfifo.all_ok cpu q ps m"
proof (induction ps arbitrary: m xs)
  case Nil
  then show ?case by simp
next
  case (Cons p ps)
  have fresh: "fst p \<noteq> NULL" "m_nodes m (fst p) = None"
    using Cons.prems(4) by (simp_all add: fresh_node_def)
  from enqueue_rep [OF Cons.prems(1,2) fresh] obtain m' where m':
    "enqueue cpu (fst p) q (snd p) m = Some (fst p, m')"
    "enqueued cpu (fst p) q xs (snd p) m m'" by blast
  have "fresh_node c m'" if "c \<in> fst ` set ps" for c
  proof -
    have "fst p \<notin> fst ` set ps" using Cons.prems(3) by simp
    with that have "c \<noteq> fst p" by blast
    moreover have "fresh_node c m" using Cons.prems(4) that by auto
    moreover from this have "c \<notin> set xs"
      using queue_rep_live(2) [OF Cons.prems(1)] by (fastforce simp: fresh_node_def)
    ultimately show ?thesis using m'(2) by (simp add: fresh_node_def enqueued_def)
  qed
  then have "qfifo.all_ok cpu q ps m'"
    using Cons.IH [of m' "xs @ [fst p]"] m'(2) Cons.prems(3) by (simp add: enqueued_def)
  moreover have "queue_put cpu q (fst p) (snd p) m = Some m'" using m'(1) by (simp add: queue_put_def)
  moreover have "fresh_node (fst p) m" using Cons.prems(4) by simp
  ultimately show ?case by simp
qed


section \<open>Properties\<close>

text \<open>C23. Pointers put on an empty queue with \<^verbatim>\<open>enqueue\<close>, on nodes the allocator returned
  fresh, come back from \<^verbatim>\<open>dequeue\<close> in the order they were put in, and the queue is empty
  again.\<close>

theorem queue_fifo:
  assumes "queue_holds cpu q m []" and "distinct (map fst ps)"
    and "\<forall>c \<in> fst ` set ps. fresh_node c m"
  shows "\<exists>m' m''. iterate_put (queue_put cpu q) ps m = Some m' \<and>
    iterate_get (dequeue cpu q) (length ps) m' = Some (map snd ps, m'') \<and> queue_holds cpu q m'' []"
proof -
  obtain xs where "queue_rep m q xs" "queue_held cpu m q"
    using assms(1) by (auto simp: queue_holds_def)
  then have "qfifo.all_ok cpu q ps m" using assms(2,3) by (rule queue_all_ok)
  with assms(1) show ?thesis by (rule qfifo.in_order)
qed

text \<open>A queue at address 1, locked by the CPU at address 7, and the state after two puts.\<close>

definition example_queue :: qmem where
  "example_queue = \<lparr>m_queues = [1 \<mapsto> \<lparr>q_count = 0, q_flags = 0, q_name = NULL,
     q_lock = \<lparr>sl_lock = 1, sl_cpu = 7\<rparr>, q_head = NULL, q_tail = NULL\<rparr>], m_nodes = Map.empty\<rparr>"

lemma example_queue_rep: "queue_rep example_queue 1 []" "queue_held 7 example_queue 1"
  by (simp_all add: example_queue_def queue_rep_def queue_hdr_def queue_held_def lock_ok_def
      spin_holding_def)

theorem queue_fifo_witness:
  "queue_holds 7 1 example_queue [] \<and> (\<exists>m' m''.
    iterate_put (queue_put 7 1) [(10, 100), (20, 101)] example_queue = Some m' \<and>
    iterate_get (dequeue 7 1) 2 m' = Some ([100, 101], m'') \<and> queue_holds 7 1 m'' [])"
proof -
  have "queue_holds 7 1 example_queue []"
    using example_queue_rep by (auto simp: queue_holds_def queue_data_def)
  moreover from queue_fifo [OF this, of "[(10, 100), (20, 101)]"] have
    "\<exists>m' m''. iterate_put (queue_put 7 1) [(10, 100), (20, 101)] example_queue = Some m' \<and>
    iterate_get (dequeue 7 1) 2 m' = Some ([100, 101], m'') \<and> queue_holds 7 1 m'' []"
    by (simp add: fresh_node_def example_queue_def numeral_2_eq_2)
  ultimately show ?thesis by blast
qed

text \<open>\<^verbatim>\<open>queue_remove\<close> takes the first node that carries the pointer off the list and
  returns 0, or returns \<^verbatim>\<open>-ENOENT\<close> when there is none; every other queue keeps its nodes
  and its contents.\<close>

theorem queue_remove_first:
  assumes "queue_rep m q xs" and "queue_held cpu m q"
  shows "\<exists>m' ys. queue_remove cpu q data m =
      Some (if data \<in> set (queue_data m xs) then 0 else - ENOENT, m') \<and>
    queue_rep m' q ys \<and> queue_data m' ys = remove1 data (queue_data m xs) \<and>
    (\<forall>q' zs. q' \<noteq> q \<longrightarrow> queue_rep m q' zs \<longrightarrow>
      queue_rep m' q' zs \<and> queue_data m' zs = queue_data m zs)"
proof -
  from queue_remove_rep [OF assms, of data] obtain m' ys where m':
    "queue_remove cpu q data m = Some (if data \<in> set (queue_data m xs) then 0 else - ENOENT, m')"
    "queue_rep m' q ys" "queue_data m' ys = remove1 data (queue_data m xs)"
    "\<forall>p. p \<noteq> q \<longrightarrow> m_queues m' p = m_queues m p" "\<forall>y. y \<notin> set xs \<longrightarrow> m_nodes m' y = m_nodes m y"
    by blast
  have "queue_rep m' q' zs \<and> queue_data m' zs = queue_data m zs"
    if "q' \<noteq> q" "queue_rep m q' zs" for q' zs
    using queue_rep_frame [OF that(2), of m'] m'(4,5) that(1)
      queue_rep_disjoint [OF assms(1) that(2)] by fastforce
  with m'(1-3) show ?thesis by blast
qed

theorem queue_remove_first_witness:
  "queue_rep example_queue 1 [] \<and> queue_held 7 example_queue 1 \<and>
   (\<exists>m' ys. queue_remove 7 1 5 example_queue = Some (- ENOENT, m') \<and> queue_rep m' 1 ys \<and>
      queue_data m' ys = [])"
  using queue_remove_first [OF example_queue_rep, of 5] example_queue_rep
  by (auto simp: queue_data_def)



end
