(* ===== verification/Ringbuf.thy ===== *)
theory Ringbuf
  imports Fifo Spinlock
begin

text \<open>
  Byte ring buffers (\<^verbatim>\<open>kernel/ds/ringbuf.c\<close>, \<^verbatim>\<open>kernel/include/ds/ringbuf.h\<close>), used by the pipes and
  the terminals. \<^verbatim>\<open>head\<close> and \<^verbatim>\<open>tail\<close> count all bytes ever read and written, at 32 bits; an index
  into the buffer is their remainder by the size. The buffer is shown to implement the
  first-in first-out contract of \<open>Fifo\<close>, across the wrap-around of the counters, when the size
  divides \<open>2 ^ 32\<close>.
\<close>

section \<open>Operations\<close>

record ringbuf =
  rb_buf :: "u8 list"
  rb_size :: u32
  rb_head :: u32
  rb_tail :: u32
  rb_count :: u32
  rb_lock :: spinlock

definition RINGBUF_INDEX :: "ringbuf \<Rightarrow> u32 \<Rightarrow> u32" where
  "RINGBUF_INDEX r i = i mod rb_size r"

definition ringbuf_assert_lock :: "ptr \<Rightarrow> ringbuf \<Rightarrow> unit option" where
  "ringbuf_assert_lock cpu r = spin_assert_lock cpu (rb_lock r)"

definition ringbuf_lock :: "ptr \<Rightarrow> ringbuf \<Rightarrow> ringbuf option" where
  "ringbuf_lock cpu r = do { lk \<leftarrow> lk_acquire cpu (rb_lock r); Some (r\<lparr>rb_lock := lk\<rparr>) }"

definition ringbuf_unlock :: "ptr \<Rightarrow> ringbuf \<Rightarrow> ringbuf option" where
  "ringbuf_unlock cpu r = do { lk \<leftarrow> lk_release cpu (rb_lock r); Some (r\<lparr>rb_lock := lk\<rparr>) }"

text \<open>
  \<open>err\<close> is the result of \<^verbatim>\<open>spinlock_init\<close>, \<open>ring\<close> the address of the structure and \<open>mem\<close> the
  contents of the byte buffer, or \<open>None\<close>, as returned by the two calls of \<^verbatim>\<open>kmalloc\<close>. The third
  component of the result says whether the lock allocated first is still allocated.
\<close>

definition ringbuf_new :: "u32 \<Rightarrow> int \<Rightarrow> ptr \<Rightarrow> u8 list option \<Rightarrow> int \<times> ringbuf option \<times> bool" where
  "ringbuf_new sz err ring mem =
    (if err \<noteq> 0 then (err, None, False)
     else if ring = NULL then (- ENOMEM, None, True)
     else case mem of
       None \<Rightarrow> (- ENOMEM, None, False)
     | Some buf \<Rightarrow> (0, Some \<lparr>rb_buf = buf, rb_size = sz, rb_head = 0, rb_tail = 0, rb_count = 0,
                           rb_lock = spin_unlocked\<rparr>, True))"

definition ringbuf_isempty :: "ptr \<Rightarrow> ringbuf \<Rightarrow> bool option" where
  "ringbuf_isempty cpu r = do { ringbuf_assert_lock cpu r; Some (rb_count r = 0) }"

definition ringbuf_isfull :: "ptr \<Rightarrow> ringbuf \<Rightarrow> bool option" where
  "ringbuf_isfull cpu r = do { ringbuf_assert_lock cpu r; Some (rb_count r = rb_size r) }"

text \<open>One byte: the statements of the two loop bodies. Division by a zero size and an index
  outside the buffer do not return.\<close>

definition ringbuf_getc :: "ringbuf \<Rightarrow> (u8 \<times> ringbuf) option" where
  "ringbuf_getc r = do {
     kassert (rb_size r \<noteq> 0);
     let i = unat (RINGBUF_INDEX r (rb_head r));
     kassert (i < length (rb_buf r));
     Some (rb_buf r ! i, r\<lparr>rb_head := rb_head r + 1, rb_count := rb_count r - 1\<rparr>)
   }"

definition ringbuf_putc :: "u8 \<Rightarrow> ringbuf \<Rightarrow> ringbuf option" where
  "ringbuf_putc b r = do {
     kassert (rb_size r \<noteq> 0);
     let i = unat (RINGBUF_INDEX r (rb_tail r));
     kassert (i < length (rb_buf r));
     Some (r\<lparr>rb_buf := (rb_buf r)[i := b], rb_tail := rb_tail r + 1, rb_count := rb_count r + 1\<rparr>)
   }"

text \<open>The loops, by the remaining count \<^verbatim>\<open>n\<close>; the reader's result is what was stored through
  \<^verbatim>\<open>buf\<close>, the writer's argument the bytes that \<^verbatim>\<open>buf\<close> points to. Both return what is left of \<^verbatim>\<open>n\<close>.\<close>

fun read_loop :: "ptr \<Rightarrow> nat \<Rightarrow> ringbuf \<Rightarrow> (nat \<times> u8 list \<times> ringbuf) option" where
  "read_loop cpu 0 r = Some (0, [], r)"
| "read_loop cpu (Suc n) r = do {
     e \<leftarrow> ringbuf_isempty cpu r;
     if e then Some (Suc n, [], r)
     else do {
       (b, r) \<leftarrow> ringbuf_getc r;
       (n', bs, r) \<leftarrow> read_loop cpu n r;
       Some (n', b # bs, r)
     }
   }"

fun write_loop :: "ptr \<Rightarrow> nat \<Rightarrow> u8 list \<Rightarrow> ringbuf \<Rightarrow> (nat \<times> ringbuf) option" where
  "write_loop cpu 0 bs r = Some (0, r)"
| "write_loop cpu (Suc n) bs r = do {
     f \<leftarrow> ringbuf_isfull cpu r;
     if f then Some (Suc n, r)
     else case bs of
       [] \<Rightarrow> None
     | b # bs \<Rightarrow> do { r \<leftarrow> ringbuf_putc b r; write_loop cpu n bs r }
   }"

definition ringbuf_read :: "ptr \<Rightarrow> ringbuf \<Rightarrow> u32 \<Rightarrow> (u32 \<times> u8 list \<times> ringbuf) option" where
  "ringbuf_read cpu r n = do {
     ringbuf_assert_lock cpu r;
     (n', bs, r) \<leftarrow> read_loop cpu (unat n) r;
     Some (n - of_nat n', bs, r)
   }"

definition ringbuf_write :: "ptr \<Rightarrow> ringbuf \<Rightarrow> u32 \<Rightarrow> u8 list \<Rightarrow> (u32 \<times> ringbuf) option" where
  "ringbuf_write cpu r n buf = do {
     ringbuf_assert_lock cpu r;
     (n', r) \<leftarrow> write_loop cpu (unat n) buf r;
     Some (n - of_nat n', r)
   }"

definition ringbuf_available :: "ptr \<Rightarrow> ringbuf \<Rightarrow> u32 option" where
  "ringbuf_available cpu r = do {
     ringbuf_assert_lock cpu r;
     if rb_tail r \<ge> rb_head r then Some (rb_tail r - rb_head r)
     else Some (rb_tail r + rb_size r - rb_head r)
   }"


section \<open>Representation\<close>

definition ringbuf_inv :: "ringbuf \<Rightarrow> bool" where
  "ringbuf_inv r \<longleftrightarrow> 0 < unat (rb_size r) \<and> unat (rb_size r) dvd 2 ^ 32 \<and>
    length (rb_buf r) = unat (rb_size r) \<and> unat (rb_count r) \<le> unat (rb_size r) \<and>
    rb_tail r = rb_head r + rb_count r"

definition ringbuf_pos :: "ringbuf \<Rightarrow> nat \<Rightarrow> nat" where
  "ringbuf_pos r i = (unat (rb_head r) + i) mod unat (rb_size r)"

definition ringbuf_data :: "ringbuf \<Rightarrow> u8 list" where
  "ringbuf_data r = map (\<lambda>i. rb_buf r ! ringbuf_pos r i) [0..<unat (rb_count r)]"

definition ringbuf_held :: "ptr \<Rightarrow> ringbuf \<Rightarrow> bool" where
  "ringbuf_held cpu r \<longleftrightarrow> spin_holding cpu (rb_lock r)"

definition ringbuf_rep :: "ptr \<Rightarrow> ringbuf \<Rightarrow> u8 list \<Rightarrow> bool" where
  "ringbuf_rep cpu r bs \<longleftrightarrow> ringbuf_inv r \<and> ringbuf_held cpu r \<and> ringbuf_data r = bs"

lemma ringbuf_assert_lock_held [simp]:
  "ringbuf_held cpu r \<Longrightarrow> ringbuf_assert_lock cpu r = Some ()"
  by (simp add: ringbuf_assert_lock_def spin_assert_lock_def ringbuf_held_def)

lemma length_ringbuf_data [simp]: "length (ringbuf_data r) = unat (rb_count r)"
  by (simp add: ringbuf_data_def)

text \<open>The wrap-around of the counters does not disturb the index.\<close>

lemma unat_add_mod:
  fixes h c s :: u32
  assumes "unat s dvd 2 ^ 32"
  shows "unat ((h + c) mod s) = (unat h + unat c) mod unat s"
  using assms by (simp add: unat_mod unat_word_ariths(1) mod_mod_cancel)

lemma index_head:
  assumes "ringbuf_inv r"
  shows "unat (RINGBUF_INDEX r (rb_head r)) = ringbuf_pos r 0"
  by (simp add: RINGBUF_INDEX_def ringbuf_pos_def unat_mod)

lemma index_tail:
  assumes "ringbuf_inv r"
  shows "unat (RINGBUF_INDEX r (rb_tail r)) = ringbuf_pos r (unat (rb_count r))"
  using assms by (simp add: RINGBUF_INDEX_def ringbuf_pos_def ringbuf_inv_def unat_add_mod)

lemma ringbuf_pos_less: "ringbuf_inv r \<Longrightarrow> ringbuf_pos r i < length (rb_buf r)"
  by (simp add: ringbuf_pos_def ringbuf_inv_def)

lemma mod_add_cancel_less:
  fixes h i j s :: nat
  assumes "i < s" and "j < s" and "(h + i) mod s = (h + j) mod s"
  shows "i = j"
  using assms
proof (induction i j rule: linorder_wlog)
  case (le i j)
  then have "s dvd j - i"
    using mod_eq_dvd_iff_nat [of "h + i" "h + j" s] by simp
  with le show ?case by (auto dest: dvd_imp_le)
next
  case (sym i j)
  then show ?case by simp
qed

lemma ringbuf_getc_rep:
  assumes "ringbuf_rep cpu r (b # bs)"
  shows "\<exists>r'. ringbuf_getc r = Some (b, r') \<and> ringbuf_rep cpu r' bs \<and> rb_size r' = rb_size r"
proof -
  let ?r = "r\<lparr>rb_head := rb_head r + 1, rb_count := rb_count r - 1\<rparr>"
  from assms have inv: "ringbuf_inv r" and d: "ringbuf_data r = b # bs" and h: "ringbuf_held cpu r"
    by (auto simp: ringbuf_rep_def)
  from d have c: "unat (rb_count r) = Suc (length bs)"
    by (metis length_Cons length_ringbuf_data)
  then have c1: "unat (rb_count r - 1) = length bs"
    by (metis One_nat_def diff_Suc_1 unat_gt_0 unat_minus_one zero_less_Suc unat_0)
  have pos: "ringbuf_pos ?r i = ringbuf_pos r (Suc i)" for i
  proof -
    have "unat (rb_head r + 1) mod unat (rb_size r) = (unat (rb_head r) + 1) mod unat (rb_size r)"
      using inv unat_add_mod [of "rb_size r" "rb_head r" 1] by (simp add: ringbuf_inv_def unat_mod)
    then show ?thesis by (simp add: ringbuf_pos_def) (metis add_Suc_right add_Suc mod_add_left_eq)
  qed
  have "ringbuf_data r = rb_buf r ! ringbuf_pos r 0 # map (\<lambda>i. rb_buf r ! ringbuf_pos r (Suc i)) [0..<length bs]"
    unfolding ringbuf_data_def c by (simp add: upt_conv_Cons map_Suc_upt [symmetric] del: upt_Suc)
  with d have "b = rb_buf r ! ringbuf_pos r 0" "bs = map (\<lambda>i. rb_buf r ! ringbuf_pos r (Suc i)) [0..<length bs]"
    by auto
  moreover from this(2) have "ringbuf_data ?r = bs"
    by (simp add: ringbuf_data_def pos c1)
  moreover have "ringbuf_inv ?r" "ringbuf_held cpu ?r"
    using inv h c c1 by (simp_all add: ringbuf_inv_def ringbuf_held_def)
  moreover have "rb_size r \<noteq> 0" using inv by (auto simp: ringbuf_inv_def)
  ultimately show ?thesis
    using inv by (simp add: ringbuf_getc_def index_head ringbuf_pos_less ringbuf_rep_def)
qed

lemma ringbuf_putc_rep:
  assumes "ringbuf_rep cpu r bs" and "rb_count r \<noteq> rb_size r"
  shows "\<exists>r'. ringbuf_putc b r = Some r' \<and> ringbuf_rep cpu r' (bs @ [b]) \<and> rb_size r' = rb_size r"
proof -
  let ?i = "ringbuf_pos r (unat (rb_count r))"
  let ?r = "r\<lparr>rb_buf := (rb_buf r)[?i := b], rb_tail := rb_tail r + 1, rb_count := rb_count r + 1\<rparr>"
  from assms have inv: "ringbuf_inv r" and d: "ringbuf_data r = bs" and h: "ringbuf_held cpu r"
    by (auto simp: ringbuf_rep_def)
  from inv assms(2) have lt: "unat (rb_count r) < unat (rb_size r)"
    by (auto simp: ringbuf_inv_def le_less dest: word_unat_eq_iff [THEN iffD2])
  then have c1: "unat (rb_count r + 1) = Suc (unat (rb_count r))"
    by (rule unat_Suc_less)
  have pos: "ringbuf_pos ?r j = ringbuf_pos r j" for j by (simp add: ringbuf_pos_def)
  have "?i \<noteq> ringbuf_pos r j" if "j < unat (rb_count r)" for j
    using mod_add_cancel_less [of j "unat (rb_size r)" "unat (rb_count r)" "unat (rb_head r)"] that lt
    by (auto simp: ringbuf_pos_def)
  then have "ringbuf_data ?r = bs @ [b]"
    using ringbuf_pos_less [OF inv] d by (auto simp: ringbuf_data_def pos c1)
  moreover have "ringbuf_inv ?r" "ringbuf_held cpu ?r"
    using inv h lt c1 by (simp_all add: ringbuf_inv_def ringbuf_held_def)
  moreover have "rb_size r \<noteq> 0" using inv by (auto simp: ringbuf_inv_def)
  ultimately show ?thesis
    using inv by (simp add: ringbuf_putc_def index_tail ringbuf_pos_less ringbuf_rep_def)
qed


text \<open>The contract of \<open>Fifo\<close>: a put needs room.\<close>

definition ringbuf_room :: "unit \<Rightarrow> ringbuf \<Rightarrow> bool" where
  "ringbuf_room c r \<longleftrightarrow> rb_count r \<noteq> rb_size r"

interpretation rfifo: fifo "ringbuf_rep cpu" ringbuf_room "\<lambda>_. ringbuf_putc" ringbuf_getc for cpu
  by unfold_locales (use ringbuf_putc_rep ringbuf_getc_rep in \<open>unfold ringbuf_room_def, blast+\<close>)

section \<open>The loops\<close>

lemma ringbuf_rep_simps:
  assumes "ringbuf_rep cpu r bs"
  shows "ringbuf_isempty cpu r = Some (bs = [])"
    "ringbuf_isfull cpu r = Some (length bs = unat (rb_size r))"
    "length bs \<le> unat (rb_size r)"
  using assms
  by (auto simp: ringbuf_rep_def ringbuf_isempty_def ringbuf_isfull_def ringbuf_inv_def
      unat_eq_zero word_unat_eq_iff simp flip: length_ringbuf_data)

lemma read_loop_rep:
  "ringbuf_rep cpu r bs \<Longrightarrow>
    \<exists>r'. read_loop cpu n r = Some (n - length bs, take n bs, r') \<and> ringbuf_rep cpu r' (drop n bs) \<and>
      rb_size r' = rb_size r"
proof (induction n arbitrary: r bs)
  case 0
  then show ?case by simp
next
  case (Suc n)
  show ?case
  proof (cases bs)
    case Nil
    with Suc.prems show ?thesis by (simp add: ringbuf_rep_simps)
  next
    case (Cons b bs')
    with Suc.prems ringbuf_getc_rep obtain r1 where r1: "ringbuf_getc r = Some (b, r1)"
      "ringbuf_rep cpu r1 bs'" "rb_size r1 = rb_size r" by blast
    from Suc.IH [OF r1(2)] show ?thesis
      using Suc.prems Cons r1 by (auto simp: ringbuf_rep_simps)
  qed
qed

lemma write_loop_rep:
  "ringbuf_rep cpu r bs \<Longrightarrow> n \<le> length cs \<Longrightarrow>
    \<exists>r'. write_loop cpu n cs r = Some (n - (unat (rb_size r) - length bs), r') \<and>
      ringbuf_rep cpu r' (bs @ take (min n (unat (rb_size r) - length bs)) cs) \<and>
      rb_size r' = rb_size r"
proof (induction n arbitrary: r bs cs)
  case 0
  then show ?case by simp
next
  case (Suc n)
  then obtain c cs' where cs: "cs = c # cs'" "n \<le> length cs'" by (cases cs) auto
  note rep = ringbuf_rep_simps [OF Suc.prems(1)]
  show ?case
  proof (cases "length bs = unat (rb_size r)")
    case True
    with Suc.prems show ?thesis by (simp add: rep)
  next
    case False
    with Suc.prems(1) have "rb_count r \<noteq> rb_size r"
      by (auto simp: ringbuf_rep_def)
    with Suc.prems ringbuf_putc_rep obtain r1 where r1: "ringbuf_putc c r = Some r1"
      "ringbuf_rep cpu r1 (bs @ [c])" "rb_size r1 = rb_size r" by blast
    from False rep(3) obtain k where "unat (rb_size r) - length bs = Suc k"
      by (metis Suc_pred diff_is_0_eq le_antisym neq0_conv)
    moreover from this have "unat (rb_size r) - Suc (length bs) = k" by simp
    ultimately show ?thesis
      using Suc.IH [OF r1(2) cs(2)] False cs r1 rep by auto
  qed
qed

lemma ringbuf_read_rep:
  assumes "ringbuf_rep cpu r bs"
  shows "\<exists>r'. ringbuf_read cpu r n = Some (of_nat (min (unat n) (length bs)), take (unat n) bs, r') \<and>
    ringbuf_rep cpu r' (drop (unat n) bs) \<and> rb_size r' = rb_size r"
proof -
  have "n - of_nat (unat n - length bs) = of_nat (min (unat n) (length bs))"
    by (cases "length bs \<le> unat n") (simp_all add: of_nat_diff min_def)
  with read_loop_rep [OF assms, of "unat n"] assms show ?thesis
    by (auto simp: ringbuf_read_def ringbuf_rep_def)
qed

lemma ringbuf_write_rep:
  assumes "ringbuf_rep cpu r bs" and "unat n \<le> length cs"
  shows "\<exists>r'. ringbuf_write cpu r n cs = Some (of_nat (min (unat n) (unat (rb_size r) - length bs)), r') \<and>
    ringbuf_rep cpu r' (bs @ take (min (unat n) (unat (rb_size r) - length bs)) cs) \<and>
    rb_size r' = rb_size r"
proof -
  have "n - of_nat (unat n - k) = of_nat (min (unat n) k)" for k
    by (cases "k \<le> unat n") (simp_all add: of_nat_diff min_def)
  with write_loop_rep [OF assms] assms show ?thesis
    by (auto simp: ringbuf_write_def ringbuf_rep_def)
qed

lemma ringbuf_new_rep:
  assumes "ringbuf_new sz 0 ring (Some mem) = (0, Some r, l)" and "0 < unat sz"
    and "unat sz dvd 2 ^ 32" and "length mem = unat sz"
  shows "\<exists>r'. ringbuf_lock cpu r = Some r' \<and> ringbuf_rep cpu r' []"
  using assms
  by (auto simp: ringbuf_new_def ringbuf_lock_def ringbuf_rep_def ringbuf_inv_def ringbuf_held_def
      ringbuf_data_def split: if_splits)


section \<open>Properties\<close>

text \<open>A buffer of four bytes with one byte, whose write counter has just wrapped.\<close>

definition example_ring :: ringbuf where
  "example_ring = \<lparr>rb_buf = [0, 0, 0, 5], rb_size = 4, rb_head = 0xFFFFFFFF, rb_tail = 0, rb_count = 1,
     rb_lock = \<lparr>sl_lock = 1, sl_cpu = 7\<rparr>\<rparr>"

lemma example_ring_rep: "ringbuf_rep 7 example_ring [5]"
  by (simp add: ringbuf_rep_def ringbuf_inv_def ringbuf_held_def spin_holding_def ringbuf_data_def
      ringbuf_pos_def example_ring_def)

text \<open>C21. A ring buffer is a bounded first-in first-out channel, also across the wrap-around of
  its 32-bit counters: a write stores as many of its bytes as there is room for and returns
  their number, a following read returns the oldest bytes in order, and what it leaves stays
  readable. The size must divide \<open>2 ^ 32\<close>.\<close>

theorem ringbuf_channel:
  assumes "ringbuf_rep cpu r bs" and "unat n \<le> length cs"
  defines "k \<equiv> min (unat n) (unat (rb_size r) - length bs)"
  shows "\<exists>r1 r2. ringbuf_write cpu r n cs = Some (of_nat k, r1) \<and>
    ringbuf_read cpu r1 m = Some (of_nat (min (unat m) (length bs + k)), take (unat m) (bs @ take k cs), r2) \<and>
    ringbuf_rep cpu r2 (drop (unat m) (bs @ take k cs))"
proof -
  from ringbuf_write_rep [OF assms(1,2)] obtain r1 where r1:
    "ringbuf_write cpu r n cs = Some (of_nat k, r1)" "ringbuf_rep cpu r1 (bs @ take k cs)"
    unfolding k_def by blast
  have "length (bs @ take k cs) = length bs + k" using assms(2) by (simp add: k_def)
  with r1 ringbuf_read_rep [OF r1(2), of m] show ?thesis by auto
qed

theorem ringbuf_channel_witness:
  "\<exists>r1 r2. ringbuf_write 7 example_ring 2 [6, 7] = Some (2, r1) \<and>
    ringbuf_read 7 r1 9 = Some (3, [5, 6, 7], r2) \<and> ringbuf_rep 7 r2 []"
  using ringbuf_channel [OF example_ring_rep, of 2 "[6, 7]" 9]
  by (simp add: example_ring_def)

text \<open>C32. \<^verbatim>\<open>ringbuf_available\<close> returns the number of stored bytes only while the write counter
  has not wrapped past the read counter; afterwards it returns the size more than that.\<close>

theorem ringbuf_available_count:
  assumes "ringbuf_rep cpu r bs"
  shows "ringbuf_available cpu r =
    Some (if unat (rb_head r) + length bs < 2 ^ 32 then of_nat (length bs)
          else of_nat (length bs) + rb_size r)"
proof -
  from assms have c: "rb_tail r = rb_head r + rb_count r" "length bs = unat (rb_count r)"
    by (auto simp: ringbuf_rep_def ringbuf_inv_def)
  have "rb_tail r \<ge> rb_head r \<longleftrightarrow> unat (rb_head r) + length bs < 2 ^ 32"
    unfolding c by (simp add: no_olen_add_nat)
  with assms c show ?thesis
    by (simp add: ringbuf_available_def ringbuf_rep_def)
qed

theorem ringbuf_available_count_witness:
  "ringbuf_rep 7 example_ring [5] \<and> ringbuf_available 7 example_ring = Some 5"
  using ringbuf_available_count [OF example_ring_rep] example_ring_rep
  by (simp add: example_ring_def)

end
