(* ===== verification/Bitmap.thy ===== *)
theory Bitmap
  imports Spinlock
begin

text \<open>
  Bitmaps (\<^verbatim>\<open>kernel/ds/bmap.c\<close>, \<^verbatim>\<open>kernel/include/ds/bitmap.h\<close>): an array of 32-bit words with
  operations on clusters of bits. The word-level loops are related to the set of bits that are
  on, and the two searches to the least cluster of the wanted value.
\<close>

section \<open>Operations\<close>

text \<open>\<open>bm_base\<close> is the address of the words, \<open>bm_map\<close> the words it points to, \<open>bm_size\<close> their
  size in bytes.\<close>

record bitmap =
  bm_base :: ptr
  bm_map :: "u32 list"
  bm_size :: u32
  bm_lock :: spinlock

definition MAX_INT_BITMAP :: "nat \<Rightarrow> nat" where
  "MAX_INT_BITMAP sz = sz * 1024 div 4"

text \<open>The first three asserts of every operation; \<^verbatim>\<open>sizeof (int [n])\<close> is \<open>4 * n\<close>.\<close>

definition bitmap_valid :: "bitmap \<Rightarrow> bool" where
  "bitmap_valid b \<longleftrightarrow> bm_base b \<noteq> NULL \<and> bm_size b \<noteq> 0 \<and> unat (bm_size b) < 4 * MAX_INT_BITMAP 131072"

definition bitmap_lock :: "ptr \<Rightarrow> bitmap \<Rightarrow> bitmap option" where
  "bitmap_lock cpu b = do {
     kassert (bitmap_valid b);
     lk \<leftarrow> lk_acquire cpu (bm_lock b);
     Some (b\<lparr>bm_lock := lk\<rparr>)
   }"

definition bitmap_unlock :: "ptr \<Rightarrow> bitmap \<Rightarrow> bitmap option" where
  "bitmap_unlock cpu b = do {
     kassert (bitmap_valid b);
     lk \<leftarrow> lk_release cpu (bm_lock b);
     Some (b\<lparr>bm_lock := lk\<rparr>)
   }"

definition bitmap_try_lock :: "ptr \<Rightarrow> bitmap \<Rightarrow> (bool \<times> bitmap) option" where
  "bitmap_try_lock cpu b = do {
     kassert (bitmap_valid b);
     let (held, lk) = lk_try cpu (bm_lock b);
     Some (held, b\<lparr>bm_lock := lk\<rparr>)
   }"

text \<open>\<^verbatim>\<open>memsetd\<close> over the words of the map.\<close>

fun set_words :: "u32 list \<Rightarrow> u32 \<Rightarrow> nat \<Rightarrow> u32 list option" where
  "set_words ws c 0 = Some ws"
| "set_words [] c (Suc n) = None"
| "set_words (w # ws) c (Suc n) = map_option (Cons c) (set_words ws c n)"

definition bitmap_init :: "ptr \<Rightarrow> bitmap \<Rightarrow> u32 \<Rightarrow> (int \<times> bitmap) option" where
  "bitmap_init cpu b pattern = do {
     kassert (bitmap_valid b);
     b \<leftarrow> bitmap_lock cpu b;
     ws \<leftarrow> set_words (bm_map b) pattern (unat (bm_size b div 4));
     b \<leftarrow> bitmap_unlock cpu (b\<lparr>bm_map := ws\<rparr>);
     Some (0, b)
   }"

text \<open>\<^verbatim>\<open>bmap->base[bit / 32] & (1 << (bit % 32))\<close>; an index outside the words does not return.\<close>

definition bit_mask :: "nat \<Rightarrow> u32" where
  "bit_mask i = push_bit (i mod 32) 1"

definition bitmap_word :: "bitmap \<Rightarrow> nat \<Rightarrow> u32 option" where
  "bitmap_word b i = do {
     kassert (i div 32 < length (bm_map b));
     Some ((bm_map b ! (i div 32)) AND bit_mask i)
   }"

text \<open>\<^verbatim>\<open>bmap->base[tmp / 32] |= (1 << (tmp % 32))\<close> and the corresponding clearing.\<close>

definition bitmap_or :: "bitmap \<Rightarrow> nat \<Rightarrow> bitmap option" where
  "bitmap_or b i = do {
     kassert (i div 32 < length (bm_map b));
     Some (b\<lparr>bm_map := (bm_map b)[i div 32 := (bm_map b ! (i div 32)) OR bit_mask i]\<rparr>)
   }"

definition bitmap_clr :: "bitmap \<Rightarrow> nat \<Rightarrow> bitmap option" where
  "bitmap_clr b i = do {
     kassert (i div 32 < length (bm_map b));
     Some (b\<lparr>bm_map := (bm_map b)[i div 32 := (bm_map b ! (i div 32)) AND NOT (bit_mask i)]\<rparr>)
   }"

text \<open>
  The asserts on the position and on the cluster. A position and a length whose sum is not
  representable as an \<^verbatim>\<open>int\<close> is undefined behaviour and does not return either.
\<close>

definition bitmap_check1 :: "ptr \<Rightarrow> bitmap \<Rightarrow> int \<Rightarrow> unit option" where
  "bitmap_check1 cpu b pos = do {
     kassert (bitmap_valid b);
     kassert (pos \<ge> 0);
     kassert (pos div 32 < int (unat (bm_size b div 4)))
   }"

definition bitmap_check :: "ptr \<Rightarrow> bitmap \<Rightarrow> int \<Rightarrow> int \<Rightarrow> bitmap option" where
  "bitmap_check cpu b pos n = do {
     bitmap_check1 cpu b pos;
     kassert (n \<noteq> 0 \<and> n \<ge> 0);
     kassert (pos + n < 2 ^ 31);
     kassert (pos + n \<le> int (unat (bm_size b)) * 8);
     (held, b) \<leftarrow> bitmap_try_lock cpu b;
     kassert (\<not> held);
     Some b
   }"

text \<open>The word read is returned as an \<^verbatim>\<open>int\<close>.\<close>

definition bitmap_test :: "ptr \<Rightarrow> bitmap \<Rightarrow> int \<Rightarrow> (int \<times> bitmap) option" where
  "bitmap_test cpu b pos = do {
     bitmap_check1 cpu b pos;
     (held, b) \<leftarrow> bitmap_try_lock cpu b;
     kassert (\<not> held);
     w \<leftarrow> bitmap_word b (nat pos);
     Some (sint w, b)
   }"

text \<open>The first loops of \<^verbatim>\<open>bitmap_set\<close> (\<open>v = True\<close>) and \<^verbatim>\<open>bitmap_unset\<close> (\<open>v = False\<close>): is there a bit
  with the value \<open>v\<close> among the \<open>n\<close> bits from \<open>i\<close> on? Then the second loops.\<close>

fun any_bit :: "bool \<Rightarrow> bitmap \<Rightarrow> nat \<Rightarrow> nat \<Rightarrow> bool option" where
  "any_bit v b i 0 = Some False"
| "any_bit v b i (Suc n) = do {
     w \<leftarrow> bitmap_word b i;
     if (w \<noteq> 0) = v then Some True else any_bit v b (Suc i) n
   }"

fun set_bits :: "bitmap \<Rightarrow> nat \<Rightarrow> nat \<Rightarrow> bitmap option" where
  "set_bits b i 0 = Some b"
| "set_bits b i (Suc n) = do { b \<leftarrow> bitmap_or b i; set_bits b (Suc i) n }"

fun clr_bits :: "bitmap \<Rightarrow> nat \<Rightarrow> nat \<Rightarrow> bitmap option" where
  "clr_bits b i 0 = Some b"
| "clr_bits b i (Suc n) = do { b \<leftarrow> bitmap_clr b i; clr_bits b (Suc i) n }"

definition bitmap_set :: "ptr \<Rightarrow> bitmap \<Rightarrow> int \<Rightarrow> int \<Rightarrow> (int \<times> bitmap) option" where
  "bitmap_set cpu b pos n = do {
     b \<leftarrow> bitmap_check cpu b pos n;
     some \<leftarrow> any_bit True b (nat pos) (nat n);
     if some then Some (- EALREADY, b)
     else do { b \<leftarrow> set_bits b (nat pos) (nat n); Some (0, b) }
   }"

definition bitmap_unset :: "ptr \<Rightarrow> bitmap \<Rightarrow> int \<Rightarrow> int \<Rightarrow> (int \<times> bitmap) option" where
  "bitmap_unset cpu b pos n = do {
     b \<leftarrow> bitmap_check cpu b pos n;
     some \<leftarrow> any_bit False b (nat pos) (nat n);
     if some then Some (- EALREADY, b)
     else do { b \<leftarrow> clr_bits b (nat pos) (nat n); Some (0, b) }
   }"

text \<open>The inner loop of the two searches: the number of bits with value \<open>v\<close> from \<open>j\<close> on, at most
  \<open>n\<close>. Then the outer loop, up to \<open>lim\<close> bits.\<close>

fun bit_run :: "bool \<Rightarrow> bitmap \<Rightarrow> nat \<Rightarrow> nat \<Rightarrow> nat option" where
  "bit_run v b j 0 = Some 0"
| "bit_run v b j (Suc n) = do {
     w \<leftarrow> bitmap_word b j;
     if (w \<noteq> 0) = v then map_option Suc (bit_run v b (Suc j) n) else Some 0
   }"

partial_function (option) first_loop :: "bool \<Rightarrow> bitmap \<Rightarrow> nat \<Rightarrow> nat \<Rightarrow> nat \<Rightarrow> int option" where
  "first_loop v b lim pos n =
    (if pos + n \<le> lim then do {
       w \<leftarrow> bitmap_word b pos;
       if (w \<noteq> 0) = v then do {
         nr \<leftarrow> bit_run v b pos n;
         if nr = n then Some (int pos) else first_loop v b lim (pos + nr) n
       }
       else first_loop v b lim (pos + 1) n
     }
     else Some (- ENOENT))"

definition bitmap_first_unset :: "ptr \<Rightarrow> bitmap \<Rightarrow> int \<Rightarrow> int \<Rightarrow> (int \<times> bitmap) option" where
  "bitmap_first_unset cpu b pos n = do {
     b \<leftarrow> bitmap_check cpu b pos n;
     r \<leftarrow> first_loop False b (unat (bm_size b) * 8) (nat pos) (nat n);
     Some (r, b)
   }"

definition bitmap_first_set :: "ptr \<Rightarrow> bitmap \<Rightarrow> int \<Rightarrow> int \<Rightarrow> (int \<times> bitmap) option" where
  "bitmap_first_set cpu b pos n = do {
     b \<leftarrow> bitmap_check cpu b pos n;
     r \<leftarrow> first_loop True b (unat (bm_size b) * 8) (nat pos) (nat n);
     Some (r, b)
   }"


section \<open>The set of bits that are on\<close>

definition bitmap_bit :: "bitmap \<Rightarrow> nat \<Rightarrow> bool" where
  "bitmap_bit b i \<longleftrightarrow> bit (bm_map b ! (i div 32)) (i mod 32)"

definition bitmap_len :: "bitmap \<Rightarrow> nat" where
  "bitmap_len b = unat (bm_size b) * 8"

text \<open>The shape of a bitmap: the words fill the size, which is a whole number of words.\<close>

definition bitmap_inv :: "bitmap \<Rightarrow> bool" where
  "bitmap_inv b \<longleftrightarrow> bitmap_valid b \<and> lock_ok (bm_lock b) \<and> unat (bm_size b) = 4 * length (bm_map b)"

definition bitmap_held :: "ptr \<Rightarrow> bitmap \<Rightarrow> bool" where
  "bitmap_held cpu b \<longleftrightarrow> spin_holding cpu (bm_lock b)"

lemma bit_mask_bit: "bit (bit_mask i) k \<longleftrightarrow> k = i mod 32"
  by (auto simp: bit_mask_def bit_simps)

lemma bit_u32: "bit (w :: u32) k \<Longrightarrow> k < 32"
  by (drule bit_imp_le_length) simp

lemma and_bit_mask: "(w AND bit_mask i \<noteq> 0) \<longleftrightarrow> bit (w :: u32) (i mod 32)"
proof -
  have "w AND bit_mask i = 0 \<longleftrightarrow> (\<forall>k. \<not> (bit w k \<and> k = i mod 32))"
    by (subst bit_eq_iff) (auto simp: bit_and_iff bit_mask_bit dest: bit_u32)
  then show ?thesis by simp
qed

lemma bitmap_len_words: "bitmap_inv b \<Longrightarrow> bitmap_len b = 32 * length (bm_map b)"
  by (simp add: bitmap_len_def bitmap_inv_def)

lemma div_32_less: "i < bitmap_len b \<Longrightarrow> bitmap_inv b \<Longrightarrow> i div 32 < length (bm_map b)"
  by (simp add: bitmap_len_words)

lemma bitmap_word_bit:
  assumes "bitmap_inv b" and "i < bitmap_len b"
  shows "\<exists>w. bitmap_word b i = Some w \<and> (w \<noteq> 0 \<longleftrightarrow> bitmap_bit b i)"
  using div_32_less [OF assms(2,1)] by (simp add: bitmap_word_def bitmap_bit_def and_bit_mask)

lemma ivl_empty: "(i \<le> j \<and> j < i) = False" for i j :: nat
  by simp

lemma ivl_Suc: "(i \<le> j \<and> j < i + Suc n) = (j = i \<or> Suc i \<le> j \<and> j < Suc i + n)"
  by auto

lemma div_mod_32_eq: "i div 32 = j div 32 \<Longrightarrow> i mod 32 = j mod 32 \<longleftrightarrow> i = (j::nat)"
  by (metis div_mult_mod_eq)

lemma bitmap_update_bit:
  assumes "i div 32 < length (bm_map b)" and "\<And>k. bit w k = (if k = i mod 32 then v else bit (bm_map b ! (i div 32)) k)"
  shows "bitmap_bit (b\<lparr>bm_map := (bm_map b)[i div 32 := w]\<rparr>) = (bitmap_bit b)(i := v)"
proof
  fix j
  show "bitmap_bit (b\<lparr>bm_map := (bm_map b)[i div 32 := w]\<rparr>) j = ((bitmap_bit b)(i := v)) j"
    using assms div_mod_32_eq [of j i]
    by (cases "i div 32 = j div 32") (auto simp: bitmap_bit_def)
qed

text \<open>A write to one bit keeps the rest of the structure.\<close>

definition bits_to :: "bitmap \<Rightarrow> (nat \<Rightarrow> bool) \<Rightarrow> bitmap \<Rightarrow> bool" where
  "bits_to b f b' \<longleftrightarrow> (\<exists>ws. b' = b\<lparr>bm_map := ws\<rparr> \<and> length ws = length (bm_map b)) \<and> bitmap_bit b' = f"

lemma bits_to_simps:
  assumes "bits_to b f b'"
  shows "bitmap_bit b' = f" "bitmap_len b' = bitmap_len b" "bitmap_inv b' = bitmap_inv b"
    "bitmap_held cpu b' = bitmap_held cpu b" "bm_lock b' = bm_lock b"
  using assms by (auto simp: bits_to_def bitmap_len_def bitmap_inv_def bitmap_held_def bitmap_valid_def)

lemma bits_to_refl: "bits_to b (bitmap_bit b) b"
  unfolding bits_to_def by (rule conjI, rule exI [of _ "bm_map b"]) simp_all

lemma bits_to_trans: "bits_to b f b1 \<Longrightarrow> bits_to b1 g b2 \<Longrightarrow> bits_to b g b2"
  by (auto simp: bits_to_def)

lemma bitmap_or_bit:
  assumes "bitmap_inv b" and "i < bitmap_len b"
  shows "\<exists>b'. bitmap_or b i = Some b' \<and> bits_to b ((bitmap_bit b)(i := True)) b'"
  using div_32_less [OF assms(2,1)]
  by (auto simp: bitmap_or_def bits_to_def bit_or_iff bit_mask_bit intro!: bitmap_update_bit)

lemma bitmap_clr_bit:
  assumes "bitmap_inv b" and "i < bitmap_len b"
  shows "\<exists>b'. bitmap_clr b i = Some b' \<and> bits_to b ((bitmap_bit b)(i := False)) b'"
  using div_32_less [OF assms(2,1)]
  by (auto simp: bitmap_clr_def bits_to_def bit_and_iff bit_not_iff bit_mask_bit
      dest: bit_u32 split: if_splits intro!: bitmap_update_bit)

lemma set_bits_bit:
  "bitmap_inv b \<Longrightarrow> i + n \<le> bitmap_len b \<Longrightarrow>
    \<exists>b'. set_bits b i n = Some b' \<and> bits_to b (\<lambda>j. i \<le> j \<and> j < i + n \<or> bitmap_bit b j) b'"
proof (induction n arbitrary: b i)
  case 0
  then show ?case using bits_to_refl [of b] by (simp add: ivl_empty)
next
  case (Suc n)
  then obtain b1 where b1: "bitmap_or b i = Some b1" "bits_to b ((bitmap_bit b)(i := True)) b1"
    using bitmap_or_bit [of b i] by auto
  note b1s = bits_to_simps [OF b1(2)]
  from Suc obtain b2 where b2: "set_bits b1 (Suc i) n = Some b2"
    "bits_to b1 (\<lambda>j. Suc i \<le> j \<and> j < Suc i + n \<or> bitmap_bit b1 j) b2"
    using Suc.IH [of b1 "Suc i"] by (auto simp: b1s)
  have "(\<lambda>j. Suc i \<le> j \<and> j < Suc i + n \<or> bitmap_bit b1 j) = (\<lambda>j. i \<le> j \<and> j < i + Suc n \<or> bitmap_bit b j)"
    by (auto simp: b1s fun_eq_iff)
  with b2 have "bits_to b (\<lambda>j. i \<le> j \<and> j < i + Suc n \<or> bitmap_bit b j) b2"
    using bits_to_trans [OF b1(2)] by simp
  with b1 b2 show ?case by simp
qed

lemma clr_bits_bit:
  "bitmap_inv b \<Longrightarrow> i + n \<le> bitmap_len b \<Longrightarrow>
    \<exists>b'. clr_bits b i n = Some b' \<and> bits_to b (\<lambda>j. \<not> (i \<le> j \<and> j < i + n) \<and> bitmap_bit b j) b'"
proof (induction n arbitrary: b i)
  case 0
  then show ?case using bits_to_refl [of b] by (simp add: ivl_empty)
next
  case (Suc n)
  then obtain b1 where b1: "bitmap_clr b i = Some b1" "bits_to b ((bitmap_bit b)(i := False)) b1"
    using bitmap_clr_bit [of b i] by auto
  note b1s = bits_to_simps [OF b1(2)]
  from Suc obtain b2 where b2: "clr_bits b1 (Suc i) n = Some b2"
    "bits_to b1 (\<lambda>j. \<not> (Suc i \<le> j \<and> j < Suc i + n) \<and> bitmap_bit b1 j) b2"
    using Suc.IH [of b1 "Suc i"] by (auto simp: b1s)
  have "(\<lambda>j. \<not> (Suc i \<le> j \<and> j < Suc i + n) \<and> bitmap_bit b1 j) =
      (\<lambda>j. \<not> (i \<le> j \<and> j < i + Suc n) \<and> bitmap_bit b j)"
    by (auto simp: b1s fun_eq_iff)
  with b2 have "bits_to b (\<lambda>j. \<not> (i \<le> j \<and> j < i + Suc n) \<and> bitmap_bit b j) b2"
    using bits_to_trans [OF b1(2)] by simp
  with b1 b2 show ?case by simp
qed

lemma any_bit_bit:
  "bitmap_inv b \<Longrightarrow> i + n \<le> bitmap_len b \<Longrightarrow>
    any_bit v b i n = Some (\<exists>j. i \<le> j \<and> j < i + n \<and> bitmap_bit b j = v)"
proof (induction n arbitrary: i)
  case 0
  then show ?case by simp
next
  case (Suc n)
  then obtain w where w: "bitmap_word b i = Some w" "(w \<noteq> 0) = bitmap_bit b i"
    using bitmap_word_bit [of b i] by auto
  have "(\<exists>j. i \<le> j \<and> j < i + Suc n \<and> bitmap_bit b j = v) \<longleftrightarrow>
      bitmap_bit b i = v \<or> (\<exists>j. Suc i \<le> j \<and> j < Suc i + n \<and> bitmap_bit b j = v)"
    by (simp only: conj_assoc [symmetric] ivl_Suc) blast
  with Suc w show ?case by simp
qed

lemma bit_run_bit:
  "bitmap_inv b \<Longrightarrow> i + n \<le> bitmap_len b \<Longrightarrow>
    \<exists>r. bit_run v b i n = Some r \<and> r \<le> n \<and> (\<forall>j. i \<le> j \<and> j < i + r \<longrightarrow> bitmap_bit b j = v) \<and>
      (r < n \<longrightarrow> bitmap_bit b (i + r) \<noteq> v)"
proof (induction n arbitrary: i)
  case 0
  then show ?case by (simp add: ivl_empty)
next
  case (Suc n)
  then obtain w where w: "bitmap_word b i = Some w" "(w \<noteq> 0) = bitmap_bit b i"
    using bitmap_word_bit [of b i] by auto
  show ?case
  proof (cases "bitmap_bit b i = v")
    case True
    from Suc.IH [of "Suc i"] Suc.prems obtain r where r: "bit_run v b (Suc i) n = Some r" "r \<le> n"
      "\<forall>j. Suc i \<le> j \<and> j < Suc i + r \<longrightarrow> bitmap_bit b j = v" "r < n \<longrightarrow> bitmap_bit b (Suc i + r) \<noteq> v"
      by auto
    have "\<forall>j. i \<le> j \<and> j < i + Suc r \<longrightarrow> bitmap_bit b j = v"
      using r(3) True by (simp only: ivl_Suc) blast
    with True r w show ?thesis by simp
  next
    case False
    with w show ?thesis by (simp add: ivl_empty)
  qed
qed

text \<open>A cluster of \<open>n\<close> bits with value \<open>v\<close> at \<open>i\<close>, inside the bitmap.\<close>

definition cluster :: "bool \<Rightarrow> bitmap \<Rightarrow> nat \<Rightarrow> nat \<Rightarrow> bool" where
  "cluster v b n i \<longleftrightarrow> i + n \<le> bitmap_len b \<and> (\<forall>j. i \<le> j \<and> j < i + n \<longrightarrow> bitmap_bit b j = v)"

lemma cluster_notI: "i \<le> j \<Longrightarrow> j < i + n \<Longrightarrow> bitmap_bit b j \<noteq> v \<Longrightarrow> \<not> cluster v b n i"
  by (auto simp: cluster_def)

definition least_cluster :: "bool \<Rightarrow> bitmap \<Rightarrow> nat \<Rightarrow> nat \<Rightarrow> int \<Rightarrow> bool" where
  "least_cluster v b n i r \<longleftrightarrow>
    (if \<exists>k\<ge>i. cluster v b n k then r = int (LEAST k. i \<le> k \<and> cluster v b n k) else r = - ENOENT)"

lemma least_cluster_skip:
  assumes "\<And>k. i \<le> k \<Longrightarrow> k < i' \<Longrightarrow> \<not> cluster v b n k" and "i \<le> i'"
  shows "least_cluster v b n i r = least_cluster v b n i' r"
proof -
  have "(i \<le> k \<and> cluster v b n k) = (i' \<le> k \<and> cluster v b n k)" for k
    using assms by (metis le_trans not_less)
  then show ?thesis unfolding least_cluster_def by (simp only:)
qed

lemma least_cluster_here: "cluster v b n i \<Longrightarrow> least_cluster v b n i (int i)"
  unfolding least_cluster_def by (auto intro!: Least_equality [symmetric])

lemma first_loop_least:
  assumes "bitmap_inv b" and "0 < n"
  shows "\<exists>r. first_loop v b (bitmap_len b) i n = Some r \<and> least_cluster v b n i r"
proof (induction "bitmap_len b - i" arbitrary: i rule: less_induct)
  case less
  show ?case
  proof (cases "i + n \<le> bitmap_len b")
    case False
    then have "\<not> (\<exists>k\<ge>i. cluster v b n k)" by (auto simp: cluster_def)
    with False show ?thesis by (subst first_loop.simps) (simp add: least_cluster_def)
  next
    case True
    with assms obtain w where w: "bitmap_word b i = Some w" "(w \<noteq> 0) = bitmap_bit b i"
      using bitmap_word_bit [of b i] by auto
    obtain r where r: "bit_run v b i n = Some r" "r \<le> n"
      "\<forall>j. i \<le> j \<and> j < i + r \<longrightarrow> bitmap_bit b j = v" "r < n \<longrightarrow> bitmap_bit b (i + r) \<noteq> v"
      using bit_run_bit [OF assms(1) True, of v] by auto
    consider "bitmap_bit b i \<noteq> v" | "bitmap_bit b i = v" "r = n" | "bitmap_bit b i = v" "r < n"
      using r(2) by linarith
    then show ?thesis
    proof cases
      case 1
      have "\<not> cluster v b n k" if "i \<le> k" "k < i + 1" for k
        using cluster_notI [of k i n b v] 1 that assms(2) by simp
      with less [of "i + 1"] 1 w True assms(2) show ?thesis
        by (subst first_loop.simps) (simp add: least_cluster_skip [of i "i + 1"])
    next
      case 2
      then have "cluster v b n i" using True r(3) by (simp add: cluster_def)
      with 2 w r True show ?thesis
        by (subst first_loop.simps) (simp add: least_cluster_here)
    next
      case 3
      then have "0 < r" using r(4) by (cases r) auto
      have "\<not> cluster v b n k" if "i \<le> k" "k < i + r" for k
        using cluster_notI [of k "i + r" n b v] 3 r(4) that by simp
      with less [of "i + r"] 3 w r True \<open>0 < r\<close> assms(2) show ?thesis
        by (subst first_loop.simps) (simp add: least_cluster_skip [of i "i + r"])
    qed
  qed
qed

text \<open>The precondition of the cluster operations, and what the common prologue does under it.\<close>

definition cluster_args :: "ptr \<Rightarrow> bitmap \<Rightarrow> nat \<Rightarrow> nat \<Rightarrow> bool" where
  "cluster_args cpu b i n \<longleftrightarrow> bitmap_inv b \<and> bitmap_held cpu b \<and> 0 < n \<and> i + n \<le> bitmap_len b"

lemma bitmap_len_bound: "bitmap_inv b \<Longrightarrow> bitmap_len b < 2 ^ 31"
  by (simp add: bitmap_inv_def bitmap_valid_def bitmap_len_def MAX_INT_BITMAP_def)

lemma bitmap_try_lock_held:
  assumes "bitmap_inv b" and "bitmap_held cpu b"
  shows "bitmap_try_lock cpu b = Some (False, b)"
  using assms
  by (simp add: bitmap_try_lock_def bitmap_inv_def bitmap_held_def lk_try_held)

lemma bitmap_check1_ok:
  assumes "bitmap_inv b" and "i < bitmap_len b"
  shows "bitmap_check1 cpu b (int i) = Some ()"
proof -
  have "unat (bm_size b div 4) = length (bm_map b)"
    using assms(1) by (simp add: bitmap_inv_def unat_div)
  moreover have "int i div 32 < int (length (bm_map b))"
    using div_32_less [OF assms(2,1)] by (metis of_nat_less_iff of_nat_numeral zdiv_int)
  ultimately show ?thesis using assms by (simp add: bitmap_check1_def bitmap_inv_def)
qed

lemma bitmap_check_ok:
  assumes "cluster_args cpu b i n"
  shows "bitmap_check cpu b (int i) (int n) = Some b"
proof -
  from assms have b: "bitmap_inv b" "bitmap_held cpu b" "0 < n" "i + n \<le> bitmap_len b"
    by (auto simp: cluster_args_def)
  then have i: "i < bitmap_len b" by simp
  have "int (i + n) \<le> int (bitmap_len b)" "int (bitmap_len b) < 2 ^ 31"
    using bitmap_len_bound [OF b(1)] b(4) by (simp_all only: of_nat_le_iff) simp
  then have "int i + int n < 2 ^ 31" "int i + int n \<le> int (unat (bm_size b)) * 8"
    by (simp_all add: bitmap_len_def)
  with b show ?thesis
    by (simp add: bitmap_check_def bitmap_check1_ok [OF b(1) i] bitmap_try_lock_held)
qed

lemma bitmap_set_bits:
  assumes "cluster_args cpu b i n"
  shows "\<exists>r b'. bitmap_set cpu b (int i) (int n) = Some (r, b') \<and>
    (if cluster False b n i then r = 0 \<and> bits_to b (\<lambda>j. i \<le> j \<and> j < i + n \<or> bitmap_bit b j) b'
     else r = - EALREADY \<and> b' = b)"
proof -
  from assms have b: "bitmap_inv b" "i + n \<le> bitmap_len b" by (auto simp: cluster_args_def)
  have "cluster False b n i \<longleftrightarrow> \<not> (\<exists>j. i \<le> j \<and> j < i + n \<and> bitmap_bit b j = True)"
    using b(2) by (auto simp: cluster_def)
  with set_bits_bit [OF b] any_bit_bit [OF b, of True] bitmap_check_ok [OF assms] show ?thesis
    by (auto simp: bitmap_set_def)
qed

lemma bitmap_unset_bits:
  assumes "cluster_args cpu b i n"
  shows "\<exists>r b'. bitmap_unset cpu b (int i) (int n) = Some (r, b') \<and>
    (if cluster True b n i then r = 0 \<and> bits_to b (\<lambda>j. \<not> (i \<le> j \<and> j < i + n) \<and> bitmap_bit b j) b'
     else r = - EALREADY \<and> b' = b)"
proof -
  from assms have b: "bitmap_inv b" "i + n \<le> bitmap_len b" by (auto simp: cluster_args_def)
  have "cluster True b n i \<longleftrightarrow> \<not> (\<exists>j. i \<le> j \<and> j < i + n \<and> bitmap_bit b j = False)"
    using b(2) by (auto simp: cluster_def)
  with clr_bits_bit [OF b] any_bit_bit [OF b, of False] bitmap_check_ok [OF assms] show ?thesis
    by (auto simp: bitmap_unset_def)
qed

lemma bitmap_first_unset_least:
  assumes "cluster_args cpu b i n"
  shows "\<exists>r. bitmap_first_unset cpu b (int i) (int n) = Some (r, b) \<and> least_cluster False b n i r"
proof -
  from assms have "bitmap_inv b" "0 < n" by (auto simp: cluster_args_def)
  from first_loop_least [OF this, of False i] bitmap_check_ok [OF assms] show ?thesis
    by (auto simp: bitmap_first_unset_def simp flip: bitmap_len_def)
qed

lemma bitmap_first_set_least:
  assumes "cluster_args cpu b i n"
  shows "\<exists>r. bitmap_first_set cpu b (int i) (int n) = Some (r, b) \<and> least_cluster True b n i r"
proof -
  from assms have "bitmap_inv b" "0 < n" by (auto simp: cluster_args_def)
  from first_loop_least [OF this, of True i] bitmap_check_ok [OF assms] show ?thesis
    by (auto simp: bitmap_first_set_def simp flip: bitmap_len_def)
qed

section \<open>Properties\<close>

text \<open>A bitmap of two words, locked by the CPU at address 7, in which the bits 0 to 2 and 31 are on.\<close>

definition example_bitmap :: bitmap where
  "example_bitmap = \<lparr>bm_base = 64, bm_map = [0x80000007, 0], bm_size = 8,
     bm_lock = \<lparr>sl_lock = 1, sl_cpu = 7\<rparr>\<rparr>"

lemma example_bitmap_inv: "bitmap_inv example_bitmap" "bitmap_held 7 example_bitmap"
  by (simp_all add: example_bitmap_def bitmap_inv_def bitmap_valid_def MAX_INT_BITMAP_def lock_ok_def
      bitmap_held_def spin_holding_def)

lemma example_bitmap_args: "i + n \<le> 64 \<Longrightarrow> 0 < n \<Longrightarrow> cluster_args 7 example_bitmap i n"
  using example_bitmap_inv by (simp add: cluster_args_def bitmap_len_def) (simp add: example_bitmap_def)

text \<open>C25. The searches end, change nothing, and return the least position from the given one on
  at which a cluster of the wanted length is off (on), or \<^verbatim>\<open>-ENOENT\<close> exactly when there is none.\<close>

theorem bitmap_first_correct:
  assumes "cluster_args cpu b i n"
  shows "(\<exists>r. bitmap_first_unset cpu b (int i) (int n) = Some (r, b) \<and> least_cluster False b n i r) \<and>
    (\<exists>r. bitmap_first_set cpu b (int i) (int n) = Some (r, b) \<and> least_cluster True b n i r)"
  using bitmap_first_unset_least [OF assms] bitmap_first_set_least [OF assms] by (rule conjI)

theorem bitmap_first_correct_witness:
  "cluster_args 7 example_bitmap 0 4 \<and>
   (\<exists>r. bitmap_first_unset 7 example_bitmap 0 4 = Some (r, example_bitmap) \<and>
     least_cluster False example_bitmap 4 0 r)"
  using bitmap_first_correct [OF example_bitmap_args [of 0 4]] example_bitmap_args [of 0 4] by simp

text \<open>Setting a free cluster turns on exactly its bits, and unsetting it again restores the
  bitmap; both refuse a cluster with a bit already in the target state and then change nothing.\<close>

theorem bitmap_set_unset:
  assumes "cluster_args cpu b i n"
  shows "if cluster False b n i
    then \<exists>b1 b2. bitmap_set cpu b (int i) (int n) = Some (0, b1) \<and>
      bitmap_bit b1 = (\<lambda>j. i \<le> j \<and> j < i + n \<or> bitmap_bit b j) \<and>
      bitmap_set cpu b1 (int i) (int n) = Some (- EALREADY, b1) \<and>
      bitmap_unset cpu b1 (int i) (int n) = Some (0, b2) \<and> bitmap_bit b2 = bitmap_bit b \<and>
      bitmap_inv b2
    else bitmap_set cpu b (int i) (int n) = Some (- EALREADY, b)"
proof (cases "cluster False b n i")
  case False
  with bitmap_set_bits [OF assms] show ?thesis by auto
next
  case True
  with bitmap_set_bits [OF assms] obtain b1 where
    b1: "bitmap_set cpu b (int i) (int n) = Some (0, b1)"
      "bits_to b (\<lambda>j. i \<le> j \<and> j < i + n \<or> bitmap_bit b j) b1" by auto
  note s = bits_to_simps [OF b1(2)]
  from assms have args: "cluster_args cpu b1 i n" by (simp add: cluster_args_def s)
  from assms have "cluster True b1 n i" "\<not> cluster False b1 n i"
    by (auto simp: cluster_def cluster_args_def s)
  with bitmap_unset_bits [OF args] bitmap_set_bits [OF args] obtain b2 where
    b2: "bitmap_unset cpu b1 (int i) (int n) = Some (0, b2)"
      "bits_to b1 (\<lambda>j. \<not> (i \<le> j \<and> j < i + n) \<and> bitmap_bit b1 j) b2"
      "bitmap_set cpu b1 (int i) (int n) = Some (- EALREADY, b1)" by auto
  have "bitmap_bit b2 = bitmap_bit b"
    using True by (auto simp: bits_to_simps(1) [OF b2(2)] s cluster_def fun_eq_iff)
  moreover have "bitmap_inv b2" using assms by (simp add: bits_to_simps(3) [OF b2(2)] s cluster_args_def)
  ultimately show ?thesis using True b1(1) b2(1,3) s(1) by simp
qed

theorem bitmap_set_unset_witness:
  "cluster False example_bitmap 4 3 \<and>
   (\<exists>b1 b2. bitmap_set 7 example_bitmap 3 4 = Some (0, b1) \<and>
      bitmap_unset 7 b1 3 4 = Some (0, b2) \<and> bitmap_bit b2 = bitmap_bit example_bitmap)"
proof -
  have "\<not> bitmap_bit example_bitmap j" if "3 \<le> j" "j < 7" for j :: nat
  proof -
    from that have "j = 3 \<or> j = 4 \<or> j = 5 \<or> j = 6" by auto
    then show ?thesis by (auto simp: bitmap_bit_def example_bitmap_def bit_simps)
  qed
  then have "cluster False example_bitmap 4 3"
    by (simp add: cluster_def bitmap_len_def) (simp add: example_bitmap_def)
  with bitmap_set_unset [OF example_bitmap_args [of 3 4]] show ?thesis by auto
qed

text \<open>\<^verbatim>\<open>bitmap_test\<close> returns a non-zero number exactly for a bit that is on; for the highest
  bit of a word that number is negative, not positive.\<close>

theorem bitmap_test_sign:
  assumes "bitmap_inv b" and "bitmap_held cpu b" and "i < bitmap_len b"
  shows "\<exists>r. bitmap_test cpu b (int i) = Some (r, b) \<and> (r \<noteq> 0 \<longleftrightarrow> bitmap_bit b i) \<and>
    (r < 0 \<longleftrightarrow> bitmap_bit b i \<and> i mod 32 = 31)"
proof -
  let ?w = "(bm_map b ! (i div 32)) AND bit_mask i"
  have "bitmap_word b i = Some ?w" using div_32_less [OF assms(3,1)] by (simp add: bitmap_word_def)
  moreover have "?w = 0 \<longleftrightarrow> sint ?w = sint (0 :: u32)" by (rule word_eq_iff_signed)
  then have "sint ?w \<noteq> 0 \<longleftrightarrow> bitmap_bit b i"
    using and_bit_mask [of "bm_map b ! (i div 32)" i] by (simp only: bitmap_bit_def signed_0)
  moreover have "sint ?w < 0 \<longleftrightarrow> bit ?w 31" using bit_last_iff [of ?w] by simp
  then have "sint ?w < 0 \<longleftrightarrow> bitmap_bit b i \<and> i mod 32 = 31"
    by (auto simp: bit_and_iff bit_mask_bit bitmap_bit_def)
  ultimately show ?thesis
    using assms by (simp add: bitmap_test_def bitmap_check1_ok bitmap_try_lock_held)
qed

theorem bitmap_test_sign_witness:
  "bitmap_bit example_bitmap 31 \<and> (\<exists>r. bitmap_test 7 example_bitmap 31 = Some (r, example_bitmap) \<and> r < 0)"
  using bitmap_test_sign [OF example_bitmap_inv, of 31]
  by (auto simp: bitmap_len_def bitmap_bit_def example_bitmap_def bit_simps)

end
