(* ===== verification/Allocator.thy ===== *)
theory Allocator
  imports Fifo
begin

text \<open>
  The contract of an allocator of single objects (page frames, address ranges), as its callers
  rely on it: \<open>avail\<close> is the set of objects that can be handed out, \<open>owned\<close> the set of objects that
  a single \<open>release\<close> makes available again, and \<open>none\<close> the value returned when nothing is left.
  The consequences below are proved from the contract and used through its interpretations.
\<close>

locale allocator =
  fixes inv :: "'s \<Rightarrow> bool"
    and avail :: "'s \<Rightarrow> 'a set"
    and owned :: "'s \<Rightarrow> 'a set"
    and none :: 'a
    and alloc :: "'s \<Rightarrow> ('a \<times> 's) option"
    and release :: "'a \<Rightarrow> 's \<Rightarrow> 's option"
  assumes alloc_some: "inv s \<Longrightarrow> avail s \<noteq> {} \<Longrightarrow>
      \<exists>a s'. alloc s = Some (a, s') \<and> inv s' \<and> a \<in> avail s \<and> avail s' = avail s - {a} \<and>
        a \<in> owned s' \<and> owned s \<subseteq> owned s'"
    and alloc_none: "inv s \<Longrightarrow> avail s = {} \<Longrightarrow>
      \<exists>s'. alloc s = Some (none, s') \<and> inv s' \<and> avail s' = {}"
    and release_owned: "inv s \<Longrightarrow> a \<in> owned s \<Longrightarrow>
      \<exists>s'. release a s = Some s' \<and> inv s' \<and> avail s' = insert a (avail s) \<and> owned s - {a} \<subseteq> owned s'"
    and none_avail: "inv s \<Longrightarrow> none \<notin> avail s"
begin

text \<open>Consecutive allocations never hand out an object twice.\<close>

lemma allocs_distinct:
  "inv s \<Longrightarrow> finite (avail s) \<Longrightarrow> n \<le> card (avail s) \<Longrightarrow>
    \<exists>as s'. iterate_get alloc n s = Some (as, s') \<and> inv s' \<and> length as = n \<and> distinct as \<and>
      set as \<subseteq> avail s \<and> avail s' = avail s - set as"
proof (induction n arbitrary: s)
  case 0
  then show ?case by simp
next
  case (Suc n)
  then have "avail s \<noteq> {}" by auto
  with Suc.prems alloc_some obtain a s1 where a: "alloc s = Some (a, s1)" "inv s1" "a \<in> avail s"
    "avail s1 = avail s - {a}" by meson
  with Suc.prems have "n \<le> card (avail s1)" "finite (avail s1)" by simp_all
  with Suc.IH [OF a(2)] obtain as s2 where as: "iterate_get alloc n s1 = Some (as, s2)" "inv s2"
    "length as = n" "distinct as" "set as \<subseteq> avail s1" "avail s2 = avail s1 - set as" by blast
  have "iterate_get alloc (Suc n) s = Some (a # as, s2)" using a as by simp
  moreover have "distinct (a # as)" "set (a # as) \<subseteq> avail s" "avail s2 = avail s - set (a # as)"
    using a as by auto
  ultimately show ?case using as(2,3) by fastforce
qed

text \<open>An object that was allocated and released is available again and nothing else changed.\<close>

lemma alloc_release:
  assumes "inv s" and "avail s \<noteq> {}"
  shows "\<exists>a s1 s2. alloc s = Some (a, s1) \<and> a \<in> avail s \<and> a \<notin> avail s1 \<and> a \<noteq> none \<and>
    release a s1 = Some s2 \<and> inv s2 \<and> avail s2 = avail s"
proof -
  from alloc_some [OF assms] obtain a s1 where a: "alloc s = Some (a, s1)" "inv s1" "a \<in> avail s"
    "avail s1 = avail s - {a}" "a \<in> owned s1" by blast
  from release_owned [OF a(2,5)] obtain s2 where s2: "release a s1 = Some s2" "inv s2"
    "avail s2 = insert a (avail s1)" by blast
  have "a \<noteq> none" using a(3) none_avail [OF assms(1)] by blast
  moreover have "avail s2 = avail s" "a \<notin> avail s1" using a s2 by auto
  ultimately show ?thesis using a s2 by blast
qed

end

end
