(* ===== verification/Pmm.thy ===== *)
theory Pmm
  imports Bitmap Allocator
begin

text \<open>
  The physical frame allocator over a bitmap (\<^verbatim>\<open>kernel/mm/pmm/pmm.c\<close>): one bit and one reference
  count per frame of the 4 GiB address space. It is shown to satisfy the contract of
  \<open>Allocator\<close> on every state in which the bit of a frame agrees with its reference count; the
  last section shows what \<^verbatim>\<open>pmm_init\<close> establishes of that.
\<close>

section \<open>Operations\<close>

abbreviation PAGESZ :: nat where "PAGESZ \<equiv> 0x1000"
abbreviation MAXFRAMES :: nat where "MAXFRAMES \<equiv> 0x100000"

record pmm =
  pm_bitmap :: bitmap
  pm_frames :: "nat \<Rightarrow> int"
  pm_frameslk :: spinlock
  pm_maxblocks :: u32
  pm_usedblocks :: u32

definition frames_lock :: "ptr \<Rightarrow> pmm \<Rightarrow> pmm option" where
  "frames_lock cpu p = do { lk \<leftarrow> lk_acquire cpu (pm_frameslk p); Some (p\<lparr>pm_frameslk := lk\<rparr>) }"

definition frames_unlock :: "ptr \<Rightarrow> pmm \<Rightarrow> pmm option" where
  "frames_unlock cpu p = do { lk \<leftarrow> lk_release cpu (pm_frameslk p); Some (p\<lparr>pm_frameslk := lk\<rparr>) }"

text \<open>The two asserts of the counter operations, which return the old count.\<close>

definition frames_check :: "ptr \<Rightarrow> int \<Rightarrow> pmm \<Rightarrow> pmm option" where
  "frames_check cpu frame p = do {
     kassert (frame < int MAXFRAMES \<and> frame \<ge> 0);
     let (held, lk) = lk_try cpu (pm_frameslk p);
     kassert (\<not> held);
     Some (p\<lparr>pm_frameslk := lk\<rparr>)
   }"

definition frames_incr :: "ptr \<Rightarrow> int \<Rightarrow> pmm \<Rightarrow> (int \<times> pmm) option" where
  "frames_incr cpu frame p = do {
     p \<leftarrow> frames_check cpu frame p;
     let old = pm_frames p (nat frame);
     Some (old, p\<lparr>pm_frames := (pm_frames p)(nat frame := old + 1)\<rparr>)
   }"

definition frames_decr :: "ptr \<Rightarrow> int \<Rightarrow> pmm \<Rightarrow> (int \<times> pmm) option" where
  "frames_decr cpu frame p = do {
     p \<leftarrow> frames_check cpu frame p;
     let old = pm_frames p (nat frame);
     Some (old, p\<lparr>pm_frames := (pm_frames p)(nat frame := old - 1)\<rparr>)
   }"

definition frames_get_refs :: "ptr \<Rightarrow> int \<Rightarrow> pmm \<Rightarrow> (int \<times> pmm) option" where
  "frames_get_refs cpu frame p = do {
     p \<leftarrow> frames_check cpu frame p;
     Some (pm_frames p (nat frame), p)
   }"

text \<open>Entering and leaving with both locks, as \<^verbatim>\<open>pmm_alloc\<close> and \<^verbatim>\<open>pmm_free\<close> do.\<close>

definition pmm_enter :: "ptr \<Rightarrow> pmm \<Rightarrow> pmm option" where
  "pmm_enter cpu p = do {
     b \<leftarrow> bitmap_lock cpu (pm_bitmap p);
     frames_lock cpu (p\<lparr>pm_bitmap := b\<rparr>)
   }"

definition pmm_leave :: "ptr \<Rightarrow> pmm \<Rightarrow> pmm option" where
  "pmm_leave cpu p = do {
     p \<leftarrow> frames_unlock cpu p;
     b \<leftarrow> bitmap_unlock cpu (pm_bitmap p);
     Some (p\<lparr>pm_bitmap := b\<rparr>)
   }"

definition pmm_alloc :: "ptr \<Rightarrow> pmm \<Rightarrow> (u32 \<times> pmm) option" where
  "pmm_alloc cpu p = do {
     p \<leftarrow> pmm_enter cpu p;
     (bit, b) \<leftarrow> bitmap_first_unset cpu (pm_bitmap p) 0 1;
     let p = p\<lparr>pm_bitmap := b\<rparr>;
     if bit < 0 then do { p \<leftarrow> pmm_leave cpu p; Some (0, p) }
     else do {
       (_, b) \<leftarrow> bitmap_set cpu (pm_bitmap p) bit 1;
       let p = p\<lparr>pm_bitmap := b\<rparr>;
       (_, p) \<leftarrow> frames_incr cpu bit p;
       let p = p\<lparr>pm_usedblocks := pm_usedblocks p + 1\<rparr>;
       p \<leftarrow> pmm_leave cpu p;
       Some (of_int bit * of_nat PAGESZ, p)
     }
   }"

definition pmm_free :: "ptr \<Rightarrow> u32 \<Rightarrow> pmm \<Rightarrow> pmm option" where
  "pmm_free cpu addr p =
    (let bit = int (unat addr div PAGESZ) in
     if addr < 0x100000 then Some p
     else do {
       p \<leftarrow> pmm_enter cpu p;
       (ret, p) \<leftarrow> frames_decr cpu bit p;
       if ret \<le> 0 then None
       else if ret > 1 then pmm_leave cpu p
       else do {
         let p = p\<lparr>pm_usedblocks := pm_usedblocks p - 1\<rparr>;
         (_, b) \<leftarrow> bitmap_unset cpu (pm_bitmap p) bit 1;
         pmm_leave cpu (p\<lparr>pm_bitmap := b\<rparr>)
       }
     })"

definition pmm_mem_used :: "ptr \<Rightarrow> pmm \<Rightarrow> (u32 \<times> pmm) option" where
  "pmm_mem_used cpu p = do {
     b \<leftarrow> bitmap_lock cpu (pm_bitmap p);
     let sz = pm_usedblocks p * of_nat PAGESZ div 1024;
     b \<leftarrow> bitmap_unlock cpu b;
     Some (sz, p\<lparr>pm_bitmap := b\<rparr>)
   }"

definition pmm_mem_free :: "ptr \<Rightarrow> pmm \<Rightarrow> (u32 \<times> pmm) option" where
  "pmm_mem_free cpu p = do {
     b \<leftarrow> bitmap_lock cpu (pm_bitmap p);
     let sz = (pm_maxblocks p - pm_usedblocks p) * of_nat PAGESZ div 1024;
     b \<leftarrow> bitmap_unlock cpu b;
     Some (sz, p\<lparr>pm_bitmap := b\<rparr>)
   }"

text \<open>
  Initialisation. A boot memory map entry has its address, size and type; \<open>pmemsize\<close> is
  \<^verbatim>\<open>bootinfo.pmemsize\<close>, \<open>ident\<close> gives the results of the calls of \<^verbatim>\<open>paging_identity_map\<close>, which acts
  on the page tables only, and \<open>pinit\<close> the result of \<^verbatim>\<open>paging_init\<close>.
\<close>

record mmap_entry =
  e_addr :: u32
  e_size :: u32
  e_type :: u32

fun decr_range :: "ptr \<Rightarrow> int \<Rightarrow> nat \<Rightarrow> pmm \<Rightarrow> pmm option" where
  "decr_range cpu frame 0 p = Some p"
| "decr_range cpu frame (Suc n) p = do {
     (_, p) \<leftarrow> frames_decr cpu frame p;
     decr_range cpu (frame + 1) n p
   }"

definition pmm_add_region :: "ptr \<Rightarrow> u64 \<Rightarrow> u32 \<Rightarrow> pmm \<Rightarrow> pmm option" where
  "pmm_add_region cpu pmemsize msize p = do {
     let addr = (0x1000000 :: u32);
     let sz = msize - addr;
     let first = int (unat addr div PAGESZ);
     let cnt = int (unat sz div PAGESZ);
     p \<leftarrow> pmm_enter cpu p;
     (_, b) \<leftarrow> bitmap_unset cpu (pm_bitmap p) first cnt;
     p \<leftarrow> decr_range cpu first (nat (cnt - first)) (p\<lparr>pm_bitmap := b\<rparr>);
     let p = p\<lparr>pm_maxblocks := ucast (pmemsize div 4), pm_usedblocks := addr div of_nat PAGESZ\<rparr>;
     pmm_leave cpu p
   }"

fun pmm_init_loop :: "ptr \<Rightarrow> u64 \<Rightarrow> (u32 \<Rightarrow> u32 \<Rightarrow> int) \<Rightarrow> mmap_entry list \<Rightarrow> pmm \<Rightarrow> (int \<times> pmm) option" where
  "pmm_init_loop cpu pmemsize ident [] p = Some (0, p)"
| "pmm_init_loop cpu pmemsize ident (e # es) p = do {
     p \<leftarrow> (if e_addr e = 0x100000 \<and> e_type e = 1 then pmm_add_region cpu pmemsize (e_size e) p
           else Some p);
     let ret = (if e_type e = 3 \<or> e_addr e > 0x100000 \<and> e_addr e < 0xFE000000
                then ident (e_addr e) (e_size e) else 0);
     if ret \<noteq> 0 then Some (ret, p) else pmm_init_loop cpu pmemsize ident es p
   }"

definition pmm_init :: "ptr \<Rightarrow> u64 \<Rightarrow> (u32 \<Rightarrow> u32 \<Rightarrow> int) \<Rightarrow> int \<Rightarrow> mmap_entry list \<Rightarrow> pmm \<Rightarrow> (int \<times> pmm) option" where
  "pmm_init cpu pmemsize ident pinit es p = do {
     (_, b) \<leftarrow> bitmap_init cpu (pm_bitmap p) (- 1);
     let p = p\<lparr>pm_bitmap := b, pm_frames := (\<lambda>_. 1)\<rparr>;
     (ret, p) \<leftarrow> pmm_init_loop cpu pmemsize ident es p;
     if ret \<noteq> 0 then Some (ret, p) else Some (pinit, p)
   }"


section \<open>Invariant\<close>

abbreviation pm_bit :: "pmm \<Rightarrow> nat \<Rightarrow> bool" where
  "pm_bit p \<equiv> bitmap_bit (pm_bitmap p)"

text \<open>The structural part, for a given state of the two locks.\<close>

definition pmm_shape :: "spinlock \<Rightarrow> pmm \<Rightarrow> bool" where
  "pmm_shape lk p \<longleftrightarrow> bitmap_inv (pm_bitmap p) \<and> bitmap_len (pm_bitmap p) = MAXFRAMES \<and>
    bm_lock (pm_bitmap p) = lk \<and> pm_frameslk p = lk"

text \<open>A frame is in use when its bit is on, and then it has references; the first MiB stays in use.\<close>

definition pmm_inv :: "pmm \<Rightarrow> bool" where
  "pmm_inv p \<longleftrightarrow> pmm_shape spin_unlocked p \<and>
    (\<forall>f < MAXFRAMES. 0 \<le> pm_frames p f \<and> (pm_bit p f \<longleftrightarrow> 0 < pm_frames p f)) \<and>
    (\<forall>f < 0x100. pm_bit p f)"

definition frame_addr :: "nat \<Rightarrow> u32" where
  "frame_addr f = of_nat f * of_nat PAGESZ"

definition pmm_avail :: "pmm \<Rightarrow> u32 set" where
  "pmm_avail p = frame_addr ` {f. f < MAXFRAMES \<and> \<not> pm_bit p f}"

definition pmm_owned :: "pmm \<Rightarrow> u32 set" where
  "pmm_owned p = frame_addr ` {f. 0x100 \<le> f \<and> f < MAXFRAMES \<and> pm_frames p f = 1}"

lemma unat_frame_addr: "f < MAXFRAMES \<Longrightarrow> unat (frame_addr f) = f * PAGESZ"
  by (simp add: frame_addr_def unat_word_ariths(2) unat_of_nat)

lemma frame_addr_eq: "f < MAXFRAMES \<Longrightarrow> g < MAXFRAMES \<Longrightarrow> frame_addr f = frame_addr g \<longleftrightarrow> f = g"
  by (metis mult_cancel2 unat_frame_addr zero_neq_numeral)

lemma frame_addr_low: "f < MAXFRAMES \<Longrightarrow> frame_addr f < 0x100000 \<longleftrightarrow> f < 0x100"
  by (simp add: word_less_nat_alt unat_frame_addr)

section \<open>Allocation and release\<close>

text \<open>The two locks are taken on entry and dropped on exit, and nothing else changes.\<close>

abbreviation locked_by :: "ptr \<Rightarrow> spinlock" where
  "locked_by cpu \<equiv> \<lparr>sl_lock = 1, sl_cpu = cpu\<rparr>"

definition with_locks :: "spinlock \<Rightarrow> pmm \<Rightarrow> pmm" where
  "with_locks lk p = p\<lparr>pm_bitmap := (pm_bitmap p)\<lparr>bm_lock := lk\<rparr>, pm_frameslk := lk\<rparr>"

lemma with_locks_simps [simp]:
  "pm_bit (with_locks lk p) = pm_bit p" "pm_frames (with_locks lk p) = pm_frames p"
  "lock_ok lk \<Longrightarrow> pmm_shape lk' p \<Longrightarrow> pmm_shape lk (with_locks lk p)"
  by (auto simp: with_locks_def bitmap_bit_def pmm_shape_def bitmap_inv_def bitmap_valid_def
      bitmap_len_def)

lemma with_locks_twice [simp]: "with_locks lk (with_locks lk' p) = with_locks lk p"
  by (simp add: with_locks_def)

lemma pm_bitmap_same [simp]: "p\<lparr>pm_bitmap := pm_bitmap p\<rparr> = p"
  by simp

lemma lock_ok_locked_by [simp]: "lock_ok (locked_by cpu)"
  by (simp add: lock_ok_def)

lemma pmm_enter_ok:
  assumes "pmm_shape spin_unlocked p"
  shows "pmm_enter cpu p = Some (with_locks (locked_by cpu) p)"
  using assms
  by (simp add: pmm_enter_def pmm_shape_def bitmap_inv_def bitmap_lock_def frames_lock_def with_locks_def)

lemma pmm_leave_ok:
  assumes "pmm_shape (locked_by cpu) p"
  shows "pmm_leave cpu p = Some (with_locks spin_unlocked p)"
  using assms
  by (simp add: pmm_leave_def pmm_shape_def bitmap_inv_def bitmap_unlock_def frames_unlock_def with_locks_def)

lemma frames_check_ok:
  assumes "pmm_shape (locked_by cpu) p" and "f < MAXFRAMES"
  shows "frames_check cpu (int f) p = Some p"
  using assms by (simp add: frames_check_def pmm_shape_def lk_try_held)

lemma pmm_cluster_args:
  assumes "pmm_shape (locked_by cpu) p" and "f < MAXFRAMES"
  shows "cluster_args cpu (pm_bitmap p) f 1"
  using assms by (simp add: cluster_args_def pmm_shape_def bitmap_held_def)

lemma cluster_1: "cluster v b (Suc 0) f \<longleftrightarrow> f < bitmap_len b \<and> bitmap_bit b f = v"
  by (auto simp: cluster_def less_Suc_eq)

lemma pmm_first_unset:
  assumes "pmm_shape (locked_by cpu) p"
  shows "if \<exists>f < MAXFRAMES. \<not> pm_bit p f
    then \<exists>f < MAXFRAMES. \<not> pm_bit p f \<and> bitmap_first_unset cpu (pm_bitmap p) 0 1 = Some (int f, pm_bitmap p)
    else bitmap_first_unset cpu (pm_bitmap p) 0 1 = Some (- ENOENT, pm_bitmap p)"
proof -
  let ?P = "cluster False (pm_bitmap p) (Suc 0)"
  have P: "?P f \<longleftrightarrow> f < MAXFRAMES \<and> \<not> pm_bit p f" for f
    using assms by (auto simp: cluster_1 pmm_shape_def)
  from bitmap_first_unset_least [OF pmm_cluster_args [OF assms, of 0]]
  obtain r where r: "bitmap_first_unset cpu (pm_bitmap p) 0 1 = Some (r, pm_bitmap p)"
    "least_cluster False (pm_bitmap p) 1 0 r" by auto
  show ?thesis
  proof (cases "\<exists>f. ?P f")
    case True
    then have "?P (LEAST f. ?P f)" by (rule LeastI_ex)
    moreover have "r = int (LEAST f. ?P f)" using r(2) True by (simp add: least_cluster_def)
    ultimately obtain f where "?P f" "r = int f" by blast
    with r(1) show ?thesis by (auto simp: P)
  next
    case False
    then have "r = - ENOENT" using r(2) by (auto simp: least_cluster_def)
    with False r(1) show ?thesis by (auto simp: P)
  qed
qed

text \<open>The state after a successful allocation or a final release of frame \<open>f\<close>.\<close>

definition frame_to :: "nat \<Rightarrow> bool \<Rightarrow> int \<Rightarrow> pmm \<Rightarrow> pmm \<Rightarrow> bool" where
  "frame_to f v n p p' \<longleftrightarrow> pmm_shape spin_unlocked p' \<and> pm_bit p' = (pm_bit p)(f := v) \<and>
    pm_frames p' = (pm_frames p)(f := n)"

lemma bits_to_shape:
  "pmm_shape lk p \<Longrightarrow> bits_to (pm_bitmap p) g b \<Longrightarrow> pmm_shape lk (p\<lparr>pm_bitmap := b\<rparr>)"
  by (simp add: pmm_shape_def bits_to_simps)

lemma pmm_shape_cong [simp]:
  "pmm_shape lk (p\<lparr>pm_frames := fs\<rparr>) = pmm_shape lk p"
  "pmm_shape lk (p\<lparr>pm_usedblocks := u\<rparr>) = pmm_shape lk p"
  "pmm_shape lk (p\<lparr>pm_maxblocks := u\<rparr>) = pmm_shape lk p"
  by (simp_all add: pmm_shape_def)

lemma pmm_alloc_frame:
  assumes "pmm_shape spin_unlocked p" and "\<exists>f < MAXFRAMES. \<not> pm_bit p f"
  shows "\<exists>f p'. f < MAXFRAMES \<and> \<not> pm_bit p f \<and> pmm_alloc cpu p = Some (frame_addr f, p') \<and>
    frame_to f True (pm_frames p f + 1) p p'"
proof -
  let ?p = "with_locks (locked_by cpu) p"
  have sh: "pmm_shape (locked_by cpu) ?p" using assms(1) by simp
  from pmm_first_unset [OF sh] assms(2) obtain f where f: "f < MAXFRAMES" "\<not> pm_bit p f"
    "bitmap_first_unset cpu (pm_bitmap ?p) 0 1 = Some (int f, pm_bitmap ?p)" by auto
  from f sh have "cluster False (pm_bitmap ?p) 1 f" by (simp add: cluster_1 pmm_shape_def)
  with bitmap_set_bits [OF pmm_cluster_args [OF sh f(1)]] obtain b where
    b: "bitmap_set cpu (pm_bitmap ?p) (int f) 1 = Some (0, b)"
      "bits_to (pm_bitmap ?p) (\<lambda>j. f \<le> j \<and> j < f + 1 \<or> pm_bit ?p j) b" by auto
  have bit: "bitmap_bit b = (pm_bit p)(f := True)"
    by (auto simp: bits_to_simps(1) [OF b(2)] fun_eq_iff)
  note sh' = bits_to_shape [OF sh b(2)]
  let ?q = "?p\<lparr>pm_bitmap := b, pm_frames := (pm_frames p)(f := pm_frames p f + 1),
    pm_usedblocks := pm_usedblocks p + 1\<rparr>"
  have q: "pmm_shape (locked_by cpu) ?q" using sh' by simp
  have "frames_incr cpu (int f) (?p\<lparr>pm_bitmap := b\<rparr>) =
      Some (pm_frames p f, ?p\<lparr>pm_bitmap := b, pm_frames := (pm_frames p)(f := pm_frames p f + 1)\<rparr>)"
    by (simp add: frames_incr_def frames_check_ok [OF sh' f(1)] Let_def)
  with f(3) b(1) pmm_leave_ok [OF q] have "pmm_alloc cpu p = Some (frame_addr f, with_locks spin_unlocked ?q)"
    by (simp add: pmm_alloc_def pmm_enter_ok [OF assms(1)] frame_addr_def with_locks_def)
  moreover have "frame_to f True (pm_frames p f + 1) p (with_locks spin_unlocked ?q)"
    using q bit by (simp add: frame_to_def)
  ultimately show ?thesis using f by blast
qed

lemma pmm_alloc_empty:
  assumes "pmm_shape spin_unlocked p" and "\<forall>f < MAXFRAMES. pm_bit p f"
  shows "pmm_alloc cpu p = Some (0, with_locks spin_unlocked p)"
proof -
  let ?p = "with_locks (locked_by cpu) p"
  have sh: "pmm_shape (locked_by cpu) ?p" using assms(1) by simp
  from pmm_first_unset [OF sh] assms(2)
  have "bitmap_first_unset cpu (pm_bitmap ?p) 0 1 = Some (- ENOENT, pm_bitmap ?p)" by auto
  then show ?thesis
    using pmm_leave_ok [OF sh]
    by (simp add: pmm_alloc_def pmm_enter_ok [OF assms(1)])
qed

lemma pmm_free_last:
  assumes "pmm_shape spin_unlocked p" and "0x100 \<le> f" and "f < MAXFRAMES" and "pm_bit p f"
    and "pm_frames p f = 1"
  shows "\<exists>p'. pmm_free cpu (frame_addr f) p = Some p' \<and> frame_to f False 0 p p'"
proof -
  let ?p = "with_locks (locked_by cpu) p"
  have sh: "pmm_shape (locked_by cpu) ?p" using assms(1) by simp
  let ?p1 = "?p\<lparr>pm_frames := (pm_frames p)(f := 0), pm_usedblocks := pm_usedblocks p - 1\<rparr>"
  have sh1: "pmm_shape (locked_by cpu) ?p1" using sh by simp
  from assms sh1 have "cluster True (pm_bitmap ?p1) 1 f" by (simp add: cluster_1 pmm_shape_def)
  with bitmap_unset_bits [OF pmm_cluster_args [OF sh1 assms(3)]] obtain b where
    b: "bitmap_unset cpu (pm_bitmap ?p) (int f) 1 = Some (0, b)"
      "bits_to (pm_bitmap ?p1) (\<lambda>j. \<not> (f \<le> j \<and> j < f + 1) \<and> pm_bit ?p1 j) b" by auto
  have bit: "bitmap_bit b = (pm_bit p)(f := False)"
    by (auto simp: bits_to_simps(1) [OF b(2)] fun_eq_iff)
  note q = bits_to_shape [OF sh1 b(2)]
  have "frames_decr cpu (int f) ?p = Some (1, ?p\<lparr>pm_frames := (pm_frames p)(f := 0)\<rparr>)"
    by (simp add: frames_decr_def frames_check_ok [OF sh assms(3)] Let_def assms(5))
  moreover have "int (unat (frame_addr f) div PAGESZ) = int f" "\<not> frame_addr f < 0x100000"
    using assms(2,3) by (simp_all add: unat_frame_addr frame_addr_low)
  ultimately have "pmm_free cpu (frame_addr f) p = Some (with_locks spin_unlocked (?p1\<lparr>pm_bitmap := b\<rparr>))"
    using b(1) pmm_leave_ok [OF q]
    by (simp add: pmm_free_def pmm_enter_ok [OF assms(1)]) (simp add: with_locks_def)
  moreover have "frame_to f False 0 p (with_locks spin_unlocked (?p1\<lparr>pm_bitmap := b\<rparr>))"
    using q bit by (simp add: frame_to_def)
  ultimately show ?thesis by blast
qed

lemma pmm_free_shared:
  assumes "pmm_shape spin_unlocked p" and "0x100 \<le> f" and "f < MAXFRAMES" and "1 < pm_frames p f"
  shows "\<exists>p'. pmm_free cpu (frame_addr f) p = Some p' \<and> frame_to f (pm_bit p f) (pm_frames p f - 1) p p'"
proof -
  let ?p = "with_locks (locked_by cpu) p"
  let ?p1 = "?p\<lparr>pm_frames := (pm_frames p)(f := pm_frames p f - 1)\<rparr>"
  have sh: "pmm_shape (locked_by cpu) ?p" using assms(1) by simp
  then have sh1: "pmm_shape (locked_by cpu) ?p1" by simp
  have "frames_decr cpu (int f) ?p = Some (pm_frames p f, ?p1)"
    by (simp add: frames_decr_def frames_check_ok [OF sh assms(3)] Let_def)
  moreover have "int (unat (frame_addr f) div PAGESZ) = int f" "\<not> frame_addr f < 0x100000"
    using assms(2,3) by (simp_all add: unat_frame_addr frame_addr_low)
  ultimately have "pmm_free cpu (frame_addr f) p = Some (with_locks spin_unlocked ?p1)"
    using assms(4) pmm_leave_ok [OF sh1] by (simp add: pmm_free_def pmm_enter_ok [OF assms(1)])
  moreover have "frame_to f (pm_bit p f) (pm_frames p f - 1) p (with_locks spin_unlocked ?p1)"
    using sh1 by (simp add: frame_to_def)
  ultimately show ?thesis by blast
qed

text \<open>From frames to the sets of addresses of the contract.\<close>

lemma frame_to_avail:
  assumes "frame_to f v n p p'" and "f < MAXFRAMES"
  shows "pmm_avail p' = (if v then pmm_avail p - {frame_addr f} else insert (frame_addr f) (pmm_avail p))"
  using assms frame_addr_eq [OF _ assms(2)]
  by (auto simp: pmm_avail_def frame_to_def image_iff)

lemma pmm_inv_alloc_frame:
  "pmm_inv p \<Longrightarrow> f < MAXFRAMES \<Longrightarrow> \<not> pm_bit p f \<Longrightarrow> pm_frames p f = 0 \<and> 0x100 \<le> f"
  by (metis le_neq_trans linorder_not_less pmm_inv_def)

lemma frame_to_inv:
  assumes "pmm_inv p" and "frame_to f v n p p'" and "0x100 \<le> f" and "0 \<le> n" and "v \<longleftrightarrow> 0 < n"
  shows "pmm_inv p'"
  using assms by (auto simp: pmm_inv_def frame_to_def)

interpretation pmm_allocator: allocator pmm_inv pmm_avail pmm_owned 0 "pmm_alloc cpu" "pmm_free cpu" for cpu
proof
  fix p assume inv: "pmm_inv p" and "pmm_avail p \<noteq> {}"
  then have "\<exists>f < MAXFRAMES. \<not> pm_bit p f" by (auto simp: pmm_avail_def)
  with inv pmm_alloc_frame [of p cpu] obtain f p' where f: "f < MAXFRAMES" "\<not> pm_bit p f"
    "pmm_alloc cpu p = Some (frame_addr f, p')" "frame_to f True (pm_frames p f + 1) p p'"
    by (auto simp: pmm_inv_def)
  with inv have 1: "pm_frames p f = 0" "0x100 \<le> f" using pmm_inv_alloc_frame by blast+
  have "pmm_owned p \<subseteq> pmm_owned p'" "frame_addr f \<in> pmm_owned p'" "frame_addr f \<in> pmm_avail p"
    using f 1 by (auto simp: pmm_owned_def frame_to_def pmm_avail_def)
  moreover have "pmm_inv p'" using frame_to_inv [OF inv f(4)] 1 by simp
  ultimately show "\<exists>a p'. pmm_alloc cpu p = Some (a, p') \<and> pmm_inv p' \<and> a \<in> pmm_avail p \<and>
      pmm_avail p' = pmm_avail p - {a} \<and> a \<in> pmm_owned p' \<and> pmm_owned p \<subseteq> pmm_owned p'"
    using f frame_to_avail [OF f(4,1)] by auto
next
  fix p assume inv: "pmm_inv p" and "pmm_avail p = {}"
  then have "\<forall>f < MAXFRAMES. pm_bit p f" by (auto simp: pmm_avail_def)
  moreover from inv have "pmm_shape spin_unlocked p" by (simp add: pmm_inv_def)
  ultimately show "\<exists>p'. pmm_alloc cpu p = Some (0, p') \<and> pmm_inv p' \<and> pmm_avail p' = {}"
    using inv by (simp add: pmm_alloc_empty pmm_avail_def) (simp add: pmm_inv_def)
next
  fix a p assume inv: "pmm_inv p" and "a \<in> pmm_owned p"
  then obtain f where f: "a = frame_addr f" "0x100 \<le> f" "f < MAXFRAMES" "pm_frames p f = 1" "pm_bit p f"
    by (auto simp: pmm_owned_def pmm_inv_def)
  with inv pmm_free_last [of p f cpu] obtain p' where p': "pmm_free cpu (frame_addr f) p = Some p'"
    "frame_to f False 0 p p'" by (auto simp: pmm_inv_def)
  have "pmm_inv p'" using frame_to_inv [OF inv p'(2)] f by simp
  moreover have "pmm_owned p - {a} \<subseteq> pmm_owned p'"
    using f p' by (auto simp: pmm_owned_def frame_to_def)
  ultimately show "\<exists>p'. pmm_free cpu a p = Some p' \<and> pmm_inv p' \<and>
      pmm_avail p' = insert a (pmm_avail p) \<and> pmm_owned p - {a} \<subseteq> pmm_owned p'"
    using f p' frame_to_avail [OF p'(2) f(3)] by auto
next
  fix p assume inv: "pmm_inv p"
  show "0 \<notin> pmm_avail p"
  proof
    assume "0 \<in> pmm_avail p"
    then obtain f where f: "f < MAXFRAMES" "\<not> pm_bit p f" "frame_addr f = 0" by (auto simp: pmm_avail_def)
    then have "f = 0" using unat_frame_addr [of f] by simp
    with inv f(2) show False by (metis pmm_inv_def zero_less_numeral)
  qed
qed

section \<open>Initialisation\<close>

lemma set_words_replicate:
  "n \<le> length ws \<Longrightarrow> set_words ws c n = Some (replicate n c @ drop n ws)"
  by (induction ws c n rule: set_words.induct) auto

lemma bitmap_init_ones:
  assumes "bitmap_inv b" and "bm_lock b = spin_unlocked"
  shows "\<exists>b'. bitmap_init cpu b (- 1) = Some (0, b') \<and> bitmap_inv b' \<and> bitmap_len b' = bitmap_len b \<and>
    bm_lock b' = spin_unlocked \<and> (\<forall>i < bitmap_len b. bitmap_bit b' i)"
proof -
  let ?ws = "replicate (length (bm_map b)) (- 1) :: u32 list"
  have "unat (bm_size b div 4) = length (bm_map b)"
    using assms(1) by (simp add: bitmap_inv_def unat_div)
  then have "bitmap_init cpu b (- 1) = Some (0, b\<lparr>bm_map := ?ws\<rparr>)"
    using assms
    by (simp add: bitmap_init_def bitmap_inv_def bitmap_lock_def bitmap_unlock_def set_words_replicate
        bitmap_valid_def)
  moreover have "bitmap_bit (b\<lparr>bm_map := ?ws\<rparr>) i" if "i < bitmap_len b" for i
    using div_32_less [OF that assms(1)] by (simp add: bitmap_bit_def)
  ultimately show ?thesis
    using assms by (simp add: bitmap_inv_def bitmap_valid_def bitmap_len_def)
qed

lemma decr_range_frames:
  "pmm_shape (locked_by cpu) p \<Longrightarrow> f + n \<le> MAXFRAMES \<Longrightarrow>
    decr_range cpu (int f) n p =
      Some (p\<lparr>pm_frames := (\<lambda>g. if f \<le> g \<and> g < f + n then pm_frames p g - 1 else pm_frames p g)\<rparr>)"
proof (induction n arbitrary: f p)
  case 0
  have "(\<lambda>g. if f \<le> g \<and> g < f + 0 then pm_frames p g - 1 else pm_frames p g) = pm_frames p" by auto
  then show ?case by simp
next
  case (Suc n)
  let ?p = "p\<lparr>pm_frames := (pm_frames p)(f := pm_frames p f - 1)\<rparr>"
  have "frames_decr cpu (int f) p = Some (pm_frames p f, ?p)"
    using Suc.prems by (simp add: frames_decr_def frames_check_ok Let_def)
  moreover have "decr_range cpu (int (Suc f)) n ?p = Some (?p\<lparr>pm_frames :=
      (\<lambda>g. if Suc f \<le> g \<and> g < Suc f + n then pm_frames ?p g - 1 else pm_frames ?p g)\<rparr>)"
    using Suc.IH [of ?p "Suc f"] Suc.prems by simp
  moreover have "(\<lambda>g. if Suc f \<le> g \<and> g < Suc f + n then pm_frames ?p g - 1 else pm_frames ?p g) =
      (\<lambda>g. if f \<le> g \<and> g < f + Suc n then pm_frames p g - 1 else pm_frames p g)"
    by (auto simp: fun_eq_iff)
  ultimately show ?case by (simp add: add.commute)
qed

lemma pmm_add_region_frames:
  assumes "pmm_shape spin_unlocked p" and "\<forall>f < MAXFRAMES. pm_bit p f"
    and "0x1000000 \<le> unat msize" and "n = (unat msize - 0x1000000) div PAGESZ" and "0 < n"
    and "0x1000 + n \<le> MAXFRAMES"
  shows "\<exists>p'. pmm_add_region cpu pmemsize msize p = Some p' \<and> pmm_shape spin_unlocked p' \<and>
    (\<forall>f < MAXFRAMES. pm_bit p' f \<longleftrightarrow> \<not> (0x1000 \<le> f \<and> f < 0x1000 + n)) \<and>
    (\<forall>f. pm_frames p' f = (if 0x1000 \<le> f \<and> f < n then pm_frames p f - 1 else pm_frames p f))"
proof -
  let ?p = "with_locks (locked_by cpu) p"
  have sh: "pmm_shape (locked_by cpu) ?p" using assms(1) by simp
  have "cluster_args cpu (pm_bitmap ?p) 0x1000 n"
    using sh assms(5,6) by (simp add: cluster_args_def pmm_shape_def bitmap_held_def)
  moreover have "cluster True (pm_bitmap ?p) n 0x1000"
    using sh assms(2,6) by (auto simp: cluster_def pmm_shape_def)
  ultimately obtain b where b: "bitmap_unset cpu (pm_bitmap ?p) 0x1000 (int n) = Some (0, b)"
    "bits_to (pm_bitmap ?p) (\<lambda>j. \<not> (0x1000 \<le> j \<and> j < 0x1000 + n) \<and> pm_bit ?p j) b"
    using bitmap_unset_bits [of cpu "pm_bitmap ?p" "0x1000" n] by auto
  note sh1 = bits_to_shape [OF sh b(2)]
  let ?fs = "\<lambda>g. if 0x1000 \<le> g \<and> g < n then pm_frames p g - 1 else pm_frames p g"
  have "decr_range cpu (int 0x1000) (n - 0x1000) (?p\<lparr>pm_bitmap := b\<rparr>) = Some (?p\<lparr>pm_bitmap := b, pm_frames := ?fs\<rparr>)"
  proof -
    have "(0x1000 \<le> g \<and> g < 0x1000 + (n - 0x1000)) = (0x1000 \<le> g \<and> g < n)" for g by auto
    with decr_range_frames [OF sh1, of "0x1000" "n - 0x1000"] assms(6) show ?thesis
      by (simp cong: if_cong)
  qed
  moreover have "nat (int n - 0x1000) = n - 0x1000" by linarith
  ultimately have d: "decr_range cpu 0x1000 (nat (int n - 0x1000)) (?p\<lparr>pm_bitmap := b\<rparr>) =
      Some (?p\<lparr>pm_bitmap := b, pm_frames := ?fs\<rparr>)"
    by simp
  have "unat (msize - 0x1000000) = unat msize - 0x1000000"
    using assms(3) by (simp add: unat_sub word_le_nat_alt)
  then have n: "int (unat (msize - 0x1000000) div PAGESZ) = int n" using assms(4) by simp
  let ?q = "?p\<lparr>pm_bitmap := b, pm_frames := ?fs, pm_maxblocks := ucast (pmemsize div 4),
    pm_usedblocks := 0x1000\<rparr>"
  have q: "pmm_shape (locked_by cpu) ?q" using sh1 by simp
  have "pmm_add_region cpu pmemsize msize p = Some (with_locks spin_unlocked ?q)"
    using b(1) d pmm_leave_ok [OF q] n
    by (simp add: pmm_add_region_def pmm_enter_ok [OF assms(1)] Let_def)
  moreover have "pm_bit ?q f \<longleftrightarrow> \<not> (0x1000 \<le> f \<and> f < 0x1000 + n)" if "f < MAXFRAMES" for f
    using that assms(2) by (simp add: bits_to_simps(1) [OF b(2)])
  ultimately show ?thesis using q by (auto cong: if_cong)
qed

section \<open>Properties\<close>

text \<open>A memory with all frames in use except the frames 4096 to 4127.\<close>

definition example_pmm :: pmm where
  "example_pmm = \<lparr>pm_bitmap = \<lparr>bm_base = 64, bm_map = (replicate 32768 (- 1))[128 := 0], bm_size = 131072,
       bm_lock = spin_unlocked\<rparr>,
     pm_frames = (\<lambda>f. if f div 32 = 128 then 0 else 1), pm_frameslk = spin_unlocked,
     pm_maxblocks = 0, pm_usedblocks = 0\<rparr>"

lemma example_pmm_shape: "pmm_shape spin_unlocked example_pmm"
  by (simp add: example_pmm_def pmm_shape_def bitmap_inv_def bitmap_valid_def bitmap_len_def
      MAX_INT_BITMAP_def)

lemma example_pmm_bit: "f < MAXFRAMES \<Longrightarrow> pm_bit example_pmm f \<longleftrightarrow> f div 32 \<noteq> 128"
  by (auto simp: example_pmm_def bitmap_bit_def nth_list_update)

lemma example_pmm_inv: "pmm_inv example_pmm"
  using example_pmm_shape by (auto simp: pmm_inv_def example_pmm_bit) (auto simp: example_pmm_def)

lemma example_pmm_avail: "card (pmm_avail example_pmm) = 32"
proof -
  have "{f. f < MAXFRAMES \<and> \<not> pm_bit example_pmm f} = {4096..<4128}"
  proof (intro set_eqI)
    fix f :: nat
    have "f div 32 = 128 \<longleftrightarrow> 4096 \<le> f \<and> f < 4128" by auto
    then show "f \<in> {f. f < MAXFRAMES \<and> \<not> pm_bit example_pmm f} \<longleftrightarrow> f \<in> {4096..<4128}"
      using example_pmm_bit [of f] by auto
  qed
  moreover have "inj_on frame_addr {4096..<4128}" by (auto simp: inj_on_def frame_addr_eq)
  ultimately show ?thesis by (simp add: pmm_avail_def card_image)
qed




text \<open>A frame that was allocated and freed again is available again; an allocation with no
  frame left returns 0 and changes nothing.\<close>

theorem pmm_alloc_free:
  assumes "pmm_inv p"
  shows "if pmm_avail p = {} then \<exists>p'. pmm_alloc cpu p = Some (0, p') \<and> pmm_inv p' \<and> pmm_avail p' = {}
    else \<exists>a p1 p2. pmm_alloc cpu p = Some (a, p1) \<and> a \<in> pmm_avail p \<and> a \<notin> pmm_avail p1 \<and> a \<noteq> 0 \<and>
      pmm_free cpu a p1 = Some p2 \<and> pmm_inv p2 \<and> pmm_avail p2 = pmm_avail p"
  using pmm_allocator.alloc_none [OF assms] pmm_allocator.alloc_release [OF assms] by simp

theorem pmm_alloc_free_witness:
  "\<exists>a p1 p2. pmm_alloc 7 example_pmm = Some (a, p1) \<and> a \<noteq> 0 \<and> pmm_free 7 a p1 = Some p2 \<and>
    pmm_avail p2 = pmm_avail example_pmm"
proof -
  have "pmm_avail example_pmm \<noteq> {}" using example_pmm_avail by auto
  with pmm_alloc_free [OF example_pmm_inv, of 7] show ?thesis by auto
qed

text \<open>\<^verbatim>\<open>pmm_init\<close> frees, in the bitmap, the \<open>n\<close> frames from 16 MiB on that it finds in the memory
  map, but it drops the initial reference of the frames below \<open>n\<close> only. The last
  \<open>min n 4096\<close> free frames keep a reference: once allocated, freeing them leaves them in use.\<close>

theorem pmm_init_stale_refs:
  assumes "pmm_shape spin_unlocked p" and "0x1000000 \<le> unat msize"
    and "n = (unat msize - 0x1000000) div PAGESZ" and "0 < n" and "0x1000 + n \<le> MAXFRAMES"
  shows "\<exists>p'. pmm_init cpu pmemsize ident 0 [\<lparr>e_addr = 0x100000, e_size = msize, e_type = 1\<rparr>] p = Some (0, p') \<and>
    (\<forall>f < MAXFRAMES. pm_bit p' f \<longleftrightarrow> \<not> (0x1000 \<le> f \<and> f < 0x1000 + n)) \<and>
    (\<forall>f < MAXFRAMES. pm_frames p' f = (if 0x1000 \<le> f \<and> f < n then 0 else 1)) \<and>
    (\<forall>f q. max 0x1000 n \<le> f \<and> f < 0x1000 + n \<and> frame_to f True 2 p' q \<longrightarrow>
      (\<exists>q'. pmm_free cpu (frame_addr f) q = Some q' \<and> pm_bit q' f))"
proof -
  from bitmap_init_ones [of "pm_bitmap p" cpu] assms(1) obtain b where
    b: "bitmap_init cpu (pm_bitmap p) (- 1) = Some (0, b)" "bitmap_inv b" "bitmap_len b = MAXFRAMES"
      "bm_lock b = spin_unlocked" "\<forall>i < MAXFRAMES. bitmap_bit b i" by (auto simp: pmm_shape_def)
  let ?p = "p\<lparr>pm_bitmap := b, pm_frames := (\<lambda>_. 1)\<rparr>"
  have "pmm_shape spin_unlocked ?p" using assms(1) b by (simp add: pmm_shape_def)
  from pmm_add_region_frames [OF this, of msize n cpu pmemsize] b(5) assms obtain p' where
    p': "pmm_add_region cpu pmemsize msize ?p = Some p'" "pmm_shape spin_unlocked p'"
      "\<forall>f < MAXFRAMES. pm_bit p' f \<longleftrightarrow> \<not> (0x1000 \<le> f \<and> f < 0x1000 + n)"
      "\<forall>f. pm_frames p' f = (if 0x1000 \<le> f \<and> f < n then 1 - 1 else 1)" by auto
  have "\<exists>q'. pmm_free cpu (frame_addr f) q = Some q' \<and> pm_bit q' f"
    if "max 0x1000 n \<le> f \<and> f < 0x1000 + n \<and> frame_to f True 2 p' q" for f q
    using pmm_free_shared [of q f cpu] that assms(5) by (auto simp: frame_to_def)
  moreover have "pmm_init cpu pmemsize ident 0 [\<lparr>e_addr = 0x100000, e_size = msize, e_type = 1\<rparr>] p = Some (0, p')"
    using b(1) p'(1) by (simp add: pmm_init_def)
  ultimately show ?thesis using p'(3,4) by auto
qed

theorem pmm_init_stale_refs_witness:
  "\<exists>p'. pmm_init 7 0 (\<lambda>_ _. 0) 0 [\<lparr>e_addr = 0x100000, e_size = 0x3000000, e_type = 1\<rparr>] example_pmm = Some (0, p') \<and>
    \<not> pm_bit p' 0x2000 \<and> pm_frames p' 0x2000 = 1 \<and> \<not> pm_bit p' 0x1000 \<and> pm_frames p' 0x1000 = 0"
  using pmm_init_stale_refs [OF example_pmm_shape, of "0x3000000" "0x2000" 7 0 "\<lambda>_ _. 0"] by auto

end
