(* ===== verification/Zone.thy ===== *)
theory Zone
  imports Pmm
begin

text \<open>
  The zone allocator of physical pages (\<^verbatim>\<open>kernel/mm/pmm/mm_zone.c\<close>, \<^verbatim>\<open>kernel/mm/pmm/zone_page.c\<close>,
  \<^verbatim>\<open>kernel/include/mm/mm_zone.h\<close>). The page descriptors of all zones are one array, as
  \<^verbatim>\<open>enumarate_zones\<close> lays them out; a \<^verbatim>\<open>page_t *\<close> is an index into it and \<open>None\<close> the null pointer.
  Allocation of single pages satisfies the contract of \<open>Allocator\<close>; allocation of two or more
  pages does not.
\<close>

unbundle bit_operations_syntax
declare neq0_conv [iff del] bot_nat_0.not_eq_extremum [simp del]

section \<open>State\<close>

record page =
  pg_flags :: u32
  pg_mapping :: ptr
  ref_count :: u32
  map_count :: u32
  pg_virtual :: u32

record mm_zone =
  z_start :: u32
  z_flags :: u32
  z_pages :: nat
  z_nrpages :: u32
  z_free :: u32
  z_lock :: spinlock

text \<open>Writes to the page tables are recorded, in order.\<close>

datatype table_op = SetPde u32 u32 | ClearPtes u32 | IdentityMap u32 u32 u32 u32

text \<open>The zones, the array of page descriptors, its virtual address, and the record of table writes.\<close>

record zones =
  zn :: "mm_zone list"
  zp :: "page list"
  zbase :: u32
  ztables :: "table_op list"

abbreviation MM_ZONE_VALID :: u32 where "MM_ZONE_VALID \<equiv> 0x10"
abbreviation EADDRNOTAVAIL :: int where "EADDRNOTAVAIL \<equiv> 99"

definition zone_at :: "zones \<Rightarrow> nat \<Rightarrow> mm_zone option" where
  "zone_at st z = (if z < length (zn st) then Some (zn st ! z) else None)"

definition page_at :: "zones \<Rightarrow> nat \<Rightarrow> page option" where
  "page_at st i = (if i < length (zp st) then Some (zp st ! i) else None)"

definition set_zone :: "nat \<Rightarrow> (mm_zone \<Rightarrow> mm_zone) \<Rightarrow> zones \<Rightarrow> zones option" where
  "set_zone z f st = do { x \<leftarrow> zone_at st z; Some (st\<lparr>zn := (zn st)[z := f x]\<rparr>) }"

definition set_page :: "nat \<Rightarrow> (page \<Rightarrow> page) \<Rightarrow> zones \<Rightarrow> zones option" where
  "set_page i f st = do { x \<leftarrow> page_at st i; Some (st\<lparr>zp := (zp st)[i := f x]\<rparr>) }"

text \<open>The bit field \<^verbatim>\<open>flags.mm_zone\<close>: bits 10 and 11.\<close>

definition page_zone :: "page \<Rightarrow> int" where
  "page_zone pg = uint (drop_bit 10 (pg_flags pg) AND 3)"

definition with_zone :: "nat \<Rightarrow> page \<Rightarrow> page" where
  "with_zone z pg = pg\<lparr>pg_flags := (pg_flags pg AND NOT 0xC00) OR push_bit 10 (of_nat z AND 3)\<rparr>"

definition mm_zone_lock :: "ptr \<Rightarrow> nat \<Rightarrow> zones \<Rightarrow> zones option" where
  "mm_zone_lock cpu z st = do {
     x \<leftarrow> zone_at st z;
     lk \<leftarrow> lk_acquire cpu (z_lock x);
     set_zone z (\<lambda>x. x\<lparr>z_lock := lk\<rparr>) st
   }"

definition mm_zone_unlock :: "ptr \<Rightarrow> nat \<Rightarrow> zones \<Rightarrow> zones option" where
  "mm_zone_unlock cpu z st = do {
     x \<leftarrow> zone_at st z;
     lk \<leftarrow> lk_release cpu (z_lock x);
     set_zone z (\<lambda>x. x\<lparr>z_lock := lk\<rparr>) st
   }"

definition mm_zone_isvalid :: "ptr \<Rightarrow> nat \<Rightarrow> zones \<Rightarrow> bool option" where
  "mm_zone_isvalid cpu z st = do {
     x \<leftarrow> zone_at st z;
     _ \<leftarrow> spin_assert_lock cpu (z_lock x);
     Some (z_flags x AND MM_ZONE_VALID \<noteq> 0)
   }"


section \<open>Zones of an address and of an index\<close>

text \<open>\<^verbatim>\<open>get_mmzone\<close> returns a locked zone; when the zone is not valid it returns null with the lock held.\<close>

definition lock_if_valid :: "ptr \<Rightarrow> nat \<Rightarrow> zones \<Rightarrow> (nat option \<times> zones) option" where
  "lock_if_valid cpu z st = do {
     st \<leftarrow> mm_zone_lock cpu z st;
     v \<leftarrow> mm_zone_isvalid cpu z st;
     Some (if v then Some z else None, st)
   }"

definition get_mmzone :: "ptr \<Rightarrow> u32 \<Rightarrow> u32 \<Rightarrow> zones \<Rightarrow> (nat option \<times> zones) option" where
  "get_mmzone cpu addr sz st = do {
     dma \<leftarrow> zone_at st 0;
     norm \<leftarrow> zone_at st 1;
     if addr \<ge> z_start dma \<and> addr + (sz - 1) < 0x1000000 then lock_if_valid cpu 0 st
     else if addr \<ge> 0x1000000 \<and> addr + (sz - 1) < z_start norm + z_nrpages norm * 0x1000 then lock_if_valid cpu 1 st
     else Some (None, st)
   }"

definition mm_zone_get :: "ptr \<Rightarrow> int \<Rightarrow> zones \<Rightarrow> (nat option \<times> zones) option" where
  "mm_zone_get cpu z st =
    (if z < 0 \<or> z > 3 then Some (None, st)
     else do {
       st \<leftarrow> mm_zone_lock cpu (nat z) st;
       v \<leftarrow> mm_zone_isvalid cpu (nat z) st;
       if \<not> v then do { st \<leftarrow> mm_zone_unlock cpu (nat z) st; Some (None, st) } else Some (Some (nat z), st)
     })"


section \<open>Allocation\<close>

text \<open>
  The search. \<open>start\<close> follows \<open>index\<close> in every round of the source's loop, so the value at the end is the
  index of the last page of the run; the count of free pages is kept when the search starts again.
\<close>

partial_function (option) find_run :: "zones \<Rightarrow> mm_zone \<Rightarrow> bool \<Rightarrow> u32 \<Rightarrow> nat \<Rightarrow> u32 \<Rightarrow> nat option option" where
  "find_run st x retry npages index alloced =
    (if index < unat (z_nrpages x) then do {
       pg \<leftarrow> page_at st (z_pages x + index);
       if ref_count pg \<noteq> 0 then find_run st x retry npages (index + 1) 0
       else if alloced + 1 = npages then Some (Some index)
       else find_run st x retry npages (index + 1) (alloced + 1)
     }
     else if retry then find_run st x retry npages 0 alloced
     else Some None)"

fun mark_pages :: "nat \<Rightarrow> nat \<Rightarrow> nat \<Rightarrow> zones \<Rightarrow> zones option" where
  "mark_pages z pg 0 st = Some st"
| "mark_pages z pg (Suc n) st = do {
     st \<leftarrow> set_page pg (\<lambda>p. (with_zone z p)\<lparr>ref_count := ref_count p + 1\<rparr>) st;
     st \<leftarrow> set_zone z (\<lambda>x. x\<lparr>z_free := z_free x - 1\<rparr>) st;
     mark_pages z (pg + 1) n st
   }"

text \<open>
  The operations of other components that \<^verbatim>\<open>alloc_pages\<close> calls to clear a frame: \<^verbatim>\<open>paging_mount\<close>, \<^verbatim>\<open>memset\<close>,
  \<^verbatim>\<open>paging_unmount\<close>, and \<^verbatim>\<open>xched_sleep\<close> of the current thread, during which other threads may change the zones.
\<close>

record zext =
  x_mount :: "u32 \<Rightarrow> zones \<Rightarrow> (u32 \<times> zones) option"
  x_memset :: "u32 \<Rightarrow> zones \<Rightarrow> zones option"
  x_unmount :: "u32 \<Rightarrow> zones \<Rightarrow> zones option"
  x_current :: bool
  x_sleep :: "nat \<Rightarrow> zones \<Rightarrow> zones option"

partial_function (option) zero_page :: "zext \<Rightarrow> nat \<Rightarrow> u32 \<Rightarrow> zones \<Rightarrow> zones option" where
  "zero_page E z paddr st = do {
     (vaddr, st) \<leftarrow> x_mount E paddr st;
     if vaddr = 0 then
       (if x_current E then do { st \<leftarrow> x_sleep E z st; zero_page E z paddr st } else Some st)
     else do { st \<leftarrow> x_memset E vaddr st; x_unmount E vaddr st }
   }"

fun zero_pages :: "zext \<Rightarrow> nat \<Rightarrow> nat \<Rightarrow> nat \<Rightarrow> zones \<Rightarrow> zones option" where
  "zero_pages E z pg 0 st = Some st"
| "zero_pages E z pg (Suc n) st = do {
     x \<leftarrow> zone_at st z;
     st \<leftarrow> zero_page E z (z_start x + of_nat (pg - z_pages x) * 0x1000) st;
     zero_pages E z (pg + 1) n st
   }"

text \<open>
  Flags of \<^verbatim>\<open>mm_gfp.h\<close>: the low four bits select the zone, 0x10 and 0x80 ask to wait and to retry, 0x100 to
  clear. The result of \<^verbatim>\<open>mm_zone_get\<close> is used without a test.
\<close>

definition alloc_pages :: "zext \<Rightarrow> ptr \<Rightarrow> u32 \<Rightarrow> nat \<Rightarrow> zones \<Rightarrow> (nat option \<times> zones) option" where
  "alloc_pages E cpu gm order st = do {
     kassert (order < 31);
     let npages = push_bit order 1;
     let zi = (if gm AND 0xF = 0 then 1 else uint (gm AND 0xF) - 1);
     (zo, st) \<leftarrow> mm_zone_get cpu zi st;
     z \<leftarrow> zo;
     x \<leftarrow> zone_at st z;
     r \<leftarrow> find_run st x (gm AND 0x90 \<noteq> 0) npages 0 0;
     (case r of
       None \<Rightarrow> do { st \<leftarrow> mm_zone_unlock cpu z st; Some (None, st) }
     | Some start \<Rightarrow> do {
         let pg = z_pages x + start;
         st \<leftarrow> mark_pages z pg (unat npages) st;
         st \<leftarrow> (if gm AND 0x100 \<noteq> 0 then zero_pages E z pg (unat npages) st else Some st);
         st \<leftarrow> mm_zone_unlock cpu z st;
         Some (Some pg, st)
       })
   }"

definition alloc_page :: "zext \<Rightarrow> ptr \<Rightarrow> u32 \<Rightarrow> zones \<Rightarrow> (nat option \<times> zones) option" where
  "alloc_page E cpu gm st = alloc_pages E cpu gm 0 st"

definition page_address :: "ptr \<Rightarrow> nat option \<Rightarrow> zones \<Rightarrow> (u32 \<times> zones) option" where
  "page_address cpu p st = (case p of
     None \<Rightarrow> Some (0, st)
   | Some p \<Rightarrow> do {
       pg \<leftarrow> page_at st p;
       (zo, st) \<leftarrow> mm_zone_get cpu (page_zone pg) st;
       (case zo of
         None \<Rightarrow> Some (0, st)
       | Some z \<Rightarrow> do {
           x \<leftarrow> zone_at st z;
           let index = int p - int (z_pages x);
           let addr = (if index < 0 \<or> index > sint (z_nrpages x) then 0 else z_start x + of_int index * 0x1000);
           st \<leftarrow> mm_zone_unlock cpu z st;
           Some (addr, st)
         })
     })"


section \<open>References\<close>

text \<open>\<^verbatim>\<open>__page_incr\<close> and \<^verbatim>\<open>__page_count\<close>: an operation on the count of the page of an address; address 0 panics.\<close>

definition page_incr_at :: "ptr \<Rightarrow> u32 \<Rightarrow> zones \<Rightarrow> (int \<times> zones) option" where
  "page_incr_at cpu addr st = do {
     kassert (addr \<noteq> 0);
     (zo, st) \<leftarrow> get_mmzone cpu addr 0x1000 st;
     (case zo of
       None \<Rightarrow> Some (- EADDRNOTAVAIL, st)
     | Some z \<Rightarrow> do {
         x \<leftarrow> zone_at st z;
         let i = z_pages x + unat ((addr - z_start x) div 0x1000);
         pg \<leftarrow> page_at st i;
         st \<leftarrow> set_page i (\<lambda>p. p\<lparr>ref_count := ref_count p + 1\<rparr>) st;
         st \<leftarrow> mm_zone_unlock cpu z st;
         Some (sint (ref_count pg), st)
       })
   }"

definition page_incr :: "ptr \<Rightarrow> nat option \<Rightarrow> zones \<Rightarrow> (int \<times> zones) option" where
  "page_incr cpu p st = do { (addr, st) \<leftarrow> page_address cpu p st; page_incr_at cpu addr st }"

definition page_count_at :: "ptr \<Rightarrow> u32 \<Rightarrow> zones \<Rightarrow> (int \<times> zones) option" where
  "page_count_at cpu addr st = do {
     kassert (addr \<noteq> 0);
     (zo, st) \<leftarrow> get_mmzone cpu addr 0x1000 st;
     (case zo of
       None \<Rightarrow> Some (- EADDRNOTAVAIL, st)
     | Some z \<Rightarrow> do {
         x \<leftarrow> zone_at st z;
         pg \<leftarrow> page_at st (z_pages x + unat ((addr - z_start x) div 0x1000));
         st \<leftarrow> mm_zone_unlock cpu z st;
         Some (sint (ref_count pg), st)
       })
   }"

text \<open>The source negates the address.\<close>

definition page_count :: "ptr \<Rightarrow> nat option \<Rightarrow> zones \<Rightarrow> (int \<times> zones) option" where
  "page_count cpu p st = do { (addr, st) \<leftarrow> page_address cpu p st; page_count_at cpu (- addr) st }"

definition get_free_pages :: "zext \<Rightarrow> ptr \<Rightarrow> u32 \<Rightarrow> nat \<Rightarrow> zones \<Rightarrow> (u32 \<times> zones) option" where
  "get_free_pages E cpu gm order st = do { (p, st) \<leftarrow> alloc_pages E cpu gm order st; page_address cpu p st }"

definition get_free_page :: "zext \<Rightarrow> ptr \<Rightarrow> u32 \<Rightarrow> zones \<Rightarrow> (u32 \<times> zones) option" where
  "get_free_page E cpu gm st = get_free_pages E cpu gm 0 st"

text \<open>The page descriptor after its last reference is dropped.\<close>

definition page_reset :: "page \<Rightarrow> page" where
  "page_reset p = p\<lparr>pg_mapping := NULL, ref_count := 0, pg_virtual := 0,
     pg_flags := (pg_flags p AND NOT 0x2FF) OR 0x100\<rparr>"

fun put_pages :: "nat \<Rightarrow> nat \<Rightarrow> nat \<Rightarrow> zones \<Rightarrow> zones option" where
  "put_pages z pg 0 st = Some st"
| "put_pages z pg (Suc n) st = do {
     p \<leftarrow> page_at st pg;
     st \<leftarrow> (if ref_count p = 0 then Some st
           else do {
             st \<leftarrow> set_page pg (\<lambda>p. p\<lparr>ref_count := ref_count p - 1\<rparr>) st;
             if ref_count p - 1 = 0 then do {
               st \<leftarrow> set_page pg page_reset st;
               set_zone z (\<lambda>x. x\<lparr>z_free := z_free x + 1\<rparr>) st
             } else Some st
           });
     put_pages z (pg + 1) n st
   }"

definition pages_put_at :: "ptr \<Rightarrow> u32 \<Rightarrow> nat \<Rightarrow> zones \<Rightarrow> zones option" where
  "pages_put_at cpu addr order st = do {
     kassert (order < 31);
     let npages = push_bit order (1 :: u32);
     kassert (addr \<noteq> 0);
     (zo, st) \<leftarrow> get_mmzone cpu addr (npages * 0x1000) st;
     (case zo of
       None \<Rightarrow> Some st
     | Some z \<Rightarrow> do {
         x \<leftarrow> zone_at st z;
         st \<leftarrow> put_pages z (z_pages x + unat ((addr - z_start x) div 0x1000)) (unat npages) st;
         mm_zone_unlock cpu z st
       })
   }"

definition page_put_at :: "ptr \<Rightarrow> u32 \<Rightarrow> zones \<Rightarrow> zones option" where
  "page_put_at cpu addr st = pages_put_at cpu addr 0 st"

definition pages_put :: "ptr \<Rightarrow> nat option \<Rightarrow> nat \<Rightarrow> zones \<Rightarrow> zones option" where
  "pages_put cpu p order st = do { (addr, st) \<leftarrow> page_address cpu p st; pages_put_at cpu addr order st }"

definition page_put :: "ptr \<Rightarrow> nat option \<Rightarrow> zones \<Rightarrow> zones option" where
  "page_put cpu p st = pages_put cpu p 0 st"

definition mm_alloc :: "zext \<Rightarrow> ptr \<Rightarrow> zones \<Rightarrow> (u32 \<times> zones) option" where
  "mm_alloc E cpu st = get_free_page E cpu 2 st"

definition mm_free :: "ptr \<Rightarrow> u32 \<Rightarrow> zones \<Rightarrow> zones option" where
  "mm_free cpu addr st = page_put_at cpu addr st"

text \<open>Sums over the valid zones, each read under its lock; the result is in KiB.\<close>

fun sum_zones :: "(mm_zone \<Rightarrow> u32) \<Rightarrow> ptr \<Rightarrow> nat list \<Rightarrow> u32 \<Rightarrow> zones \<Rightarrow> (u32 \<times> zones) option" where
  "sum_zones f cpu [] sz st = Some (sz div 1024, st)"
| "sum_zones f cpu (z # zs) sz st = do {
     st \<leftarrow> mm_zone_lock cpu z st;
     v \<leftarrow> mm_zone_isvalid cpu z st;
     x \<leftarrow> zone_at st z;
     let sz = (if v then sz + f x * 0x1000 else sz);
     st \<leftarrow> mm_zone_unlock cpu z st;
     sum_zones f cpu zs sz st
   }"

definition mem_free :: "ptr \<Rightarrow> zones \<Rightarrow> (u32 \<times> zones) option" where
  "mem_free cpu st = sum_zones z_free cpu [0, 1, 2] 0 st"

definition mem_used :: "ptr \<Rightarrow> zones \<Rightarrow> (u32 \<times> zones) option" where
  "mem_used cpu st = sum_zones (\<lambda>x. z_nrpages x - z_free x) cpu [0, 1, 2] 0 st"


section \<open>Initialisation\<close>

text \<open>
  What the boot loader reports: the memory size in KiB, the memory map, the modules with address and size, and the
  first free physical address.
\<close>

record bootinfo =
  b_pmemsize :: u64
  b_mmap :: "mmap_entry list"
  b_mods :: "(u32 \<times> u32) list"
  b_free_physaddr :: u32

abbreviation pground :: "u32 \<Rightarrow> u32" where "pground a \<equiv> a AND NOT 0xFFF"
abbreviation pgroundup :: "u32 \<Rightarrow> u32" where "pgroundup a \<equiv> pground (a + 0xFFF)"

definition NPAGE :: "u32 \<Rightarrow> u32" where
  "NPAGE len = len div 0x1000 + (if len AND 0xFFF \<noteq> 0 then 1 else 0)"

definition enumarate_zones :: "bootinfo \<Rightarrow> zones \<Rightarrow> zones option" where
  "enumarate_zones boot st = do {
     kassert (b_mods boot \<noteq> []);
     let (maddr, msize) = last (b_mods boot);
     let st = st\<lparr>zbase := pgroundup (maddr + msize)\<rparr>;
     kassert (\<not> b_pmemsize boot div 1024 < 16);
     let sz = (0x1000000 :: u32);
     st \<leftarrow> set_zone 0 (\<lambda>x. x\<lparr>z_start := 0, z_pages := 0, z_flags := MM_ZONE_VALID,
            z_nrpages := sz div 0x1000, z_free := sz div 0x1000\<rparr>) st;
     let start = 0 + sz;
     let memsize = b_pmemsize boot - ucast (sz div 1024);
     let sz = (if memsize \<ge> ucast ((0xFE000000 - sz) div 1024) then (0xFE000000 - sz) div 1024 else ucast memsize) * 1024;
     set_zone 1 (\<lambda>x. x\<lparr>z_pages := unat (0x1000000 div 0x1000 :: u32), z_flags := MM_ZONE_VALID, z_start := start,
            z_nrpages := sz div 0x1000, z_free := sz div 0x1000\<rparr>) st
   }"

text \<open>The loop that reserves the pages of a range.\<close>

fun reserve_pages :: "nat \<Rightarrow> nat \<Rightarrow> nat \<Rightarrow> zones \<Rightarrow> zones option" where
  "reserve_pages z pg 0 st = Some st"
| "reserve_pages z pg (Suc n) st = do {
     st \<leftarrow> set_page pg (\<lambda>p. let p = with_zone z (p\<lparr>ref_count := 1\<rparr>) in p\<lparr>pg_flags := pg_flags p OR 3\<rparr>) st;
     reserve_pages z (pg + 1) n st
   }"

definition reserve_range :: "ptr \<Rightarrow> nat \<Rightarrow> u32 \<Rightarrow> u32 \<Rightarrow> zones \<Rightarrow> zones option" where
  "reserve_range cpu z addr sz st = do {
     x \<leftarrow> zone_at st z;
     st \<leftarrow> reserve_pages z (z_pages x + unat ((addr - z_start x) div 0x1000)) (nat (sint (NPAGE sz))) st;
     st \<leftarrow> set_zone z (\<lambda>x. x\<lparr>z_free := z_free x - NPAGE sz\<rparr>) st;
     mm_zone_unlock cpu z st
   }"

definition v_pdi :: "u32 \<Rightarrow> u32" where
  "v_pdi v = drop_bit 22 v"

fun table_loop :: "nat \<Rightarrow> u32 \<Rightarrow> u32 \<Rightarrow> zones \<Rightarrow> zones" where
  "table_loop 0 taddr ptable st = st"
| "table_loop (Suc n) taddr ptable st =
    table_loop n (taddr + 0x400000) (ptable + 0x1000)
      (st\<lparr>ztables := ztables st @ [SetPde (v_pdi taddr) (ptable OR 3 OR 8), ClearPtes (v_pdi taddr)]\<rparr>)"

definition identity_map :: "u32 \<Rightarrow> u32 \<Rightarrow> u32 \<Rightarrow> u32 \<Rightarrow> zones \<Rightarrow> zones" where
  "identity_map frame v sz fl st = st\<lparr>ztables := ztables st @ [IdentityMap frame v sz fl]\<rparr>"

definition zero_descriptor :: page where
  "zero_descriptor = \<lparr>pg_flags = 0, pg_mapping = NULL, ref_count = 0, map_count = 0, pg_virtual = 0\<rparr>"

text \<open>
  \<^verbatim>\<open>map_zones\<close>: maps the array of descriptors, of 20 bytes each, clears it, and reserves page 0 and the frames
  that hold the array and its page tables.
\<close>

definition map_zones :: "ptr \<Rightarrow> bootinfo \<Rightarrow> zones \<Rightarrow> zones option" where
  "map_zones cpu boot st = do {
     let phys_start = b_free_physaddr boot;
     dma \<leftarrow> zone_at st 0;
     norm \<leftarrow> zone_at st 1;
     let sz = z_nrpages dma * 20 + z_nrpages norm * 20;
     st \<leftarrow> mm_zone_lock cpu 2 st;
     v \<leftarrow> mm_zone_isvalid cpu 2 st;
     high \<leftarrow> zone_at st 2;
     let sz = (if v then sz + z_nrpages high * 20 else sz);
     st \<leftarrow> mm_zone_unlock cpu 2 st;
     let sz = pgroundup sz;
     let start = zbase st;
     let taddr = start AND NOT 0x3FFFFF;
     let ptable = start + sz - 0xC0000000;
     let ntable = v_pdi taddr - v_pdi start + 1;
     let tablesz = ntable * 0x1000;
     let st = table_loop (nat (sint ntable)) taddr ptable st;
     let st = identity_map phys_start start sz (8 OR 3) st;
     let st = st\<lparr>zp := replicate (unat sz div 20) zero_descriptor\<rparr>;
     st \<leftarrow> set_zone 0 (\<lambda>x. x\<lparr>z_free := z_free x - 1\<rparr>) st;
     st \<leftarrow> set_page 0 (\<lambda>p. with_zone 0 (p\<lparr>ref_count := 1\<rparr>)) st;
     let sz = sz + tablesz;
     (zo, st) \<leftarrow> get_mmzone cpu phys_start sz st;
     z \<leftarrow> zo;
     reserve_range cpu z phys_start sz st
   }"

text \<open>
  \<^verbatim>\<open>physical_memory\<close>: the entries of the memory map that are not available memory, the kernel image and the
  modules are reserved. \<open>mapped\<close> is the result of \<^verbatim>\<open>paging_getmapping\<close>, \<open>kstart\<close> and \<open>kend\<close> the linker's symbols and
  \<open>pinit\<close> the result of \<^verbatim>\<open>paging_init\<close>.
\<close>

fun reserve_map :: "ptr \<Rightarrow> (u32 \<Rightarrow> bool) \<Rightarrow> mmap_entry list \<Rightarrow> zones \<Rightarrow> zones option" where
  "reserve_map cpu mapped [] st = Some st"
| "reserve_map cpu mapped (e # es) st = do {
     let addr = pground (e_addr e);
     let sz = pgroundup (e_size e);
     st \<leftarrow> (if e_type e \<noteq> 1 then do {
             (zo, st) \<leftarrow> get_mmzone cpu addr sz st;
             st \<leftarrow> (case zo of None \<Rightarrow> Some st | Some z \<Rightarrow> reserve_range cpu z addr sz st);
             Some (if \<not> mapped addr \<and> addr < 0xFE000000 then identity_map addr addr sz (3 OR 8 OR 16) st else st)
           } else Some st);
     reserve_map cpu mapped es st
   }"

fun reserve_module :: "ptr \<Rightarrow> u32 \<Rightarrow> nat \<Rightarrow> zones \<Rightarrow> zones option" where
  "reserve_module cpu addr 0 st = Some st"
| "reserve_module cpu addr (Suc n) st = do {
     (zo, st) \<leftarrow> get_mmzone cpu addr 0x1000 st;
     z \<leftarrow> zo;
     st \<leftarrow> set_zone z (\<lambda>x. x\<lparr>z_free := z_free x - 1\<rparr>) st;
     x \<leftarrow> zone_at st z;
     st \<leftarrow> reserve_pages z (z_pages x + unat ((addr - z_start x) div 0x1000)) 1 st;
     st \<leftarrow> mm_zone_unlock cpu z st;
     let st = (if addr \<ge> 0x1000000 then identity_map addr (addr + 0xC0000000) 0x1000 3 st else st);
     reserve_module cpu (addr + 0x1000) n st
   }"

fun reserve_modules :: "ptr \<Rightarrow> (u32 \<times> u32) list \<Rightarrow> zones \<Rightarrow> zones option" where
  "reserve_modules cpu [] st = Some st"
| "reserve_modules cpu ((maddr, msize) # ms) st = do {
     let sz = pgroundup msize;
     st \<leftarrow> reserve_module cpu (pground (maddr - 0xC0000000)) (nat (sint (NPAGE sz))) st;
     reserve_modules cpu ms st
   }"

definition physical_memory :: "ptr \<Rightarrow> (u32 \<Rightarrow> bool) \<Rightarrow> u32 \<Rightarrow> u32 \<Rightarrow> int \<Rightarrow> bootinfo \<Rightarrow> zones \<Rightarrow> (int \<times> zones) option" where
  "physical_memory cpu mapped kstart kend pinit boot st = do {
     st \<leftarrow> enumarate_zones boot st;
     st \<leftarrow> map_zones cpu boot st;
     st \<leftarrow> reserve_map cpu mapped (b_mmap boot) st;
     let addr = pground (kstart - 0xC0000000);
     let sz = pgroundup (kend - kstart);
     (zo, st) \<leftarrow> get_mmzone cpu addr sz st;
     z \<leftarrow> zo;
     kassert (addr + sz < 0x1000000);
     st \<leftarrow> reserve_range cpu z addr sz st;
     st \<leftarrow> reserve_modules cpu (b_mods boot) st;
     Some (pinit, st)
   }"

end
