(* ===== verification/Zone_Props.thy ===== *)
theory Zone_Props
  imports Zone
begin

text \<open>
  The zone allocator keeps its zones well formed, and \<^verbatim>\<open>mm_alloc\<close> and \<^verbatim>\<open>mm_free\<close> satisfy the contract of
  \<open>Allocator\<close>; a request for more than one page returns the last page of the run it found.
\<close>

declare neq0_conv [iff del] bot_nat_0.not_eq_extremum [simp del]

section \<open>Well-formed zones\<close>

definition free_in :: "page list \<Rightarrow> mm_zone \<Rightarrow> nat set" where
  "free_in ps x = {i. i < unat (z_nrpages x) \<and> ref_count (ps ! (z_pages x + i)) = 0}"

definition zone_ok :: "page list \<Rightarrow> nat \<Rightarrow> mm_zone \<Rightarrow> bool" where
  "zone_ok ps z x \<longleftrightarrow> z_flags x = MM_ZONE_VALID \<and> z_lock x = spin_unlocked \<and> z_pages x + unat (z_nrpages x) \<le> length ps \<and>
    z_free x = of_nat (card (free_in ps x)) \<and>
    (\<forall>i < unat (z_nrpages x). ref_count (ps ! (z_pages x + i)) \<noteq> 0 \<longrightarrow> page_zone (ps ! (z_pages x + i)) = int z)"

text \<open>The layout of \<^verbatim>\<open>enumarate_zones\<close>, two zones in order, and page 0 never free.\<close>

definition zone_inv :: "zones \<Rightarrow> bool" where
  "zone_inv st \<longleftrightarrow> (\<exists>x0 x1 x2. zn st = [x0, x1, x2] \<and> zone_ok (zp st) 0 x0 \<and> zone_ok (zp st) 1 x1 \<and>
    z_start x0 = 0 \<and> z_pages x0 = 0 \<and> z_nrpages x0 = 0x1000 \<and>
    z_start x1 = 0x1000000 \<and> z_pages x1 = 0x1000 \<and> z_nrpages x1 \<le> 0xFD000 \<and>
    z_lock x2 = spin_unlocked \<and> ref_count (zp st ! 0) \<noteq> 0)"

text \<open>A state in which one zone has another lock and count of free pages, and the descriptors are replaced.\<close>

definition zput :: "nat \<Rightarrow> spinlock \<Rightarrow> u32 \<Rightarrow> page list \<Rightarrow> zones \<Rightarrow> zones" where
  "zput z lk fr ps st = st\<lparr>zn := (zn st)[z := (zn st ! z)\<lparr>z_lock := lk, z_free := fr\<rparr>], zp := ps\<rparr>"

lemma same_zone: "z_lock x = lk \<Longrightarrow> x\<lparr>z_lock := lk, z_free := z_free x\<rparr> = x"
  by (cases x) simp

lemma zput_same: "z < length (zn st) \<Longrightarrow> z_lock (zn st ! z) = lk \<Longrightarrow> zput z lk (z_free (zn st ! z)) (zp st) st = st"
  unfolding zput_def by (subst same_zone) simp_all

lemma update_order: "st\<lparr>zp := ps, zn := xs\<rparr> = st\<lparr>zn := xs, zp := ps\<rparr>" "x\<lparr>z_free := fr, z_lock := lk\<rparr> = x\<lparr>z_lock := lk, z_free := fr\<rparr>"
  by simp_all

lemma zput_ops:
  assumes "z < length (zn st)"
  shows "zone_at (zput z lk fr ps st) z = Some ((zn st ! z)\<lparr>z_lock := lk, z_free := fr\<rparr>)"
    and "page_at (zput z lk fr ps st) i = (if i < length ps then Some (ps ! i) else None)"
    and "i < length ps \<Longrightarrow> set_page i f (zput z lk fr ps st) = Some (zput z lk fr (ps[i := f (ps ! i)]) st)"
    and "set_zone z (\<lambda>x. x\<lparr>z_free := z_free x - 1\<rparr>) (zput z lk fr ps st) = Some (zput z lk (fr - 1) ps st)"
    and "set_zone z (\<lambda>x. x\<lparr>z_free := z_free x + 1\<rparr>) (zput z lk fr ps st) = Some (zput z lk (fr + 1) ps st)"
    and "mm_zone_unlock cpu z (zput z (locked_by cpu) fr ps st) = Some (zput z spin_unlocked fr ps st)"
  using assms by (simp_all add: zput_def zone_at_def page_at_def set_page_def set_zone_def mm_zone_unlock_def update_order)

lemma zone_lock_ok:
  assumes "z < length (zn st)" and "z_lock (zn st ! z) = spin_unlocked"
  shows "mm_zone_lock cpu z st = Some (zput z (locked_by cpu) (z_free (zn st ! z)) (zp st) st)"
  using assms by (simp add: mm_zone_lock_def zone_at_def set_zone_def zput_def)

lemma zone_valid_ok:
  assumes "z < length (zn st)"
  shows "mm_zone_isvalid cpu z (zput z (locked_by cpu) fr ps st) = Some (z_flags (zn st ! z) AND MM_ZONE_VALID \<noteq> 0)"
  using assms by (simp add: mm_zone_isvalid_def zput_ops spin_assert_lock_def spin_holding_def)

text \<open>The facts that the invariant gives of the two zones.\<close>

lemma zone_invD:
  assumes "zone_inv st" and "z < 2"
  shows "z < length (zn st)" "zone_ok (zp st) z (zn st ! z)" "z_lock (zn st ! z) = spin_unlocked" "z_flags (zn st ! z) = MM_ZONE_VALID"
    "z_pages (zn st ! z) = (if z = 0 then 0 else 0x1000)" "z_start (zn st ! z) = (if z = 0 then 0 else 0x1000000)"
    "z_nrpages (zn st ! z) \<le> (if z = 0 then 0x1000 else 0xFD000)" "z_pages (zn st ! z) + unat (z_nrpages (zn st ! z)) \<le> length (zp st)"
proof -
  obtain x0 x1 x2 where x: "zn st = [x0, x1, x2]" "zone_ok (zp st) 0 x0" "zone_ok (zp st) 1 x1"
    "z_start x0 = 0" "z_pages x0 = 0" "z_nrpages x0 = 0x1000" "z_start x1 = 0x1000000" "z_pages x1 = 0x1000" "z_nrpages x1 \<le> 0xFD000"
    using assms(1) unfolding zone_inv_def by blast
  have "z = 0 \<or> z = 1" using assms(2) by auto
  then show "z < length (zn st)" "zone_ok (zp st) z (zn st ! z)" "z_lock (zn st ! z) = spin_unlocked" "z_flags (zn st ! z) = MM_ZONE_VALID"
    "z_pages (zn st ! z) = (if z = 0 then 0 else 0x1000)" "z_start (zn st ! z) = (if z = 0 then 0 else 0x1000000)"
    "z_nrpages (zn st ! z) \<le> (if z = 0 then 0x1000 else 0xFD000)" "z_pages (zn st ! z) + unat (z_nrpages (zn st ! z)) \<le> length (zp st)"
    using x by (auto simp: zone_ok_def)
qed

lemma lock_if_valid_ok:
  assumes "zone_inv st" and "z < 2"
  shows "lock_if_valid cpu z st = Some (Some z, zput z (locked_by cpu) (z_free (zn st ! z)) (zp st) st)"
  using zone_invD [OF assms] by (simp add: lock_if_valid_def zone_lock_ok zone_valid_ok)

lemma mm_zone_get_ok:
  assumes "zone_inv st" and "z < 2"
  shows "mm_zone_get cpu (int z) st = Some (Some z, zput z (locked_by cpu) (z_free (zn st ! z)) (zp st) st)"
  using zone_invD [OF assms] assms(2) by (simp add: mm_zone_get_def zone_lock_ok zone_valid_ok)

text \<open>Replacing one descriptor.\<close>

lemma free_in_update:
  assumes "i < unat (z_nrpages x)" and "z_pages x + unat (z_nrpages x) \<le> length ps"
  shows "free_in (ps[z_pages x + i := p]) x = (if ref_count p = 0 then insert i (free_in ps x) else free_in ps x - {i})"
  using assms by (auto simp: free_in_def nth_list_update)

lemma free_in_other:
  assumes "\<And>j. j < unat (z_nrpages x) \<Longrightarrow> k \<noteq> z_pages x + j"
  shows "free_in (ps[k := p]) x = free_in ps x"
  using assms by (auto simp: free_in_def nth_list_update_neq)

lemma finite_free_in [simp]: "finite (free_in ps x)"
  by (simp add: free_in_def)

definition free_change :: "page \<Rightarrow> page \<Rightarrow> u32" where
  "free_change old new = (if ref_count old = 0 \<and> ref_count new \<noteq> 0 then - 1 else if ref_count old \<noteq> 0 \<and> ref_count new = 0 then 1 else 0)"

lemma zone_ok_update:
  assumes ok: "zone_ok ps z x" and i: "i < unat (z_nrpages x)" and p: "ref_count p \<noteq> 0 \<Longrightarrow> page_zone p = int z"
  shows "zone_ok (ps[z_pages x + i := p]) z (x\<lparr>z_lock := spin_unlocked, z_free := z_free x + free_change (ps ! (z_pages x + i)) p\<rparr>)"
proof -
  have len: "z_pages x + unat (z_nrpages x) \<le> length ps" using ok by (simp add: zone_ok_def)
  let ?old = "ps ! (z_pages x + i)"
  have mem: "i \<in> free_in ps x \<longleftrightarrow> ref_count ?old = 0" using i by (simp add: free_in_def)
  have "free_in (ps[z_pages x + i := p]) (x\<lparr>z_lock := spin_unlocked, z_free := z_free x + free_change ?old p\<rparr>) =
    free_in (ps[z_pages x + i := p]) x" by (simp add: free_in_def)
  also have "\<dots> = (if ref_count p = 0 then insert i (free_in ps x) else free_in ps x - {i})" by (rule free_in_update [OF i len])
  also have "of_nat (card \<dots>) = (of_nat (card (free_in ps x)) + free_change ?old p :: u32)"
  proof -
    have "0 < card (free_in ps x)" if "i \<in> free_in ps x" using that card_gt_0_iff finite_free_in by blast
    then show ?thesis using mem by (auto simp: free_change_def insert_absorb of_nat_diff)
  qed
  finally show ?thesis using ok i p len by (auto simp: zone_ok_def nth_list_update)
qed

lemma zone_ok_other:
  assumes "zone_ok ps z x" and "\<And>j. j < unat (z_nrpages x) \<Longrightarrow> k \<noteq> z_pages x + j"
  shows "zone_ok (ps[k := p]) z x"
  using assms free_in_other [OF assms(2)] by (auto simp: zone_ok_def nth_list_update_neq)

lemma zone_inv_update:
  assumes inv: "zone_inv st" and z: "z < 2" and i: "i < unat (z_nrpages (zn st ! z))"
    and p: "ref_count p \<noteq> 0 \<Longrightarrow> page_zone p = int z" and p0: "z = 0 \<Longrightarrow> i = 0 \<Longrightarrow> ref_count p \<noteq> 0"
  shows "zone_inv (zput z spin_unlocked (z_free (zn st ! z) + free_change (zp st ! (z_pages (zn st ! z) + i)) p) ((zp st)[z_pages (zn st ! z) + i := p]) st)"
proof -
  obtain x0 x1 x2 where x: "zn st = [x0, x1, x2]" "zone_ok (zp st) 0 x0" "zone_ok (zp st) 1 x1"
    "z_start x0 = 0" "z_pages x0 = 0" "z_nrpages x0 = 0x1000" "z_start x1 = 0x1000000" "z_pages x1 = 0x1000" "z_nrpages x1 \<le> 0xFD000"
    "z_lock x2 = spin_unlocked" "ref_count (zp st ! 0) \<noteq> 0"
    using inv unfolding zone_inv_def by blast
  have len: "0x1000 \<le> length (zp st)" using x(2,5,6) by (simp add: zone_ok_def)
  consider (dma) "z = 0" | (norm) "z = 1" using z by linarith
  then show ?thesis
  proof cases
    case dma
    let ?ps = "(zp st)[z_pages x0 + i := p]" and ?f = "z_free x0 + free_change (zp st ! (z_pages x0 + i)) p"
    have a: "zone_ok ?ps 0 (x0\<lparr>z_lock := spin_unlocked, z_free := ?f\<rparr>)"
      using zone_ok_update [OF x(2)] i p dma x(1) by simp
    have b: "zone_ok ?ps 1 x1" using i dma x by (intro zone_ok_other) auto
    have l0: "0 < length (zp st)" using len by linarith
    have "ref_count (?ps ! 0) \<noteq> 0" using p0 [OF dma] x(5,11) l0 by (cases "i = 0") simp_all
    then show ?thesis using a b x dma unfolding zone_inv_def zput_def by simp
  next
    case norm
    let ?ps = "(zp st)[z_pages x1 + i := p]" and ?f = "z_free x1 + free_change (zp st ! (z_pages x1 + i)) p"
    have a: "zone_ok ?ps 1 (x1\<lparr>z_lock := spin_unlocked, z_free := ?f\<rparr>)"
      using zone_ok_update [OF x(3)] i p norm x(1) by simp
    have b: "zone_ok ?ps 0 x0" using x by (intro zone_ok_other) auto
    have "ref_count (?ps ! 0) \<noteq> 0" using x(8,11) by simp
    then show ?thesis using a b x norm unfolding zone_inv_def zput_def by simp
  qed
qed


section \<open>Operations on one page\<close>

lemma page_zone_with [simp]:
  assumes "z < 2"
  shows "page_zone (with_zone z p) = int z"
proof -
  have e: "(0xC00 :: u32) = push_bit 10 (mask 2)" "(3 :: u32) = mask 2" by (simp_all add: mask_eq_exp_minus_1)
  have "drop_bit 10 ((f AND NOT 0xC00) OR push_bit 10 (of_nat z AND 3)) AND 3 = (of_nat z AND 3 :: u32)" for f :: u32
    unfolding e by (rule bit_word_eqI) (auto simp: bit_simps)
  moreover have "(of_nat z AND 3 :: u32) = of_nat z" using assms by (auto simp: less_2_cases_iff)
  ultimately show ?thesis using assms by (auto simp: page_zone_def with_zone_def less_2_cases_iff)
qed

lemma find_run_1:
  assumes "z_pages x + unat (z_nrpages x) \<le> length (zp st)"
  shows "index \<le> unat (z_nrpages x) \<Longrightarrow>
    (if \<exists>j \<ge> index. j \<in> free_in (zp st) x then \<exists>j. find_run st x False 1 index 0 = Some (Some j) \<and> j \<in> free_in (zp st) x
     else find_run st x False 1 index 0 = Some None)"
proof (induction "unat (z_nrpages x) - index" arbitrary: index)
  case 0
  then have "\<not> (\<exists>j \<ge> index. j \<in> free_in (zp st) x)" by (auto simp: free_in_def)
  moreover have "find_run st x False 1 index 0 = Some None" using 0 by (subst find_run.simps) simp
  ultimately show ?case by simp
next
  case (Suc d)
  then have i: "index < unat (z_nrpages x)" "d = unat (z_nrpages x) - Suc index" by auto
  have pg: "page_at st (z_pages x + index) = Some (zp st ! (z_pages x + index))" using i(1) assms by (simp add: page_at_def)
  show ?case
  proof (cases "ref_count (zp st ! (z_pages x + index)) = 0")
    case True
    then have "index \<in> free_in (zp st) x" using i(1) by (simp add: free_in_def)
    moreover have "find_run st x False 1 index 0 = Some (Some index)" using i(1) pg True by (subst find_run.simps) simp
    ultimately show ?thesis by auto
  next
    case False
    then have "find_run st x False 1 index 0 = find_run st x False 1 (Suc index) 0" using i(1) pg by (subst find_run.simps) simp
    moreover have "(\<exists>j \<ge> index. j \<in> free_in (zp st) x) \<longleftrightarrow> (\<exists>j \<ge> Suc index. j \<in> free_in (zp st) x)"
    proof
      assume "\<exists>j \<ge> index. j \<in> free_in (zp st) x"
      then obtain j where "index \<le> j" "j \<in> free_in (zp st) x" by blast
      moreover have "j \<noteq> index" using calculation(2) False by (auto simp: free_in_def)
      ultimately show "\<exists>j \<ge> Suc index. j \<in> free_in (zp st) x" by (metis Suc_leI le_neq_implies_less)
    qed (meson Suc_leD)
    ultimately show ?thesis using Suc.hyps(1) [OF i(2)] i(1) by simp
  qed
qed

lemma sint_below: "(x :: u32) \<le> 0xFD000 \<Longrightarrow> sint x = int (unat x)"
proof -
  assume "x \<le> 0xFD000"
  then have "uint x \<le> 0xFD000" by (simp add: word_le_def)
  then have "take_bit 31 (uint x) = uint x" "\<not> bit (uint x) 31" by (simp_all add: take_bit_int_eq_self_iff bit_iff_odd div_pos_pos_trivial)
  then show ?thesis by (simp add: sint_uint signed_take_bit_eq_if_positive)
qed

lemma page_address_ok:
  assumes inv: "zone_inv st" and z: "z < 2" and i: "i < unat (z_nrpages (zn st ! z))" and pz: "page_zone (zp st ! (z_pages (zn st ! z) + i)) = int z"
  shows "page_address cpu (Some (z_pages (zn st ! z) + i)) st = Some (z_start (zn st ! z) + of_nat i * 0x1000, st)"
proof -
  note d = zone_invD [OF inv z]
  have "page_at st (z_pages (zn st ! z) + i) = Some (zp st ! (z_pages (zn st ! z) + i))" using d(8) i by (simp add: page_at_def)
  moreover have "sint (z_nrpages (zn st ! z)) = int (unat (z_nrpages (zn st ! z)))"
    using d(7) by (intro sint_below) (auto simp: word_le_nat_alt split: if_splits)
  moreover have "int i < int (unat (z_nrpages (zn st ! z)))" using i by (simp only: of_nat_less_iff)
  then have "\<not> uint (z_nrpages (zn st ! z)) < int i" by simp
  ultimately show ?thesis
    using pz by (simp add: page_address_def mm_zone_get_ok [OF inv z] zput_ops [OF d(1)] zput_same [OF d(1,3)] Let_def)
qed

lemma alloc_page_ok:
  assumes inv: "zone_inv st" and z: "z = 1"
  shows "if free_in (zp st) (zn st ! z) = {} then alloc_pages E cpu 2 0 st = Some (None, st)
    else \<exists>i \<in> free_in (zp st) (zn st ! z). alloc_pages E cpu 2 0 st = Some (Some (0x1000 + i),
      zput z spin_unlocked (z_free (zn st ! z) - 1) ((zp st)[0x1000 + i := (with_zone z (zp st ! (0x1000 + i)))\<lparr>ref_count := 1\<rparr>]) st)"
proof -
  have z2: "z < 2" using z by simp
  note d = zone_invD [OF inv z2]
  let ?st = "zput z (locked_by cpu) (z_free (zn st ! z)) (zp st) st"
  have g: "mm_zone_get cpu 1 st = Some (Some z, ?st)" using mm_zone_get_ok [OF inv z2, of cpu] z by simp
  obtain x where x: "zone_at ?st z = Some x" "z_pages x = 0x1000" "z_nrpages x = z_nrpages (zn st ! z)"
    using zput_ops(1) [OF d(1)] d(5) z by simp
  have zs: "zp ?st = zp st" by (simp add: zput_def)
  have fi: "free_in ps x = free_in ps (zn st ! z)" for ps using x d(5) z by (simp add: free_in_def)
  have f: "if free_in (zp st) (zn st ! z) = {} then find_run ?st x False 1 0 0 = Some None
    else \<exists>j. find_run ?st x False 1 0 0 = Some (Some j) \<and> j \<in> free_in (zp st) (zn st ! z)"
  proof -
    have "z_pages x + unat (z_nrpages x) \<le> length (zp ?st)" unfolding zs using d(5,8) x(2,3) z by simp
    note r = find_run_1 [OF this, of 0, unfolded zs fi]
    have "(\<exists>j \<ge> 0. j \<in> free_in (zp st) (zn st ! z)) \<longleftrightarrow> free_in (zp st) (zn st ! z) \<noteq> {}" by auto
    then show ?thesis using r by (cases "free_in (zp st) (zn st ! z) = {}") (simp_all only: le0 if_True if_False simp_thms)
  qed
  show ?thesis
  proof (cases "free_in (zp st) (zn st ! z) = {}")
    case True
    then have "alloc_pages E cpu 2 0 st = Some (None, zput z spin_unlocked (z_free (zn st ! z)) (zp st) st)"
      using f g x(1) zput_ops(6) [OF d(1)] by (simp add: alloc_pages_def)
    then show ?thesis using True zput_same [OF d(1,3)] by simp
  next
    case False
    then obtain j where j: "find_run ?st x False 1 0 0 = Some (Some j)" "j \<in> free_in (zp st) (zn st ! z)"
      using f by auto
    have "ref_count (zp st ! (0x1000 + j)) = 0" "0x1000 + j < length (zp st)" using j(2) d(5,8) z by (auto simp: free_in_def)
    then have "alloc_pages E cpu 2 0 st = Some (Some (0x1000 + j),
      zput z spin_unlocked (z_free (zn st ! z) - 1) ((zp st)[0x1000 + j := (with_zone z (zp st ! (0x1000 + j)))\<lparr>ref_count := 1\<rparr>]) st)"
      using j(1) g x(1,2) zput_ops(3,4,6) [OF d(1)] by (simp add: alloc_pages_def Let_def)
    then show ?thesis using False j(2) by auto
  qed
qed

text \<open>The effect of an operation on the descriptor of page \<open>i\<close> of zone \<open>z\<close>.\<close>

definition page_to :: "nat \<Rightarrow> nat \<Rightarrow> page \<Rightarrow> zones \<Rightarrow> zones" where
  "page_to z i p st = zput z spin_unlocked (z_free (zn st ! z) + free_change (zp st ! (z_pages (zn st ! z) + i)) p)
     ((zp st)[z_pages (zn st ! z) + i := p]) st"

definition page_of :: "zones \<Rightarrow> nat \<Rightarrow> nat \<Rightarrow> page" where
  "page_of st z i = zp st ! (z_pages (zn st ! z) + i)"

lemma page_to_facts:
  assumes "zone_inv st" and "z < 2" and "i < unat (z_nrpages (zn st ! z))"
  shows "page_of (page_to z i p st) z j = (if j = i then p else page_of st z j)"
    "z_nrpages (zn (page_to z i p st) ! y) = z_nrpages (zn st ! y)" "z_pages (zn (page_to z i p st) ! y) = z_pages (zn st ! y)"
    "z_start (zn (page_to z i p st) ! y) = z_start (zn st ! y)"
proof -
  note d = zone_invD [OF assms(1,2)]
  show "z_nrpages (zn (page_to z i p st) ! y) = z_nrpages (zn st ! y)" "z_pages (zn (page_to z i p st) ! y) = z_pages (zn st ! y)"
    "z_start (zn (page_to z i p st) ! y) = z_start (zn st ! y)" for y
    using d(1) by (simp_all add: page_to_def zput_def nth_list_update)
  then show "page_of (page_to z i p st) z j = (if j = i then p else page_of st z j)"
    using d(8) assms(3) by (simp add: page_of_def) (simp add: page_to_def zput_def nth_list_update)
qed

lemma mm_alloc_ok:
  assumes inv: "zone_inv st" and z: "z = 1"
  shows "if free_in (zp st) (zn st ! z) = {} then mm_alloc E cpu st = Some (0, st)
    else \<exists>i p. i < unat (z_nrpages (zn st ! z)) \<and> ref_count (page_of st z i) = 0 \<and> ref_count p = 1 \<and>
      mm_alloc E cpu st = Some (0x1000000 + of_nat i * 0x1000, page_to z i p st) \<and> zone_inv (page_to z i p st)"
proof (cases "free_in (zp st) (zn st ! z) = {}")
  case True
  then have "alloc_pages E cpu 2 0 st = Some (None, st)" using alloc_page_ok [OF inv z, of E cpu] by simp
  then show ?thesis using True by (simp add: mm_alloc_def get_free_page_def get_free_pages_def page_address_def)
next
  case False
  have z2: "z < 2" using z by simp
  note d = zone_invD [OF inv z2]
  let ?p = "\<lambda>i. (with_zone z (zp st ! (0x1000 + i)))\<lparr>ref_count := 1\<rparr>"
  from False alloc_page_ok [OF inv z, of E cpu] obtain i where i: "i \<in> free_in (zp st) (zn st ! z)"
    "alloc_pages E cpu 2 0 st = Some (Some (0x1000 + i), zput z spin_unlocked (z_free (zn st ! z) - 1) ((zp st)[0x1000 + i := ?p i]) st)"
    by (simp only: if_False) blast
  have b: "z_pages (zn st ! z) = 0x1000" "z_start (zn st ! z) = 0x1000000" using d(5,6) z by simp_all
  have n: "i < unat (z_nrpages (zn st ! z))" and r: "ref_count (page_of st z i) = 0" using i(1) by (auto simp: free_in_def page_of_def)
  have pz: "page_zone (?p i) = int z" using page_zone_with [OF z2] by (simp add: page_zone_def)
  have fc: "free_change (zp st ! (0x1000 + i)) (?p i) = - 1" using r b by (simp add: free_change_def page_of_def)
  have e: "alloc_pages E cpu 2 0 st = Some (Some (z_pages (zn st ! z) + i), page_to z i (?p i) st)"
    using i(2) unfolding page_to_def b fc by simp
  have inv': "zone_inv (page_to z i (?p i) st)" unfolding page_to_def using zone_inv_update [OF inv z2 n, of "?p i"] pz z by simp
  note pt = page_to_facts [OF inv z2 n]
  have n': "i < unat (z_nrpages (zn (page_to z i (?p i) st) ! z))" using n pt(2) by simp
  have "page_zone (zp (page_to z i (?p i) st) ! (z_pages (zn (page_to z i (?p i) st) ! z) + i)) = int z"
    using pt(1) [of "?p i" i] pz by (simp add: page_of_def)
  from page_address_ok [OF inv' z2 n' this, of cpu]
  have "page_address cpu (Some (z_pages (zn st ! z) + i)) (page_to z i (?p i) st) = Some (0x1000000 + of_nat i * 0x1000, page_to z i (?p i) st)"
    unfolding pt b .
  then have "mm_alloc E cpu st = Some (0x1000000 + of_nat i * 0x1000, page_to z i (?p i) st)"
    using e by (simp add: mm_alloc_def get_free_page_def get_free_pages_def)
  then show ?thesis using False n r inv' by (auto intro!: exI [of _ i] exI [of _ "?p i"])
qed


section \<open>Operations on an address\<close>

text \<open>The zone of a frame and its index there.\<close>

definition frame_zone :: "zones \<Rightarrow> nat \<Rightarrow> (nat \<times> nat) option" where
  "frame_zone st f = (if f < 0x1000 then Some (0, f) else if f < 0x1000 + unat (z_nrpages (zn st ! 1)) then Some (1, f - 0x1000) else None)"

lemma frame_zone_facts:
  assumes "zone_inv st" and "frame_zone st f = Some (z, i)"
  shows "z < 2" "i < unat (z_nrpages (zn st ! z))" "f = (if z = 0 then i else 0x1000 + i)"
proof -
  have "z_nrpages (zn st ! 0) = 0x1000" using assms(1) unfolding zone_inv_def by auto
  then show "z < 2" "i < unat (z_nrpages (zn st ! z))" "f = (if z = 0 then i else 0x1000 + i)"
    using assms(2) by (auto simp: frame_zone_def split: if_splits)
qed

lemma zone_end:
  assumes "zone_inv st"
  shows "unat (z_start (zn st ! 1) + z_nrpages (zn st ! 1) * 0x1000) = 0x1000000 + unat (z_nrpages (zn st ! 1)) * 0x1000"
    and "unat (z_nrpages (zn st ! 1)) \<le> 0xFD000"
proof -
  note d = zone_invD [OF assms, of 1]
  show n: "unat (z_nrpages (zn st ! 1)) \<le> 0xFD000" using d(7) by (simp add: word_le_nat_alt)
  have "unat (z_nrpages (zn st ! 1) * 0x1000) = unat (z_nrpages (zn st ! 1)) * 0x1000" using n by (simp add: unat_word_ariths)
  then show "unat (z_start (zn st ! 1) + z_nrpages (zn st ! 1) * 0x1000) = 0x1000000 + unat (z_nrpages (zn st ! 1)) * 0x1000"
    using n d(6) by (simp add: unat_word_ariths(1))
qed

lemma get_mmzone_frame:
  assumes inv: "zone_inv st" and f: "f < MAXFRAMES"
  shows "get_mmzone cpu (frame_addr f) 0x1000 st = (case frame_zone st f of
      None \<Rightarrow> Some (None, st)
    | Some (z, i) \<Rightarrow> Some (Some z, zput z (locked_by cpu) (z_free (zn st ! z)) (zp st) st))"
proof -
  note d0 = zone_invD [OF inv, of 0] and d1 = zone_invD [OF inv, of 1]
  have a: "unat (frame_addr f) = f * 0x1000" using f by (rule unat_frame_addr)
  have "unat (frame_addr f + 0xFFF) = f * 0x1000 + 0xFFF" using a f by (simp add: unat_word_ariths)
  then have c: "frame_addr f + 0xFFF < 0x1000000 \<longleftrightarrow> f < 0x1000"
    "frame_addr f + 0xFFF < z_start (zn st ! 1) + z_nrpages (zn st ! 1) * 0x1000 \<longleftrightarrow> f < 0x1000 + unat (z_nrpages (zn st ! 1))"
    "0x1000000 \<le> frame_addr f \<longleftrightarrow> 0x1000 \<le> f"
    using a unfolding word_less_nat_alt word_le_nat_alt zone_end(1) [OF inv] by auto
  have z: "zone_at st 0 = Some (zn st ! 0)" "zone_at st 1 = Some (zn st ! 1)" using d1(1) by (auto simp: zone_at_def)
  have "(0x1000 :: u32) - 1 = 0xFFF" "z_start (zn st ! 0) = 0" using d0(6) by simp_all
  then have "get_mmzone cpu (frame_addr f) 0x1000 st =
    (if f < 0x1000 then lock_if_valid cpu 0 st else if f < 0x1000 + unat (z_nrpages (zn st ! 1)) then lock_if_valid cpu 1 st else Some (None, st))"
    unfolding get_mmzone_def z bind.bind_lunit using c by simp
  then show ?thesis using lock_if_valid_ok [OF inv, of 0 cpu] lock_if_valid_ok [OF inv, of 1 cpu] by (simp add: frame_zone_def)
qed

lemma frame_index:
  assumes inv: "zone_inv st" and f: "f < MAXFRAMES" and z: "frame_zone st f = Some (z, i)"
  shows "unat ((frame_addr f - z_start (zn st ! z)) div 0x1000) = i"
proof -
  note ff = frame_zone_facts [OF inv z]
  have a: "unat (frame_addr f) = f * 0x1000" using f by (rule unat_frame_addr)
  have s: "unat (z_start (zn st ! z)) = (if z = 0 then 0 else 0x1000000)" using zone_invD(6) [OF inv ff(1)] by simp
  then have "z_start (zn st ! z) \<le> frame_addr f" using a ff(3) by (simp add: word_le_nat_alt)
  then have "unat (frame_addr f - z_start (zn st ! z)) = f * 0x1000 - (if z = 0 then 0 else 0x1000000)" using a s by (simp add: unat_sub)
  also have "\<dots> = i * 0x1000" using ff(3) by auto
  finally show ?thesis by (simp add: unat_div)
qed

text \<open>The descriptor after a reference is dropped.\<close>

definition dropped :: "page \<Rightarrow> page" where
  "dropped p = (if ref_count p = 0 then p else if ref_count p = 1 then page_reset (p\<lparr>ref_count := 0\<rparr>) else p\<lparr>ref_count := ref_count p - 1\<rparr>)"

lemma ref_count_dropped: "ref_count (dropped p) = (if ref_count p = 0 then 0 else ref_count p - 1)"
  by (simp add: dropped_def page_reset_def)

lemma page_to_same: "zone_inv st \<Longrightarrow> z < 2 \<Longrightarrow> page_to z i (page_of st z i) st = st"
  using zput_same [OF zone_invD(1,3)] by (simp add: page_to_def page_of_def free_change_def)

lemma mm_free_ok:
  assumes inv: "zone_inv st" and f: "f < MAXFRAMES" "f \<noteq> 0"
  shows "mm_free cpu (frame_addr f) st = Some (case frame_zone st f of None \<Rightarrow> st | Some (z, i) \<Rightarrow> page_to z i (dropped (page_of st z i)) st)"
    and "zone_inv (case frame_zone st f of None \<Rightarrow> st | Some (z, i) \<Rightarrow> page_to z i (dropped (page_of st z i)) st)"
proof -
  have nz: "frame_addr f \<noteq> 0" using unat_frame_addr [OF f(1)] f(2) by auto
  have "mm_free cpu (frame_addr f) st = Some (case frame_zone st f of None \<Rightarrow> st | Some (z, i) \<Rightarrow> page_to z i (dropped (page_of st z i)) st) \<and>
    zone_inv (case frame_zone st f of None \<Rightarrow> st | Some (z, i) \<Rightarrow> page_to z i (dropped (page_of st z i)) st)"
  proof (cases "frame_zone st f")
    case None
    then show ?thesis using get_mmzone_frame [OF inv f(1), of cpu] nz inv by (simp add: mm_free_def page_put_at_def pages_put_at_def)
  next
    case (Some zi)
    obtain z i where zi: "zi = (z, i)" by (cases zi)
    note fz = Some [unfolded zi]
    note ff = frame_zone_facts [OF inv fz]
    note d = zone_invD [OF inv ff(1)]
    let ?k = "z_pages (zn st ! z) + i" and ?p = "page_of st z i" and ?st = "zput z (locked_by cpu) (z_free (zn st ! z)) (zp st) st"
    have k: "?k < length (zp st)" using ff(2) d(8) by simp
    have p: "zp st ! ?k = ?p" by (simp add: page_of_def)
    obtain x where x: "zone_at ?st z = Some x" "z_pages x = z_pages (zn st ! z)" "z_start x = z_start (zn st ! z)" using zput_ops(1) [OF d(1)] by simp
    have "put_pages z ?k 1 ?st = Some (zput z (locked_by cpu) (z_free (zn st ! z) + free_change ?p (dropped ?p)) ((zp st)[?k := dropped ?p]) st)"
    proof -
      consider "ref_count ?p = 0" | "ref_count ?p = 1" | "ref_count ?p \<noteq> 0" "ref_count ?p \<noteq> 1" by blast
      then show ?thesis
      proof cases
        case 1
        have u: "(zp st)[?k := ?p] = zp st" using p by (metis list_update_id)
        show ?thesis using 1 k p u by (simp add: zput_ops [OF d(1)] dropped_def free_change_def One_nat_def)
      next
        case 2
        then show ?thesis using k p by (simp add: zput_ops [OF d(1)] dropped_def free_change_def page_reset_def)
      next
        case 3
        then have "ref_count ?p - 1 \<noteq> 0" by simp
        then show ?thesis using 3 k p by (simp add: zput_ops [OF d(1)] dropped_def free_change_def)
      qed
    qed
    then have "mm_free cpu (frame_addr f) st = Some (page_to z i (dropped ?p) st)"
      using get_mmzone_frame [OF inv f(1), of cpu] fz nz x frame_index [OF inv f(1) fz] zput_ops(6) [OF d(1)] p
      by (simp add: mm_free_def page_put_at_def pages_put_at_def page_to_def del: put_pages.simps)
    moreover have "zone_inv (page_to z i (dropped ?p) st)"
      unfolding page_to_def
    proof (rule zone_inv_update [OF inv ff(1,2)])
      assume "ref_count (dropped ?p) \<noteq> 0"
      then have r: "ref_count ?p \<noteq> 0" "ref_count ?p \<noteq> 1" by (auto simp: ref_count_dropped)
      then have "page_zone (dropped ?p) = page_zone ?p" by (simp add: dropped_def page_zone_def)
      then show "page_zone (dropped ?p) = int z" using d(2) ff(2) r(1) by (simp add: zone_ok_def page_of_def)
    next
      assume "z = 0" "i = 0"
      then show "ref_count (dropped ?p) \<noteq> 0" using ff(3) f(2) by simp
    qed
    ultimately show ?thesis using fz by simp
  qed
  then show "mm_free cpu (frame_addr f) st = Some (case frame_zone st f of None \<Rightarrow> st | Some (z, i) \<Rightarrow> page_to z i (dropped (page_of st z i)) st)"
    and "zone_inv (case frame_zone st f of None \<Rightarrow> st | Some (z, i) \<Rightarrow> page_to z i (dropped (page_of st z i)) st)" by blast+
qed

lemma page_incr_ok:
  assumes inv: "zone_inv st" and f: "f < MAXFRAMES" "f \<noteq> 0" and fz: "frame_zone st f = Some (z, i)"
    and r: "ref_count (page_of st z i) \<noteq> 0" "ref_count (page_of st z i) \<noteq> - 1"
  shows "page_incr_at cpu (frame_addr f) st = Some (sint (ref_count (page_of st z i)),
      page_to z i ((page_of st z i)\<lparr>ref_count := ref_count (page_of st z i) + 1\<rparr>) st)"
    and "zone_inv (page_to z i ((page_of st z i)\<lparr>ref_count := ref_count (page_of st z i) + 1\<rparr>) st)"
proof -
  have nz: "frame_addr f \<noteq> 0" using unat_frame_addr [OF f(1)] f(2) by auto
  note ff = frame_zone_facts [OF inv fz]
  note d = zone_invD [OF inv ff(1)]
  let ?k = "z_pages (zn st ! z) + i" and ?p = "page_of st z i" and ?st = "zput z (locked_by cpu) (z_free (zn st ! z)) (zp st) st"
  let ?q = "?p\<lparr>ref_count := ref_count ?p + 1\<rparr>"
  have k: "?k < length (zp st)" using ff(2) d(8) by simp
  have p: "zp st ! ?k = ?p" by (simp add: page_of_def)
  have r1: "ref_count ?p + 1 \<noteq> 0" using r(2) by (simp add: add_eq_0_iff2)
  obtain x where x: "zone_at ?st z = Some x" "z_pages x = z_pages (zn st ! z)" "z_start x = z_start (zn st ! z)" using zput_ops(1) [OF d(1)] by simp
  show "page_incr_at cpu (frame_addr f) st = Some (sint (ref_count ?p), page_to z i ?q st)"
    using get_mmzone_frame [OF inv f(1), of cpu] fz nz x frame_index [OF inv f(1) fz] zput_ops(2,3,6) [OF d(1)] p k r(1) r1
    by (simp add: page_incr_at_def page_to_def free_change_def Let_def)
  show "zone_inv (page_to z i ?q st)"
    unfolding page_to_def
  proof (rule zone_inv_update [OF inv ff(1,2)])
    have "page_zone ?q = page_zone ?p" by (simp add: page_zone_def)
    then show "page_zone ?q = int z" using d(2) ff(2) r(1) by (simp add: zone_ok_def page_of_def)
    show "ref_count ?q \<noteq> 0" using r1 by simp
  qed
qed


section \<open>The contract of an allocator\<close>

lemma free_in_page_of: "i \<in> free_in (zp st) (zn st ! z) \<longleftrightarrow> i < unat (z_nrpages (zn st ! z)) \<and> ref_count (page_of st z i) = 0"
  by (simp add: free_in_def page_of_def)

definition zone_avail :: "zones \<Rightarrow> u32 set" where
  "zone_avail st = (\<lambda>i. frame_addr (0x1000 + i)) ` {i. i < unat (z_nrpages (zn st ! 1)) \<and> ref_count (page_of st 1 i) = 0}"

definition zone_owned :: "zones \<Rightarrow> u32 set" where
  "zone_owned st = (\<lambda>i. frame_addr (0x1000 + i)) ` {i. i < unat (z_nrpages (zn st ! 1)) \<and> ref_count (page_of st 1 i) = 1}"

lemma norm_frame:
  assumes "zone_inv st" and "i < unat (z_nrpages (zn st ! 1))"
  shows "0x1000 + i < MAXFRAMES" "frame_zone st (0x1000 + i) = Some (1, i)"
  using zone_end(2) [OF assms(1)] assms(2) by (simp_all add: frame_zone_def)

lemma norm_addr: "0x1000000 + of_nat i * 0x1000 = frame_addr (0x1000 + i)"
  by (simp add: frame_addr_def algebra_simps)

lemma norm_addr_inj:
  assumes "zone_inv st"
  shows "inj_on (\<lambda>i. frame_addr (0x1000 + i)) {..<unat (z_nrpages (zn st ! 1))}"
proof (rule inj_onI)
  fix i j assume "i \<in> {..<unat (z_nrpages (zn st ! 1))}" "j \<in> {..<unat (z_nrpages (zn st ! 1))}" "frame_addr (0x1000 + i) = frame_addr (0x1000 + j)"
  then show "i = j" using frame_addr_eq [OF norm_frame(1) [OF assms, of i] norm_frame(1) [OF assms, of j]] by simp
qed

lemma image_update:
  assumes "inj_on g {..<n}" and "i < (n :: nat)"
  shows "g ` {j. j < n \<and> P (if j = i then p else q j)} = (if P p then insert (g i) (g ` {j. j < n \<and> P (q j)}) else g ` {j. j < n \<and> P (q j)} - {g i})"
proof -
  have "g j = g i \<longleftrightarrow> j = i" if "j < n" for j using assms that by (auto dest: inj_onD)
  then show ?thesis using assms(2) by (auto split: if_splits)
qed

lemma page_to_sets:
  assumes inv: "zone_inv st" and i: "i < unat (z_nrpages (zn st ! 1))"
  shows "zone_avail (page_to 1 i p st) = (if ref_count p = 0 then insert (frame_addr (0x1000 + i)) (zone_avail st) else zone_avail st - {frame_addr (0x1000 + i)})"
    and "zone_owned (page_to 1 i p st) = (if ref_count p = 1 then insert (frame_addr (0x1000 + i)) (zone_owned st) else zone_owned st - {frame_addr (0x1000 + i)})"
proof -
  have "(1 :: nat) < 2" by simp
  note pt = page_to_facts [OF inv this i]
  note im = image_update [OF norm_addr_inj [OF inv] i, of _ p "page_of st 1"]
  show "zone_avail (page_to 1 i p st) = (if ref_count p = 0 then insert (frame_addr (0x1000 + i)) (zone_avail st) else zone_avail st - {frame_addr (0x1000 + i)})"
    unfolding zone_avail_def pt(1,2) by (rule im [of "\<lambda>p. ref_count p = 0"])
  show "zone_owned (page_to 1 i p st) = (if ref_count p = 1 then insert (frame_addr (0x1000 + i)) (zone_owned st) else zone_owned st - {frame_addr (0x1000 + i)})"
    unfolding zone_owned_def pt(1,2) by (rule im [of "\<lambda>p. ref_count p = 1"])
qed

interpretation zone_allocator: allocator zone_inv zone_avail zone_owned 0 "mm_alloc E cpu" "mm_free cpu" for E cpu
proof
  fix st assume inv: "zone_inv st" and "zone_avail st \<noteq> {}"
  then have "free_in (zp st) (zn st ! 1) \<noteq> {}" by (auto simp: zone_avail_def free_in_page_of)
  with mm_alloc_ok [OF inv refl, of E cpu] obtain i p where i: "i < unat (z_nrpages (zn st ! 1))" "ref_count (page_of st 1 i) = 0" "ref_count p = 1"
    "mm_alloc E cpu st = Some (frame_addr (0x1000 + i), page_to 1 i p st)" "zone_inv (page_to 1 i p st)"
    unfolding norm_addr by (simp only: if_False) blast
  have "frame_addr (0x1000 + i) \<in> zone_avail st" using i(1,2) by (auto simp: zone_avail_def)
  then show "\<exists>a st'. mm_alloc E cpu st = Some (a, st') \<and> zone_inv st' \<and> a \<in> zone_avail st \<and>
      zone_avail st' = zone_avail st - {a} \<and> a \<in> zone_owned st' \<and> zone_owned st \<subseteq> zone_owned st'"
    using i page_to_sets [OF inv i(1), of p] by auto
next
  fix st assume inv: "zone_inv st" and e: "zone_avail st = {}"
  then have "free_in (zp st) (zn st ! 1) = {}" by (auto simp: zone_avail_def free_in_page_of)
  then show "\<exists>st'. mm_alloc E cpu st = Some (0, st') \<and> zone_inv st' \<and> zone_avail st' = {}"
    using mm_alloc_ok [OF inv refl, of E cpu] inv e by simp
next
  fix a st assume inv: "zone_inv st" and "a \<in> zone_owned st"
  then obtain i where i: "a = frame_addr (0x1000 + i)" "i < unat (z_nrpages (zn st ! 1))" "ref_count (page_of st 1 i) = 1"
    by (auto simp: zone_owned_def)
  note nf = norm_frame [OF inv i(2)]
  have r: "ref_count (dropped (page_of st 1 i)) = 0" using i(3) by (simp add: ref_count_dropped)
  have "mm_free cpu a st = Some (page_to 1 i (dropped (page_of st 1 i)) st)" "zone_inv (page_to 1 i (dropped (page_of st 1 i)) st)"
    using mm_free_ok(1) [OF inv nf(1), of cpu] mm_free_ok(2) [OF inv nf(1)] nf(2) i(1) by simp_all
  then show "\<exists>st'. mm_free cpu a st = Some st' \<and> zone_inv st' \<and> zone_avail st' = insert a (zone_avail st) \<and> zone_owned st - {a} \<subseteq> zone_owned st'"
    using page_to_sets [OF inv i(2), of "dropped (page_of st 1 i)"] r i(1) by simp
next
  fix st assume inv: "zone_inv st"
  show "0 \<notin> zone_avail st"
  proof
    assume "0 \<in> zone_avail st"
    then obtain i where "i < unat (z_nrpages (zn st ! 1))" "frame_addr (0x1000 + i) = 0" by (auto simp: zone_avail_def)
    then show False using unat_frame_addr [OF norm_frame(1) [OF inv, of i]] by simp
  qed
qed


section \<open>Properties\<close>

text \<open>Zones in which all pages are in use but the first two of the second zone, which has three.\<close>

definition example_zone :: "u32 \<Rightarrow> u32 \<Rightarrow> nat \<Rightarrow> u32 \<Rightarrow> u32 \<Rightarrow> mm_zone" where
  "example_zone st fl ps nr fr = \<lparr>z_start = st, z_flags = fl, z_pages = ps, z_nrpages = nr, z_free = fr, z_lock = spin_unlocked\<rparr>"

definition example_zones :: zones where
  "example_zones =
    \<lparr>zn = [example_zone 0 0x10 0 0x1000 0, example_zone 0x1000000 0x10 0x1000 3 2, example_zone 0 0 0 0 0],
     zp = replicate 0x1000 (zero_descriptor\<lparr>ref_count := 1\<rparr>) @
       [zero_descriptor, zero_descriptor, zero_descriptor\<lparr>ref_count := 1, pg_flags := 0x400\<rparr>],
     zbase = 0, ztables = []\<rparr>"

definition example_zext :: zext where
  "example_zext = \<lparr>x_mount = (\<lambda>_ st. Some (0xE0000000, st)), x_memset = (\<lambda>_ st. Some st), x_unmount = (\<lambda>_ st. Some st),
     x_current = False, x_sleep = (\<lambda>_ st. Some st)\<rparr>"

lemma example_zones_pages:
  "i < 0x1000 \<Longrightarrow> zp example_zones ! i = zero_descriptor\<lparr>ref_count := 1\<rparr>"
  "zp example_zones ! 0x1000 = zero_descriptor" "zp example_zones ! 0x1001 = zero_descriptor"
  "zp example_zones ! 0x1002 = zero_descriptor\<lparr>ref_count := 1, pg_flags := 0x400\<rparr>" "length (zp example_zones) = 0x1003"
  by (simp_all add: example_zones_def nth_append)

lemma below_3: "(i :: nat) < 3 \<longleftrightarrow> i = 0 \<or> i = 1 \<or> i = 2"
  by auto

lemma example_zones_inv: "zone_inv example_zones"
proof -
  note pg = example_zones_pages
  let ?x0 = "example_zone 0 0x10 0 0x1000 0" and ?x1 = "example_zone 0x1000000 0x10 0x1000 3 2" and ?x2 = "example_zone 0 0 0 0 0"
  have z: "zn example_zones = [?x0, ?x1, ?x2]" by (simp add: example_zones_def)
  have x: "z_pages ?x0 = 0" "z_nrpages ?x0 = 0x1000" "z_pages ?x1 = 0x1000" "z_nrpages ?x1 = 3" "z_flags ?x0 = 0x10" "z_flags ?x1 = 0x10"
      "z_lock ?x0 = spin_unlocked" "z_lock ?x1 = spin_unlocked" "z_free ?x0 = 0" "z_free ?x1 = 2" "z_start ?x0 = 0" "z_start ?x1 = 0x1000000"
      "z_lock ?x2 = spin_unlocked"
    by (simp_all add: example_zone_def)
  have f0: "free_in (zp example_zones) ?x0 = {}" using x pg(1) by (auto simp: free_in_def)
  have f1: "free_in (zp example_zones) ?x1 = {0, 1}"
    using x pg by (auto simp: free_in_def below_3 zero_descriptor_def)
  have o0: "zone_ok (zp example_zones) 0 ?x0"
    using x pg(1,5) f0 by (simp add: zone_ok_def page_zone_def zero_descriptor_def)
  have o1: "zone_ok (zp example_zones) 1 ?x1"
    using x pg(2-5) f1 by (simp add: zone_ok_def below_3 page_zone_def zero_descriptor_def drop_bit_eq_div)
  have "ref_count (zp example_zones ! 0) \<noteq> 0" using pg(1) [of 0] by simp
  then show ?thesis unfolding zone_inv_def z using o0 o1 x by simp
qed

text \<open>C10. In every well-formed state of the zones \<^verbatim>\<open>mm_alloc\<close> returns, \<^verbatim>\<open>mm_free\<close> of any frame but frame 0 returns, and
  taking a further reference to a page in use returns unless its counter is at its maximum; each of them leaves a well-formed state:
  locks released, the count of free pages equal to the number of pages without references, and the zone number in
  every page in use.\<close>

theorem zone_ops_well_formed:
  assumes "zone_inv st" and "0 < f" and "f < MAXFRAMES"
  shows "(\<exists>a st'. mm_alloc E cpu st = Some (a, st') \<and> zone_inv st') \<and>
    (\<exists>st'. mm_free cpu (frame_addr f) st = Some st' \<and> zone_inv st') \<and>
    (\<forall>z i. frame_zone st f = Some (z, i) \<longrightarrow> ref_count (page_of st z i) \<noteq> 0 \<longrightarrow> ref_count (page_of st z i) \<noteq> - 1 \<longrightarrow>
      (\<exists>st'. page_incr_at cpu (frame_addr f) st = Some (sint (ref_count (page_of st z i)), st') \<and> zone_inv st'))"
proof -
  have f: "f \<noteq> 0" using assms(2) by simp
  have "\<exists>a st'. mm_alloc E cpu st = Some (a, st') \<and> zone_inv st'"
    using mm_alloc_ok [OF assms(1) refl, of E cpu] assms(1) by (auto split: if_splits)
  then show ?thesis using mm_free_ok [OF assms(1,3) f] page_incr_ok [OF assms(1,3) f] by blast
qed

theorem zone_ops_well_formed_witness:
  "(\<exists>a st'. mm_alloc example_zext 1 example_zones = Some (a, st') \<and> zone_inv st') \<and>
   (\<exists>st'. mm_free 1 (frame_addr 0x1002) example_zones = Some st' \<and> zone_inv st') \<and>
   (\<exists>st'. page_incr_at 1 (frame_addr 0x1002) example_zones = Some (1, st') \<and> zone_inv st')"
proof -
  have z: "frame_zone example_zones 0x1002 = Some (1, 2)" by (simp add: frame_zone_def example_zones_def example_zone_def)
  have "z_pages (zn example_zones ! 1) = 0x1000" by (simp add: example_zones_def example_zone_def)
  then have r: "ref_count (page_of example_zones 1 2) = 1" using example_zones_pages(4) by (simp add: page_of_def)
  from zone_ops_well_formed [OF example_zones_inv, of "0x1002" example_zext 1] z r show ?thesis by auto
qed

text \<open>C19. Consecutive allocations of single pages return different frames of the second zone.\<close>

theorem zone_alloc_distinct:
  assumes "zone_inv st" and "n \<le> card (zone_avail st)"
  shows "\<exists>as st'. iterate_get (mm_alloc E cpu) n st = Some (as, st') \<and> zone_inv st' \<and> length as = n \<and> distinct as \<and>
    set as \<subseteq> zone_avail st \<and> zone_avail st' = zone_avail st - set as"
proof -
  have "finite (zone_avail st)" by (simp add: zone_avail_def)
  then show ?thesis by (rule zone_allocator.allocs_distinct [OF assms(1) _ assms(2)])
qed

theorem zone_alloc_distinct_witness:
  "\<exists>a b st'. iterate_get (mm_alloc example_zext 1) 2 example_zones = Some ([a, b], st') \<and> zone_inv st' \<and> a \<noteq> b"
proof -
  have x: "z_pages (zn example_zones ! 1) = 0x1000" "z_nrpages (zn example_zones ! 1) = 3" by (simp_all add: example_zones_def example_zone_def)
  have "{i. i < unat (z_nrpages (zn example_zones ! 1)) \<and> ref_count (page_of example_zones 1 i) = 0} = {0, 1}"
    unfolding x page_of_def using example_zones_pages by (auto simp: below_3 zero_descriptor_def)
  then have "zone_avail example_zones = {frame_addr 0x1000, frame_addr 0x1001}" by (simp add: zone_avail_def)
  moreover have "frame_addr 0x1000 \<noteq> frame_addr 0x1001" by (simp add: frame_addr_eq)
  ultimately have "2 \<le> card (zone_avail example_zones)" by simp
  from zone_alloc_distinct [OF example_zones_inv this, of example_zext 1] obtain as st' where
    "iterate_get (mm_alloc example_zext 1) 2 example_zones = Some (as, st')" "zone_inv st'" "length as = 2" "distinct as" by blast
  then show ?thesis by (auto simp: length_Suc_conv numeral_2_eq_2)
qed

lemma find_run_skip:
  assumes "z_pages x + unat (z_nrpages x) \<le> length (zp st)"
  shows "i \<le> unat (z_nrpages x) \<Longrightarrow> (\<And>j. j < i \<Longrightarrow> ref_count (zp st ! (z_pages x + j)) \<noteq> 0) \<Longrightarrow>
    find_run st x rt n 0 0 = find_run st x rt n i 0"
proof (induction i)
  case (Suc i)
  have "page_at st (z_pages x + i) = Some (zp st ! (z_pages x + i))" using Suc.prems(1) assms by (simp add: page_at_def)
  then have "find_run st x rt n i 0 = find_run st x rt n (Suc i) 0" using Suc.prems(1) Suc.prems(2) [of i] by (subst find_run.simps) simp
  then show ?case using Suc by simp
qed simp

text \<open>C38. A request for two pages returns the second page of the first free pair: that page and the one after it are taken,
  whatever the state of the latter, and the first page of the pair stays free.\<close>

theorem alloc_pages_overlap:
  assumes "zone_inv st" and "i + 2 < unat (z_nrpages (zn st ! 1))" and "\<forall>j < i. ref_count (page_of st 1 j) \<noteq> 0"
    and "ref_count (page_of st 1 i) = 0" and "ref_count (page_of st 1 (i + 1)) = 0"
  shows "\<exists>st'. alloc_pages E cpu 2 1 st = Some (Some (0x1000 + (i + 1)), st') \<and> ref_count (page_of st' 1 i) = 0 \<and>
    ref_count (page_of st' 1 (i + 1)) = 1 \<and> ref_count (page_of st' 1 (i + 2)) = ref_count (page_of st 1 (i + 2)) + 1"
proof -
  obtain z :: nat where z: "z = 1" by simp
  have z2: "z < 2" using z by simp
  note inv = assms(1) and d = zone_invD [OF assms(1) z2]
  let ?st = "zput z (locked_by cpu) (z_free (zn st ! z)) (zp st) st"
  have g: "mm_zone_get cpu 1 st = Some (Some z, ?st)" using mm_zone_get_ok [OF inv z2, of cpu] z by simp
  obtain x where x: "zone_at ?st z = Some x" "z_pages x = 0x1000" "z_nrpages x = z_nrpages (zn st ! z)"
    using zput_ops(1) [OF d(1)] d(5) z by simp
  have b: "z_pages (zn st ! z) = 0x1000" using d(5) z by simp
  have zs: "zp ?st = zp st" by (simp add: zput_def)
  have n: "i + 2 < unat (z_nrpages x)" using assms(2) x(3) z by simp
  have len: "0x1000 + unat (z_nrpages x) \<le> length (zp st)" using d(8) b x(3) by simp
  have pg: "page_of st z j = zp st ! (0x1000 + j)" for j using b by (simp add: page_of_def)
  have r: "\<And>j. j < i \<Longrightarrow> ref_count (zp st ! (0x1000 + j)) \<noteq> 0" "ref_count (zp st ! (0x1000 + i)) = 0" "ref_count (zp st ! (0x1000 + (i + 1))) = 0"
    using assms(3-5) pg z by simp_all
  have "find_run ?st x False 2 0 0 = find_run ?st x False 2 i 0"
    using find_run_skip [of x ?st i] len n r(1) x(2) unfolding zs by simp
  also have "\<dots> = find_run ?st x False 2 (i + 1) 1"
    using n r(2) len zput_ops(2) [OF d(1)] x(2) by (subst find_run.simps) simp
  also have "\<dots> = Some (Some (i + 1))"
    using n r(3) len zput_ops(2) [OF d(1)] x(2) by (subst find_run.simps) simp
  finally have f: "find_run ?st x False 2 0 0 = Some (Some (i + 1))" .
  let ?k = "0x1000 + (i + 1)"
  let ?up = "\<lambda>p. (with_zone z p)\<lparr>ref_count := ref_count p + 1\<rparr>"
  let ?ps = "(zp st)[?k := ?up (zp st ! ?k), ?k + 1 := ?up (zp st ! (?k + 1))]"
  let ?st' = "zput z spin_unlocked (z_free (zn st ! z) - 1 - 1) ?ps st"
  have "mark_pages z ?k 2 ?st = Some (zput z (locked_by cpu) (z_free (zn st ! z) - 1 - 1) ?ps st)"
    using len n zput_ops(3,4) [OF d(1)] by (simp add: numeral_2_eq_2)
  then have "alloc_pages E cpu 2 1 st = Some (Some ?k, ?st')"
    using g x(1,2) f zput_ops(6) [OF d(1)] by (simp add: alloc_pages_def Let_def)
  moreover have "page_of ?st' z j = ?ps ! (0x1000 + j)" for j using b d(1) by (simp add: page_of_def zput_def)
  then have "ref_count (page_of ?st' z i) = 0" "ref_count (page_of ?st' z (i + 1)) = 1"
    "ref_count (page_of ?st' z (i + 2)) = ref_count (page_of st z (i + 2)) + 1"
    using len n r by (simp_all add: pg nth_list_update)
  ultimately show ?thesis using z by blast
qed

theorem alloc_pages_overlap_witness:
  "\<exists>st'. alloc_pages example_zext 1 2 1 example_zones = Some (Some 0x1001, st') \<and> ref_count (page_of example_zones 1 2) = 1 \<and> ref_count (page_of st' 1 2) = 2"
proof -
  have x: "z_pages (zn example_zones ! 1) = 0x1000" "z_nrpages (zn example_zones ! 1) = 3" by (simp_all add: example_zones_def example_zone_def)
  have p: "ref_count (page_of example_zones 1 0) = 0" "ref_count (page_of example_zones 1 1) = 0" "ref_count (page_of example_zones 1 2) = 1"
    unfolding page_of_def x using example_zones_pages by (simp_all add: zero_descriptor_def)
  from alloc_pages_overlap [OF example_zones_inv, of 0 example_zext 1, unfolded add_0] x(2) p obtain st' where
    "alloc_pages example_zext 1 2 1 example_zones = Some (Some (0x1000 + 1), st')" "ref_count (page_of st' 1 2) = ref_count (page_of example_zones 1 2) + 1"
    by auto
  then show ?thesis using p(3) by simp
qed

end
