(* ===== verification/Kmap.thy ===== *)
theory Kmap
  imports Kernel_Prelude
begin

text \<open>
  The contract of a keyed index, as the page cache uses it: a search, an insertion that refuses
  a key that is present, and a deletion. \<open>'c\<close> is what the environment supplies to an insertion
  (the node returned by the allocator). A sequence of operations on a provider answers as the
  same sequence on a finite map.
\<close>

datatype ('c, 'k, 'v) map_op = Search 'k | Insert 'c 'k 'v | Delete 'k

fun map_step :: "('c, 'k, 'v) map_op \<Rightarrow> ('k \<rightharpoonup> 'v) \<Rightarrow> (int \<times> 'v option) \<times> ('k \<rightharpoonup> 'v)" where
  "map_step (Search k) f = (case f k of None \<Rightarrow> ((- ENOENT, None), f) | Some v \<Rightarrow> ((0, Some v), f))"
| "map_step (Insert c k v) f =
    (if f k = None then ((0, None), f(k \<mapsto> v)) else ((- EEXIST, None), f))"
| "map_step (Delete k) f = ((0, None), f(k := None))"

fun map_run :: "('c, 'k, 'v) map_op list \<Rightarrow> ('k \<rightharpoonup> 'v) \<Rightarrow> (int \<times> 'v option) list \<times> ('k \<rightharpoonup> 'v)" where
  "map_run [] f = ([], f)"
| "map_run (x # xs) f = (let (r, f) = map_step x f; (rs, f) = map_run xs f in (r # rs, f))"

locale kmap =
  fixes rep :: "'s \<Rightarrow> ('k \<rightharpoonup> 'v) \<Rightarrow> bool"
    and fresh :: "'c \<Rightarrow> 's \<Rightarrow> bool"
    and search :: "'k \<Rightarrow> 's \<Rightarrow> (int \<times> 'v option) option"
    and ins :: "'c \<Rightarrow> 'k \<Rightarrow> 'v \<Rightarrow> 's \<Rightarrow> (int \<times> 's) option"
    and del :: "'k \<Rightarrow> 's \<Rightarrow> 's option"
  assumes search_rep: "rep s f \<Longrightarrow>
      search k s = Some (case f k of None \<Rightarrow> (- ENOENT, None) | Some v \<Rightarrow> (0, Some v))"
    and ins_rep: "rep s f \<Longrightarrow> fresh c s \<Longrightarrow>
      \<exists>s'. ins c k v s = Some (if f k = None then 0 else - EEXIST, s') \<and>
        rep s' (if f k = None then f(k \<mapsto> v) else f)"
    and del_rep: "rep s f \<Longrightarrow> \<exists>s'. del k s = Some s' \<and> rep s' (f(k := None))"
begin

fun exec_op :: "('c, 'k, 'v) map_op \<Rightarrow> 's \<Rightarrow> ((int \<times> 'v option) \<times> 's) option" where
  "exec_op (Search k) s = do { r \<leftarrow> search k s; Some (r, s) }"
| "exec_op (Insert c k v) s = do { (e, s) \<leftarrow> ins c k v s; Some ((e, None), s) }"
| "exec_op (Delete k) s = do { s \<leftarrow> del k s; Some ((0, None), s) }"

fun exec_ops :: "('c, 'k, 'v) map_op list \<Rightarrow> 's \<Rightarrow> ((int \<times> 'v option) list \<times> 's) option" where
  "exec_ops [] s = Some ([], s)"
| "exec_ops (x # xs) s = do { (r, s) \<leftarrow> exec_op x s; (rs, s) \<leftarrow> exec_ops xs s; Some (r # rs, s) }"

text \<open>Every insertion of the sequence gets a fresh node.\<close>

fun ops_fresh :: "('c, 'k, 'v) map_op list \<Rightarrow> 's \<Rightarrow> bool" where
  "ops_fresh [] s = True"
| "ops_fresh (x # xs) s = ((case x of Insert c k v \<Rightarrow> fresh c s | _ \<Rightarrow> True) \<and>
    (\<forall>r s'. exec_op x s = Some (r, s') \<longrightarrow> ops_fresh xs s'))"

lemma exec_op_rep:
  assumes "rep s f" and "case x of Insert c k v \<Rightarrow> fresh c s | _ \<Rightarrow> True"
  shows "\<exists>s'. exec_op x s = Some (fst (map_step x f), s') \<and> rep s' (snd (map_step x f))"
proof (cases x)
  case (Search k)
  with assms show ?thesis by (auto simp: search_rep split: option.splits)
next
  case (Insert c k v)
  with assms ins_rep [of s f c k v] show ?thesis by auto
next
  case (Delete k)
  with assms del_rep [of s f k] show ?thesis by auto
qed

lemma exec_ops_rep:
  "rep s f \<Longrightarrow> ops_fresh xs s \<Longrightarrow>
    \<exists>s'. exec_ops xs s = Some (fst (map_run xs f), s') \<and> rep s' (snd (map_run xs f))"
proof (induction xs arbitrary: s f)
  case Nil
  then show ?case by simp
next
  case (Cons x xs)
  from Cons.prems have "case x of Insert c k v \<Rightarrow> fresh c s | _ \<Rightarrow> True" by simp
  from exec_op_rep [OF Cons.prems(1) this] obtain s1 where
    s1: "exec_op x s = Some (fst (map_step x f), s1)" "rep s1 (snd (map_step x f))" by blast
  with Cons.prems have "ops_fresh xs s1" by simp
  from Cons.IH [OF s1(2) this] show ?case
    using s1 by (auto simp: split: prod.splits)
qed

end

end
