(* ===== verification/Btree.thy ===== *)
theory Btree
  imports Spinlock Kmap "HOL-Library.Tree"
begin

text \<open>
  Binary search trees (\<^verbatim>\<open>kernel/ds/btree.c\<close>, \<^verbatim>\<open>kernel/include/ds/btree.h\<close>), the index of the page
  cache. The nodes live in a heap with left, right and parent links. The operations on the
  heap are shown to implement functions on the trees of \<open>HOL-Library.Tree\<close>, whose inorder
  lists are sorted by key, and with them the operations of a finite map.
\<close>

declare neq0_conv [iff del] bot_nat_0.not_eq_extremum [simp del]

section \<open>Operations\<close>

record btree_node =
  bn_key :: u32
  bn_data :: ptr
  bn_left :: ptr
  bn_parent :: ptr
  bn_right :: ptr
  bn_btree :: ptr

record btree =
  bt_root :: ptr
  bt_nr_nodes :: u32
  bt_lock :: spinlock

record btmem =
  b_trees :: "btree heap"
  b_nodes :: "btree_node heap"

abbreviation put_tree :: "ptr \<Rightarrow> btree \<Rightarrow> btmem \<Rightarrow> btmem" where
  "put_tree b r m \<equiv> m\<lparr>b_trees := (b_trees m)(b \<mapsto> r)\<rparr>"

definition btree_assert_locked :: "ptr \<Rightarrow> ptr \<Rightarrow> btmem \<Rightarrow> btree option" where
  "btree_assert_locked cpu b m = do {
     kassert (b \<noteq> NULL);
     r \<leftarrow> deref (b_trees m) b;
     spin_assert_lock cpu (bt_lock r);
     Some r
   }"

definition btree_lock :: "ptr \<Rightarrow> ptr \<Rightarrow> btmem \<Rightarrow> btmem option" where
  "btree_lock cpu b m = do {
     kassert (b \<noteq> NULL);
     r \<leftarrow> deref (b_trees m) b;
     lk \<leftarrow> lk_acquire cpu (bt_lock r);
     Some (put_tree b (r\<lparr>bt_lock := lk\<rparr>) m)
   }"

definition btree_unlock :: "ptr \<Rightarrow> ptr \<Rightarrow> btmem \<Rightarrow> btmem option" where
  "btree_unlock cpu b m = do {
     kassert (b \<noteq> NULL);
     r \<leftarrow> deref (b_trees m) b;
     lk \<leftarrow> lk_release cpu (bt_lock r);
     Some (put_tree b (r\<lparr>bt_lock := lk\<rparr>) m)
   }"

definition btree_nr_nodes :: "ptr \<Rightarrow> ptr \<Rightarrow> btmem \<Rightarrow> u32 option" where
  "btree_nr_nodes cpu b m = do { r \<leftarrow> btree_assert_locked cpu b m; Some (bt_nr_nodes r) }"

definition btree_isempty :: "ptr \<Rightarrow> ptr \<Rightarrow> btmem \<Rightarrow> bool option" where
  "btree_isempty cpu b m = do { r \<leftarrow> btree_assert_locked cpu b m; Some (bt_root r = NULL) }"

text \<open>\<open>err\<close> is the result of \<^verbatim>\<open>spinlock_init\<close>, \<open>b\<close> the address returned by \<^verbatim>\<open>kmalloc\<close>.\<close>

definition btree_alloc :: "bool \<Rightarrow> int \<Rightarrow> ptr \<Rightarrow> btmem \<Rightarrow> int \<times> ptr option \<times> btmem" where
  "btree_alloc pbtree err b m =
    (if \<not> pbtree then (- EINVAL, None, m)
     else if err \<noteq> 0 then (err, None, m)
     else if b = NULL then (- ENOMEM, None, m)
     else (0, Some b, put_tree b \<lparr>bt_root = NULL, bt_nr_nodes = 0, bt_lock = spin_unlocked\<rparr> m))"

definition btree_free :: "ptr \<Rightarrow> btmem \<Rightarrow> btmem option" where
  "btree_free b m =
    (if b = NULL then Some m
     else do { r \<leftarrow> deref (b_trees m) b; Some (m\<lparr>b_trees := (b_trees m)(b := None)\<rparr>) })"

text \<open>A node as \<^verbatim>\<open>memset\<close> leaves it, at the address returned by \<^verbatim>\<open>kmalloc\<close>.\<close>

definition btree_alloc_node :: "ptr \<Rightarrow> btmem \<Rightarrow> btmem" where
  "btree_alloc_node p m =
    (if p = NULL then m
     else m\<lparr>b_nodes := (b_nodes m)(p \<mapsto> \<lparr>bn_key = 0, bn_data = NULL, bn_left = NULL,
              bn_parent = NULL, bn_right = NULL, bn_btree = NULL\<rparr>)\<rparr>)"

definition btree_free_node :: "ptr \<Rightarrow> btmem \<Rightarrow> btmem option" where
  "btree_free_node p m =
    (if p = NULL then Some m
     else do { n \<leftarrow> deref (b_nodes m) p; Some (m\<lparr>b_nodes := (b_nodes m)(p := None)\<rparr>) })"

partial_function (option) insert_loop :: "btree_node heap \<Rightarrow> ptr \<Rightarrow> ptr \<Rightarrow> (int \<times> btree_node heap) option" where
  "insert_loop h node parent =
    (if parent = NULL then Some (0, h)
     else do {
       n \<leftarrow> deref h node;
       p \<leftarrow> deref h parent;
       if bn_key n = bn_key p then Some (- EEXIST, h)
       else do {
         let iter = (if bn_key n < bn_key p then bn_left p else bn_right p);
         h \<leftarrow> (if iter = NULL then do {
                h \<leftarrow> modify h node (\<lambda>n. n\<lparr>bn_parent := parent\<rparr>);
                if bn_key n < bn_key p then modify h parent (\<lambda>p. p\<lparr>bn_left := node\<rparr>)
                else modify h parent (\<lambda>p. p\<lparr>bn_right := node\<rparr>)
              } else Some h);
         insert_loop h node iter
       }
     })"

definition btree_insert_node :: "ptr \<Rightarrow> ptr \<Rightarrow> ptr \<Rightarrow> btmem \<Rightarrow> (int \<times> btmem) option" where
  "btree_insert_node cpu b node m =
    (if b = NULL \<or> node = NULL then Some (- EINVAL, m)
     else do {
       btree_assert_locked cpu b m;
       h \<leftarrow> modify (b_nodes m) node (\<lambda>n. n\<lparr>bn_parent := NULL\<rparr>);
       let m = m\<lparr>b_nodes := h\<rparr>;
       e \<leftarrow> btree_isempty cpu b m;
       r \<leftarrow> deref (b_trees m) b;
       (err, m) \<leftarrow> (if e then Some (0, put_tree b (r\<lparr>bt_root := node\<rparr>) m)
                    else do { (err, h) \<leftarrow> insert_loop (b_nodes m) node (bt_root r); Some (err, m\<lparr>b_nodes := h\<rparr>) });
       if err \<noteq> 0 then Some (err, m)
       else do {
         r \<leftarrow> deref (b_trees m) b;
         let m = put_tree b (r\<lparr>bt_nr_nodes := bt_nr_nodes r + 1\<rparr>) m;
         h \<leftarrow> modify (b_nodes m) node (\<lambda>n. n\<lparr>bn_btree := b\<rparr>);
         Some (0, m\<lparr>b_nodes := h\<rparr>)
       }
     })"

text \<open>Cutting a node from its parent, and putting a subtree back under the tree.\<close>

definition btree_unlink :: "ptr \<Rightarrow> ptr \<Rightarrow> btmem \<Rightarrow> btmem option" where
  "btree_unlink b node m = do {
     n \<leftarrow> deref (b_nodes m) node;
     r \<leftarrow> deref (b_trees m) b;
     if node = bt_root r then Some (put_tree b (r\<lparr>bt_root := NULL\<rparr>) m)
     else if bn_parent n = NULL then Some m
     else do {
       p \<leftarrow> deref (b_nodes m) (bn_parent n);
       if bn_right p = node
       then Some (m\<lparr>b_nodes := (b_nodes m)(bn_parent n \<mapsto> p\<lparr>bn_right := NULL\<rparr>)\<rparr>)
       else if bn_left p = node
       then Some (m\<lparr>b_nodes := (b_nodes m)(bn_parent n \<mapsto> p\<lparr>bn_left := NULL\<rparr>)\<rparr>)
       else Some m
     }
   }"

definition btree_decr :: "ptr \<Rightarrow> btmem \<Rightarrow> btmem option" where
  "btree_decr b m = do {
     r \<leftarrow> deref (b_trees m) b;
     Some (put_tree b (r\<lparr>bt_nr_nodes := bt_nr_nodes r - 1\<rparr>) m)
   }"

definition btree_reinsert :: "ptr \<Rightarrow> ptr \<Rightarrow> ptr \<Rightarrow> btmem \<Rightarrow> btmem option" where
  "btree_reinsert cpu b node m =
    (if node = NULL then Some m
     else do {
       m \<leftarrow> btree_decr b m;
       (_, m) \<leftarrow> btree_insert_node cpu b node m;
       Some m
     })"

definition btree_delete_node :: "ptr \<Rightarrow> ptr \<Rightarrow> ptr \<Rightarrow> btmem \<Rightarrow> btmem option" where
  "btree_delete_node cpu b node m =
    (if b = NULL then Some m
     else do {
       btree_assert_locked cpu b m;
       if node = NULL then Some m
       else do {
         n \<leftarrow> deref (b_nodes m) node;
         m \<leftarrow> btree_unlink b node m;
         m \<leftarrow> btree_free_node node m;
         m \<leftarrow> btree_decr b m;
         m \<leftarrow> btree_reinsert cpu b (bn_right n) m;
         btree_reinsert cpu b (bn_left n) m
       }
     })"

text \<open>The loops of the searches; \<open>acc\<close> is the node visited last.\<close>

partial_function (option) chain_end :: "btree_node heap \<Rightarrow> (btree_node \<Rightarrow> ptr) \<Rightarrow> ptr \<Rightarrow> ptr \<Rightarrow> ptr option" where
  "chain_end h child acc tmp =
    (if tmp = NULL then Some acc else do { n \<leftarrow> deref h tmp; chain_end h child tmp (child n) })"

definition btree_least_node :: "ptr \<Rightarrow> ptr \<Rightarrow> btmem \<Rightarrow> ptr option" where
  "btree_least_node cpu b m =
    (if b = NULL then Some NULL
     else do { r \<leftarrow> btree_assert_locked cpu b m; chain_end (b_nodes m) bn_left NULL (bt_root r) })"

definition btree_largest_node :: "ptr \<Rightarrow> ptr \<Rightarrow> btmem \<Rightarrow> ptr option" where
  "btree_largest_node cpu b m =
    (if b = NULL then Some NULL
     else do { r \<leftarrow> btree_assert_locked cpu b m; chain_end (b_nodes m) bn_right NULL (bt_root r) })"

definition btree_least :: "ptr \<Rightarrow> ptr \<Rightarrow> btmem \<Rightarrow> ptr option" where
  "btree_least cpu b m =
    (if b = NULL then Some NULL
     else do {
       node \<leftarrow> btree_least_node cpu b m;
       if node = NULL then Some NULL else do { n \<leftarrow> deref (b_nodes m) node; Some (bn_data n) }
     })"

definition btree_largest :: "ptr \<Rightarrow> ptr \<Rightarrow> btmem \<Rightarrow> ptr option" where
  "btree_largest cpu b m =
    (if b = NULL then Some NULL
     else do {
       node \<leftarrow> btree_largest_node cpu b m;
       if node = NULL then Some NULL else do { n \<leftarrow> deref (b_nodes m) node; Some (bn_data n) }
     })"

partial_function (option) lookup_loop :: "btree_node heap \<Rightarrow> u32 \<Rightarrow> ptr \<Rightarrow> ptr option" where
  "lookup_loop h key node =
    (if node = NULL then Some NULL
     else do {
       n \<leftarrow> deref h node;
       if bn_key n = key then Some node
       else if key < bn_key n then lookup_loop h key (bn_left n)
       else lookup_loop h key (bn_right n)
     })"

definition btree_lookup :: "ptr \<Rightarrow> ptr \<Rightarrow> u32 \<Rightarrow> btmem \<Rightarrow> ptr option" where
  "btree_lookup cpu b key m =
    (if b = NULL then Some NULL
     else do { r \<leftarrow> btree_assert_locked cpu b m; lookup_loop (b_nodes m) key (bt_root r) })"

definition btree_delete :: "ptr \<Rightarrow> ptr \<Rightarrow> u32 \<Rightarrow> btmem \<Rightarrow> btmem option" where
  "btree_delete cpu b key m = do {
     btree_assert_locked cpu b m;
     node \<leftarrow> btree_lookup cpu b key m;
     btree_delete_node cpu b node m
   }"

text \<open>The result and what is stored through \<^verbatim>\<open>pdata\<close>.\<close>

definition btree_search :: "ptr \<Rightarrow> ptr \<Rightarrow> u32 \<Rightarrow> btmem \<Rightarrow> (int \<times> ptr option) option" where
  "btree_search cpu b key m = do {
     btree_assert_locked cpu b m;
     node \<leftarrow> btree_lookup cpu b key m;
     if node = NULL then Some (- ENOENT, None)
     else do { n \<leftarrow> deref (b_nodes m) node; Some (0, Some (bn_data n)) }
   }"

definition btree_insert :: "ptr \<Rightarrow> ptr \<Rightarrow> ptr \<Rightarrow> u32 \<Rightarrow> ptr \<Rightarrow> btmem \<Rightarrow> (int \<times> btmem) option" where
  "btree_insert cpu b node key data m =
    (if b = NULL then Some (- EINVAL, m)
     else do {
       btree_assert_locked cpu b m;
       let m = btree_alloc_node node m;
       if node = NULL then Some (- ENOMEM, m)
       else do {
         h \<leftarrow> modify (b_nodes m) node (\<lambda>n. n\<lparr>bn_key := key, bn_data := data\<rparr>);
         (err, m) \<leftarrow> btree_insert_node cpu b node (m\<lparr>b_nodes := h\<rparr>);
         if err \<noteq> 0 then do { m \<leftarrow> btree_free_node node m; Some (err, m) }
         else Some (0, m)
       }
     })"


section \<open>Trees of items\<close>

text \<open>An item is the address of a node with its key and data. \<open>graft\<close> is the insertion of a
  whole tree at the place of its root key.\<close>

type_synonym item = "ptr \<times> u32 \<times> ptr"

abbreviation i_ptr :: "item \<Rightarrow> ptr" where "i_ptr x \<equiv> fst x"
abbreviation i_key :: "item \<Rightarrow> u32" where "i_key x \<equiv> fst (snd x)"
abbreviation i_data :: "item \<Rightarrow> ptr" where "i_data x \<equiv> snd (snd x)"

definition ptrs :: "item tree \<Rightarrow> ptr set" where
  "ptrs t = i_ptr ` set_tree t"

fun graft :: "item tree \<Rightarrow> item tree \<Rightarrow> u32 \<Rightarrow> item tree" where
  "graft Leaf s k = s"
| "graft (Node l x r) s k =
    (if k < i_key x then Node (graft l s k) x r
     else if k > i_key x then Node l x (graft r s k)
     else Node l x r)"

fun tlookup :: "item tree \<Rightarrow> u32 \<Rightarrow> item option" where
  "tlookup Leaf k = None"
| "tlookup (Node l x r) k =
    (if i_key x = k then Some x else if k < i_key x then tlookup l k else tlookup r k)"

fun prune :: "ptr \<Rightarrow> item tree \<Rightarrow> item tree" where
  "prune a Leaf = Leaf"
| "prune a (Node l x r) =
    (if i_ptr x = a then Leaf
     else if a \<in> ptrs l then Node (prune a l) x r else Node l x (prune a r))"

fun subtree :: "ptr \<Rightarrow> item tree \<Rightarrow> item tree" where
  "subtree a Leaf = Leaf"
| "subtree a (Node l x r) =
    (if i_ptr x = a then Node l x r else if a \<in> ptrs l then subtree a l else subtree a r)"

lemma ptrs_simps [simp]:
  "ptrs Leaf = {}" "ptrs (Node l x r) = insert (i_ptr x) (ptrs l \<union> ptrs r)" "finite (ptrs t)"
  by (auto simp: ptrs_def)

abbreviation keys :: "item list \<Rightarrow> u32 list" where "keys xs \<equiv> map i_key xs"

definition ordered :: "item list \<Rightarrow> bool" where
  "ordered xs \<longleftrightarrow> sorted_wrt (<) (keys xs)"

lemma ordered_simps [simp]:
  "ordered []"
  "ordered (x # xs) \<longleftrightarrow> (\<forall>y \<in> set xs. i_key x < i_key y) \<and> ordered xs"
  "ordered (xs @ ys) \<longleftrightarrow> ordered xs \<and> ordered ys \<and> (\<forall>x \<in> set xs. \<forall>y \<in> set ys. i_key x < i_key y)"
  by (auto simp: ordered_def sorted_wrt_append)

text \<open>Grafting puts the inorder list of the tree into the gap of its keys.\<close>

lemma inorder_graft:
  assumes "inorder t = xs @ ys" and "ordered (inorder t)"
    and "\<forall>x \<in> set xs. i_key x < k" and "\<forall>y \<in> set ys. k < i_key y"
  shows "inorder (graft t s k) = xs @ inorder s @ ys"
  using assms
proof (induction t arbitrary: xs ys)
  case Leaf
  then show ?case by simp
next
  case (Node l x r)
  have x: "x \<in> set xs \<or> x \<in> set ys" using Node.prems(1) by (metis UnI1 UnI2 Un_iff in_set_conv_decomp inorder.simps(2) set_append)
  from Node.prems(1) have eq: "inorder l @ x # inorder r = xs @ ys" by simp
  show ?case
  proof (cases "k < i_key x")
    case True
    with Node.prems(3) have "x \<notin> set xs" by force
    then obtain us where "inorder l = xs @ us" "us @ x # inorder r = ys"
      using eq by (auto simp: append_eq_append_conv2 append_eq_Cons_conv Cons_eq_append_conv)
    with Node.IH(1) [of xs us] Node.prems True show ?thesis by auto
  next
    case False
    with Node.prems(4) x have "x \<in> set xs" and k: "k > i_key x" using Node.prems(3) by auto
    then have "x \<notin> set ys" using Node.prems(4) False by auto
    then obtain us where "inorder r = us @ ys" "xs = inorder l @ x # us"
      using eq by (auto simp: append_eq_append_conv2 append_eq_Cons_conv Cons_eq_append_conv)
    with Node.IH(2) [of us ys] Node.prems k show ?thesis by auto
  qed
qed

lemma set_tree_inorder: "set (inorder t) = set_tree t"
  by simp

lemma tlookup_Some:
  assumes "ordered (inorder t)"
  shows "tlookup t k = Some x \<longleftrightarrow> x \<in> set_tree t \<and> i_key x = k"
  using assms
proof (induction t)
  case Leaf
  then show ?case by simp
next
  case (Node l y r)
  then show ?case by auto
qed

lemma tlookup_None:
  assumes "ordered (inorder t)"
  shows "tlookup t k = None \<longleftrightarrow> k \<notin> i_key ` set_tree t"
proof (cases "tlookup t k")
  case None
  then show ?thesis using tlookup_Some [OF assms, of k] by auto
next
  case (Some x)
  then have "x \<in> set_tree t \<and> i_key x = k" by (simp add: tlookup_Some [OF assms])
  with Some show ?thesis by auto
qed

text \<open>A key that is not in the tree splits the inorder list.\<close>

lemma inorder_split:
  assumes "ordered xs" and "k \<notin> i_key ` set xs"
  shows "\<exists>us vs. xs = us @ vs \<and> (\<forall>x \<in> set us. i_key x < k) \<and> (\<forall>y \<in> set vs. k < i_key y)"
proof (intro exI conjI)
  let ?us = "takeWhile (\<lambda>x. i_key x < k) xs" and ?vs = "dropWhile (\<lambda>x. i_key x < k) xs"
  show "xs = ?us @ ?vs" by simp
  show "\<forall>x \<in> set ?us. i_key x < k" by (auto dest: set_takeWhileD)
  show "\<forall>y \<in> set ?vs. k < i_key y"
    using assms
  proof (induction xs)
    case Nil
    then show ?case by simp
  next
    case (Cons x xs)
    then show ?case by (auto intro: less_trans)
  qed
qed

text \<open>Cutting a subtree removes its items from the inorder list.\<close>

lemma inorder_prune:
  assumes "a \<in> ptrs t"
  shows "\<exists>xs ys. inorder t = xs @ inorder (subtree a t) @ ys \<and> inorder (prune a t) = xs @ ys"
  using assms
proof (induction t)
  case Leaf
  then show ?case by simp
next
  case (Node l x r)
  show ?case
  proof (cases "i_ptr x = a")
    case True
    then show ?thesis by auto
  next
    case False
    show ?thesis
    proof (cases "a \<in> ptrs l")
      case True
      with Node.IH(1) obtain xs ys where "inorder l = xs @ inorder (subtree a l) @ ys"
        "inorder (prune a l) = xs @ ys" by auto
      with False True show ?thesis by (intro exI [of _ xs] exI [of _ "ys @ x # inorder r"]) simp
    next
      case a: False
      with False Node.prems Node.IH(2) obtain xs ys where "inorder r = xs @ inorder (subtree a r) @ ys"
        "inorder (prune a r) = xs @ ys" by auto
      with False a show ?thesis by (intro exI [of _ "inorder l @ x # xs"] exI [of _ ys]) simp
    qed
  qed
qed

lemma subtree_root:
  assumes "a \<in> ptrs t"
  shows "\<exists>l x r. subtree a t = Node l x r \<and> i_ptr x = a"
  using assms by (induction t) auto

section \<open>Trees in the heap\<close>

fun tree_rep :: "btree_node heap \<Rightarrow> ptr \<Rightarrow> item tree \<Rightarrow> ptr \<Rightarrow> bool" where
  "tree_rep h par Leaf p \<longleftrightarrow> p = NULL"
| "tree_rep h par (Node l x r) p \<longleftrightarrow> p = i_ptr x \<and> p \<noteq> NULL \<and>
    (\<exists>n. h p = Some n \<and> bn_key n = i_key x \<and> bn_data n = i_data x \<and> bn_parent n = par \<and>
      tree_rep h p l (bn_left n) \<and> tree_rep h p r (bn_right n))"

definition disjoint_ptrs :: "item tree \<Rightarrow> bool" where
  "disjoint_ptrs t \<longleftrightarrow> distinct (map i_ptr (inorder t))"

lemma disjoint_ptrs_simps [simp]:
  "disjoint_ptrs Leaf"
  "disjoint_ptrs (Node l x r) \<longleftrightarrow> disjoint_ptrs l \<and> disjoint_ptrs r \<and> i_ptr x \<notin> ptrs l \<and>
    i_ptr x \<notin> ptrs r \<and> ptrs l \<inter> ptrs r = {}"
  by (auto simp: disjoint_ptrs_def ptrs_def)

lemma tree_rep_cong:
  "tree_rep h par t p \<Longrightarrow> (\<And>a. a \<in> ptrs t \<Longrightarrow> h' a = h a) \<Longrightarrow> tree_rep h' par t p"
  by (induction t arbitrary: par p) auto

lemma tree_rep_payload:
  "tree_rep h par t p \<Longrightarrow> h a = Some x \<Longrightarrow> tree_rep (h(a \<mapsto> x\<lparr>bn_btree := b\<rparr>)) par t p"
  by (induction t arbitrary: par p) auto

lemma tree_rep_upd [simp]: "a \<notin> ptrs t \<Longrightarrow> tree_rep h par t p \<Longrightarrow> tree_rep (h(a := v)) par t p"
  by (erule tree_rep_cong) auto

lemma tree_rep_live: "tree_rep h par t p \<Longrightarrow> a \<in> ptrs t \<Longrightarrow> h a \<noteq> None \<and> a \<noteq> NULL"
  by (induction t arbitrary: par p) auto

lemma tree_rep_root: "tree_rep h par t p \<Longrightarrow> p = NULL \<longleftrightarrow> t = Leaf"
  by (cases t) auto

lemma tree_rep_root_in: "tree_rep h par t p \<Longrightarrow> p \<noteq> NULL \<Longrightarrow> p \<in> ptrs t"
  by (cases t) auto

lemma tree_rep_item:
  "tree_rep h par t p \<Longrightarrow> x \<in> set_tree t \<Longrightarrow>
    i_ptr x \<noteq> NULL \<and> (\<exists>n. h (i_ptr x) = Some n \<and> bn_key n = i_key x \<and> bn_data n = i_data x)"
  by (induction t arbitrary: par p) auto

lemma lookup_loop_rep:
  "tree_rep h par t p \<Longrightarrow>
    lookup_loop h k p = Some (case tlookup t k of None \<Rightarrow> NULL | Some x \<Rightarrow> i_ptr x)"
proof (induction t arbitrary: par p)
  case Leaf
  then show ?case by (subst lookup_loop.simps) simp
next
  case (Node l x r)
  then show ?case by (subst lookup_loop.simps) (auto simp: exec_simps)
qed

text \<open>The node visited last on the way to the left or right.\<close>

lemma chain_end_left:
  "tree_rep h par t p \<Longrightarrow> chain_end h bn_left a p = Some (fst_or a (map i_ptr (inorder t)))"
proof (induction t arbitrary: par p a)
  case Leaf
  then show ?case by (subst chain_end.simps) simp
next
  case (Node l x r)
  then obtain n where n: "h p = Some n" "tree_rep h p l (bn_left n)" "p = i_ptr x" "p \<noteq> NULL" by auto
  with Node.IH(1) show ?case by (subst chain_end.simps) (simp add: exec_simps)
qed

lemma chain_end_right:
  "tree_rep h par t p \<Longrightarrow> chain_end h bn_right a p = Some (lst_or a (map i_ptr (inorder t)))"
proof (induction t arbitrary: par p a)
  case Leaf
  then show ?case by (subst chain_end.simps) simp
next
  case (Node l x r)
  then obtain n where n: "h p = Some n" "tree_rep h p r (bn_right n)" "p = i_ptr x" "p \<noteq> NULL" by auto
  with Node.IH(2) show ?case by (subst chain_end.simps) (simp add: exec_simps)
qed

text \<open>
  The insertion loop implements \<open>graft\<close>: the tree of \<open>node\<close> is attached below a node of \<open>t\<close>
  and only nodes of \<open>t\<close> and \<open>node\<close> itself change.
\<close>

definition same_outside :: "ptr set \<Rightarrow> btree_node heap \<Rightarrow> btree_node heap \<Rightarrow> bool" where
  "same_outside A h h' \<longleftrightarrow> (\<forall>a. a \<notin> A \<longrightarrow> h' a = h a)"

lemma tree_rep_reparent:
  "tree_rep h par (Node l x r) p \<Longrightarrow> disjoint_ptrs (Node l x r) \<Longrightarrow> h p = Some n \<Longrightarrow>
    tree_rep (h(p \<mapsto> n\<lparr>bn_parent := q\<rparr>)) q (Node l x r) p"
  by auto

lemma insert_loop_graft:
  assumes "tree_rep h par t p" and "t \<noteq> Leaf" and "disjoint_ptrs t"
    and "tree_rep h par' s node" and "s \<noteq> Leaf" and "disjoint_ptrs s" and "ptrs t \<inter> ptrs s = {}"
    and "h node = Some n" and "tlookup t (bn_key n) = None"
  shows "\<exists>h'. insert_loop h node p = Some (0, h') \<and> tree_rep h' par (graft t s (bn_key n)) p \<and>
    same_outside (insert node (ptrs t)) h h'"
  using assms(1-3,7,9)
proof (induction t arbitrary: par p)
  case Leaf
  then show ?case by simp
next
  case (Node l x r)
  then obtain pn where pn: "h p = Some pn" "p = i_ptr x" "p \<noteq> NULL" "bn_key pn = i_key x"
    "bn_data pn = i_data x" "bn_parent pn = par" "tree_rep h p l (bn_left pn)" "tree_rep h p r (bn_right pn)"
    by auto
  have node: "node \<noteq> NULL" "node \<in> ptrs s" using assms(4,5) by (cases s; auto)+
  with Node.prems pn have ne: "node \<noteq> p" "node \<notin> ptrs l" "node \<notin> ptrs r" by auto
  have k: "bn_key n \<noteq> i_key x" using Node.prems(5) by auto
  obtain sl y sr where s: "s = Node sl y sr" using assms(5) by (cases s) auto
  have at: "tree_rep (h(node \<mapsto> n\<lparr>bn_parent := p\<rparr>)) p s node"
    using tree_rep_reparent assms(4,6,8) unfolding s by blast
  show ?case
  proof (cases "bn_key n < i_key x")
    case True
    show ?thesis
    proof (cases "l = Leaf")
      case Leaf: True
      let ?h = "h(node \<mapsto> n\<lparr>bn_parent := p\<rparr>, p \<mapsto> pn\<lparr>bn_left := node\<rparr>)"
      have "insert_loop h node p = Some (0, ?h)"
        using pn True Leaf node ne assms(8)
        by (subst insert_loop.simps) (simp add: exec_simps Let_def, subst insert_loop.simps, simp)
      moreover have "tree_rep ?h par (Node s x r) p"
        using pn at ne Node.prems(3,4) by auto
      ultimately show ?thesis using True Leaf pn by (auto simp: same_outside_def)
    next
      case False
      then have nl: "bn_left pn \<noteq> NULL" using pn(7) tree_rep_root by blast
      from Node.IH(1) [OF pn(7) False] Node.prems True k obtain h' where
        h': "insert_loop h node (bn_left pn) = Some (0, h')"
          "tree_rep h' p (graft l s (bn_key n)) (bn_left pn)" "same_outside (insert node (ptrs l)) h h'"
        by auto
      have "insert_loop h node p = Some (0, h')"
        using pn True nl h'(1) node assms(8) by (subst insert_loop.simps) (simp add: exec_simps Let_def)
      moreover have "h' p = Some pn" using h'(3) pn ne Node.prems(3) by (auto simp: same_outside_def)
      moreover have "tree_rep h' p r (bn_right pn)"
        using pn(8) h'(3) ne Node.prems(3) by (elim tree_rep_cong) (auto simp: same_outside_def)
      ultimately show ?thesis
        using True pn h'(2,3) by (auto simp: same_outside_def)
    qed
  next
    case gr: False
    show ?thesis
    proof (cases "r = Leaf")
      case Leaf: True
      let ?h = "h(node \<mapsto> n\<lparr>bn_parent := p\<rparr>, p \<mapsto> pn\<lparr>bn_right := node\<rparr>)"
      have "insert_loop h node p = Some (0, ?h)"
        using pn gr k Leaf node ne assms(8)
        by (subst insert_loop.simps) (simp add: exec_simps Let_def, subst insert_loop.simps, simp)
      moreover have "tree_rep ?h par (Node l x s) p"
        using pn at ne Node.prems(3,4) by auto
      ultimately show ?thesis using gr k Leaf pn by (auto simp: same_outside_def)
    next
      case False
      then have nl: "bn_right pn \<noteq> NULL" using pn(8) tree_rep_root by blast
      from Node.IH(2) [OF pn(8) False] Node.prems gr k obtain h' where
        h': "insert_loop h node (bn_right pn) = Some (0, h')"
          "tree_rep h' p (graft r s (bn_key n)) (bn_right pn)" "same_outside (insert node (ptrs r)) h h'"
        by (auto split: if_splits)
      have "insert_loop h node p = Some (0, h')"
        using pn gr k nl h'(1) node assms(8) by (subst insert_loop.simps) (simp add: exec_simps Let_def)
      moreover have "h' p = Some pn" using h'(3) pn ne Node.prems(3) by (auto simp: same_outside_def)
      moreover have "tree_rep h' p l (bn_left pn)"
        using pn(7) h'(3) ne Node.prems(3) by (elim tree_rep_cong) (auto simp: same_outside_def)
      ultimately show ?thesis
        using gr k pn h'(2,3) by (auto simp: same_outside_def)
    qed
  qed
qed

lemma insert_loop_exists:
  "tree_rep h par t p \<Longrightarrow> node \<noteq> NULL \<Longrightarrow> h node = Some n \<Longrightarrow> tlookup t (bn_key n) \<noteq> None \<Longrightarrow>
    insert_loop h node p = Some (- EEXIST, h)"
proof (induction t arbitrary: par p)
  case Leaf
  then show ?case by simp
next
  case (Node l x r)
  then obtain pn where pn: "h p = Some pn" "p \<noteq> NULL" "bn_key pn = i_key x"
    "tree_rep h p l (bn_left pn)" "tree_rep h p r (bn_right pn)" by auto
  have "bn_key n \<noteq> i_key x \<Longrightarrow> (if bn_key n < i_key x then bn_left pn else bn_right pn) \<noteq> NULL"
    using Node.prems(4) pn(4,5) tree_rep_root by (auto split: if_splits)
  with Node pn show ?case
    by (subst insert_loop.simps) (auto simp: exec_simps Let_def split: if_splits)
qed

text \<open>Cutting a node that is not the root from its parent.\<close>

definition cut_child :: "ptr \<Rightarrow> btree_node \<Rightarrow> btree_node" where
  "cut_child a q = (if bn_right q = a then q\<lparr>bn_right := NULL\<rparr> else q\<lparr>bn_left := NULL\<rparr>)"

lemma ptrs_prune: "ptrs (prune a t) \<subseteq> ptrs t"
  by (induction t) auto

lemma prune_notin: "disjoint_ptrs t \<Longrightarrow> a \<notin> ptrs (prune a t)"
  using ptrs_prune by (induction t) auto

lemma ptrs_inorder: "ptrs t = set (map i_ptr (inorder t))"
  by (simp add: ptrs_def)

lemma prune_disjoint:
  assumes "a \<in> ptrs t" and "disjoint_ptrs t"
  shows "disjoint_ptrs (prune a t)" "disjoint_ptrs (subtree a t)"
    "ptrs (prune a t) \<inter> ptrs (subtree a t) = {}" "ptrs t = ptrs (prune a t) \<union> ptrs (subtree a t)"
proof -
  from inorder_prune [OF assms(1)] obtain xs ys P S Y where
    l: "map i_ptr (inorder t) = P @ S @ Y" "map i_ptr (inorder (prune a t)) = P @ Y"
      "map i_ptr (inorder (subtree a t)) = S" by auto
  have "distinct (P @ S @ Y)" using assms(2) by (simp only: disjoint_ptrs_def l)
  then show "disjoint_ptrs (prune a t)" "disjoint_ptrs (subtree a t)"
    "ptrs (prune a t) \<inter> ptrs (subtree a t) = {}" "ptrs t = ptrs (prune a t) \<union> ptrs (subtree a t)"
    unfolding disjoint_ptrs_def ptrs_inorder l by auto
qed

lemma tree_rep_subtree:
  "tree_rep h par t p \<Longrightarrow> a \<in> ptrs t \<Longrightarrow> \<exists>q. tree_rep h q (subtree a t) a"
  by (induction t arbitrary: par p) auto

lemma unlinkI:
  assumes "h a = Some n" and "bn_parent n = p'" and "p' \<in> A" and "p' \<noteq> a" and "h p' = Some q"
    and "bn_right q = a \<or> bn_left q = a" and "tree_rep (h(p' \<mapsto> cut_child a q)) par t p"
  shows "\<exists>n q. h a = Some n \<and> bn_parent n \<in> A \<and> bn_parent n \<noteq> a \<and> h (bn_parent n) = Some q \<and>
    (bn_right q = a \<or> bn_left q = a) \<and> tree_rep (h(bn_parent n \<mapsto> cut_child a q)) par t p"
  using assms by blast

lemma unlink_rep:
  assumes "tree_rep h par t p" and "disjoint_ptrs t" and "a \<in> ptrs t" and "a \<noteq> p"
  shows "\<exists>n q. h a = Some n \<and> bn_parent n \<in> ptrs (prune a t) \<and> bn_parent n \<noteq> a \<and> h (bn_parent n) = Some q \<and>
    (bn_right q = a \<or> bn_left q = a) \<and>
    tree_rep (h(bn_parent n \<mapsto> cut_child a q)) par (prune a t) p"
  using assms
proof (induction t arbitrary: par p)
  case Leaf
  then show ?case by simp
next
  case (Node l x r)
  then obtain pn where pn: "h p = Some pn" "p = i_ptr x" "p \<noteq> NULL" "bn_key pn = i_key x"
    "bn_data pn = i_data x" "bn_parent pn = par" "tree_rep h p l (bn_left pn)" "tree_rep h p r (bn_right pn)"
    by auto
  note dis = Node.prems(2) [simplified]
  show ?case
  proof (cases "a \<in> ptrs l")
    case True
    then have ar: "a \<notin> ptrs r" "bn_right pn \<noteq> a"
      using dis pn(3,8) tree_rep_root_in [OF pn(8)] tree_rep_live [OF pn(7) True] by auto
    show ?thesis
    proof (cases "a = bn_left pn")
      case eq: True
      with True pn(7) obtain n where n: "h a = Some n" "bn_parent n = p" by (cases l) auto
      have "prune a l = Leaf" using pn(7) eq True by (cases l) auto
      moreover have "cut_child a pn = pn\<lparr>bn_left := NULL\<rparr>" using ar by (simp add: cut_child_def)
      moreover have "tree_rep (h(p \<mapsto> pn\<lparr>bn_left := NULL\<rparr>)) p r (bn_right pn)"
        using pn(2,8) dis by simp
      ultimately have "tree_rep (h(p \<mapsto> cut_child a pn)) par (prune a (Node l x r)) p"
        using True pn(1-6) Node.prems(4) by simp
      then show ?thesis
        using eq pn(2) Node.prems(4) True by (intro unlinkI [OF n _ _ pn(1)]) auto
    next
      case False
      have "disjoint_ptrs l" using dis by blast
      from Node.IH(1) [OF pn(7) this True False] obtain n q where nq: "h a = Some n"
        "bn_parent n \<in> ptrs (prune a l)" "bn_parent n \<noteq> a" "h (bn_parent n) = Some q"
        "bn_right q = a \<or> bn_left q = a"
        "tree_rep (h(bn_parent n \<mapsto> cut_child a q)) p (prune a l) (bn_left pn)" by blast
      from nq(2) dis have ne: "bn_parent n \<noteq> p" "bn_parent n \<notin> ptrs r" using pn(2) ptrs_prune [of a l] by auto
      have "tree_rep (h(bn_parent n \<mapsto> cut_child a q)) par (prune a (Node l x r)) p"
        using nq(6) ne True pn Node.prems(4) by simp
      with nq(2) True pn(2) Node.prems(4) ar(1) show ?thesis
        by (intro unlinkI [OF nq(1) refl _ nq(3,4,5)]) simp_all
    qed
  next
    case al: False
    with Node.prems(3,4) pn(2) have True: "a \<in> ptrs r" by auto
    show ?thesis
    proof (cases "a = bn_right pn")
      case eq: True
      with True pn(8) obtain n where n: "h a = Some n" "bn_parent n = p" by (cases r) auto
      have "prune a r = Leaf" using pn(8) eq True by (cases r) auto
      moreover have "cut_child a pn = pn\<lparr>bn_right := NULL\<rparr>" using eq by (simp add: cut_child_def)
      moreover have "tree_rep (h(p \<mapsto> pn\<lparr>bn_right := NULL\<rparr>)) p l (bn_left pn)"
        using pn(2,7) dis by simp
      ultimately have "tree_rep (h(p \<mapsto> cut_child a pn)) par (prune a (Node l x r)) p"
        using al pn(1-6) Node.prems(4) by simp
      then show ?thesis
        using eq pn(2) Node.prems(4) True al by (intro unlinkI [OF n _ _ pn(1)]) auto
    next
      case False
      have "disjoint_ptrs r" using dis by blast
      from Node.IH(2) [OF pn(8) this True False] obtain n q where nq: "h a = Some n"
        "bn_parent n \<in> ptrs (prune a r)" "bn_parent n \<noteq> a" "h (bn_parent n) = Some q"
        "bn_right q = a \<or> bn_left q = a"
        "tree_rep (h(bn_parent n \<mapsto> cut_child a q)) p (prune a r) (bn_right pn)" by blast
      from nq(2) dis have ne: "bn_parent n \<noteq> p" "bn_parent n \<notin> ptrs l" using pn(2) ptrs_prune [of a r] by auto
      have "tree_rep (h(bn_parent n \<mapsto> cut_child a q)) par (prune a (Node l x r)) p"
        using nq(6) ne al pn Node.prems(4) by simp
      with nq(2) True pn(2) Node.prems(4) al show ?thesis
        by (intro unlinkI [OF nq(1) refl _ nq(3,4,5)]) simp_all
    qed
  qed
qed

section \<open>The operations on trees\<close>

definition btree_shape :: "ptr \<Rightarrow> btmem \<Rightarrow> ptr \<Rightarrow> btree \<Rightarrow> item tree \<Rightarrow> bool" where
  "btree_shape cpu m b r t \<longleftrightarrow> b \<noteq> NULL \<and> b_trees m b = Some r \<and> spin_holding cpu (bt_lock r) \<and>
    tree_rep (b_nodes m) NULL t (bt_root r) \<and> disjoint_ptrs t"

definition btree_rep :: "ptr \<Rightarrow> btmem \<Rightarrow> ptr \<Rightarrow> item tree \<Rightarrow> bool" where
  "btree_rep cpu m b t \<longleftrightarrow> (\<exists>r. btree_shape cpu m b r t \<and> ordered (inorder t) \<and>
    bt_nr_nodes r = of_nat (size t))"

lemma btree_assert_locked_shape: "btree_shape cpu m b r t \<Longrightarrow> btree_assert_locked cpu b m = Some r"
  by (simp add: btree_shape_def btree_assert_locked_def spin_assert_lock_def exec_simps)

lemma btree_assert_locked_rep:
  assumes "btree_rep cpu m b t"
  shows "\<exists>r. btree_assert_locked cpu b m = Some r \<and> b_trees m b = Some r \<and>
    tree_rep (b_nodes m) NULL t (bt_root r)"
  using assms btree_assert_locked_shape by (auto simp: btree_rep_def btree_shape_def)

lemma btree_lookup_rep:
  assumes "btree_rep cpu m b t"
  shows "btree_lookup cpu b k m = Some (case tlookup t k of None \<Rightarrow> NULL | Some x \<Rightarrow> i_ptr x)"
proof -
  from btree_assert_locked_rep [OF assms] obtain r where r: "btree_assert_locked cpu b m = Some r"
    "tree_rep (b_nodes m) NULL t (bt_root r)" by blast
  then show ?thesis
    using assms lookup_loop_rep [OF r(2)] by (auto simp: btree_lookup_def btree_rep_def btree_shape_def)
qed

lemma size_graft: "tlookup t k = None \<Longrightarrow> size (graft t s k) = size t + size s"
  by (induction t) (auto split: if_splits)

lemma ptrs_graft: "tlookup t k = None \<Longrightarrow> ptrs (graft t s k) = ptrs t \<union> ptrs s"
  by (induction t) (auto split: if_splits)

lemma disjoint_graft:
  "disjoint_ptrs t \<Longrightarrow> disjoint_ptrs s \<Longrightarrow> ptrs t \<inter> ptrs s = {} \<Longrightarrow> disjoint_ptrs (graft t s k)"
proof (induction t)
  case (Node l x r)
  have "ptrs (graft u s k) \<subseteq> ptrs u \<union> ptrs s" for u by (induction u) auto
  with Node show ?case by (auto; blast)
qed simp

text \<open>Inserting the tree \<open>s\<close> rooted at \<open>node\<close>, as insertion and deletion do.\<close>

lemma btree_insert_node_graft:
  assumes "btree_shape cpu m b r t" and "tree_rep (b_nodes m) q s node" and "s = Node sl y sr"
    and "disjoint_ptrs s" and "ptrs t \<inter> ptrs s = {}" and "tlookup t (i_key y) = None"
  shows "\<exists>m' r'. btree_insert_node cpu b node m = Some (0, m') \<and>
    btree_shape cpu m' b r' (graft t s (i_key y)) \<and> bt_nr_nodes r' = bt_nr_nodes r + 1 \<and>
    b_trees m' = (b_trees m)(b \<mapsto> r') \<and> same_outside (insert node (ptrs t)) (b_nodes m) (b_nodes m')"
proof -
  note sh = assms(1) [unfolded btree_shape_def]
  from assms(2,3) obtain n where n: "b_nodes m node = Some n" "node \<noteq> NULL" "bn_key n = i_key y"
    "node = i_ptr y" by auto
  let ?h = "(b_nodes m)(node \<mapsto> n\<lparr>bn_parent := NULL\<rparr>)"
  let ?m = "m\<lparr>b_nodes := ?h\<rparr>"
  have node: "node \<notin> ptrs t" using assms(3,5) n(4) by auto
  have t: "tree_rep ?h NULL t (bt_root r)" using sh node by simp
  have sn: "tree_rep ?h NULL s node"
    using assms(2,4) n(1) unfolding assms(3) by (rule tree_rep_reparent)
  have s': "btree_shape cpu ?m b r t" using sh t by (simp add: btree_shape_def)
  have dis: "disjoint_ptrs (graft t s (i_key y))"
    using disjoint_graft sh assms(4,5) by blast
  have pay: "tree_rep (h(node \<mapsto> x\<lparr>bn_btree := b\<rparr>)) NULL u p"
    if "tree_rep h NULL u p" "h node = Some x" for h u p x
    using that by (rule tree_rep_payload)
  show ?thesis
  proof (cases "t = Leaf")
    case True
    then have root: "bt_root r = NULL" using t by simp
    let ?r = "r\<lparr>bt_root := node, bt_nr_nodes := bt_nr_nodes r + 1\<rparr>"
    let ?m' = "put_tree b ?r (m\<lparr>b_nodes := ?h(node \<mapsto> n\<lparr>bn_parent := NULL, bn_btree := b\<rparr>)\<rparr>)"
    have "btree_insert_node cpu b node m = Some (0, ?m')"
      using sh n root btree_assert_locked_shape [OF assms(1)] btree_assert_locked_shape [OF s']
      by (simp add: btree_insert_node_def btree_isempty_def exec_simps)
    moreover have "btree_shape cpu ?m' b ?r s"
      using pay [OF sn, of "n\<lparr>bn_parent := NULL\<rparr>"] sh assms(4) by (simp add: btree_shape_def)
    ultimately show ?thesis using True by (auto simp: same_outside_def)
  next
    case False
    then have root: "bt_root r \<noteq> NULL" using t tree_rep_root by blast
    have "s \<noteq> Leaf" using assms(3) by simp
    from insert_loop_graft [OF t False _ sn this assms(4,5), of "n\<lparr>bn_parent := NULL\<rparr>"] sh n(3) assms(6)
    obtain h' where h': "insert_loop ?h node (bt_root r) = Some (0, h')"
      "tree_rep h' NULL (graft t s (i_key y)) (bt_root r)" "same_outside (insert node (ptrs t)) ?h h'" by auto
    have "node \<in> ptrs (graft t s (i_key y))"
      using ptrs_graft [OF assms(6), of s] assms(3) n(4) by simp
    then obtain x where x: "h' node = Some x" using tree_rep_live [OF h'(2)] by blast
    let ?r = "r\<lparr>bt_nr_nodes := bt_nr_nodes r + 1\<rparr>"
    let ?m' = "put_tree b ?r (m\<lparr>b_nodes := h'(node \<mapsto> x\<lparr>bn_btree := b\<rparr>)\<rparr>)"
    have "btree_insert_node cpu b node m = Some (0, ?m')"
      using sh n root x h'(1) btree_assert_locked_shape [OF assms(1)] btree_assert_locked_shape [OF s']
      by (simp add: btree_insert_node_def btree_isempty_def exec_simps)
    moreover have "btree_shape cpu ?m' b ?r (graft t s (i_key y))"
      using pay [OF h'(2) x] sh dis by (simp add: btree_shape_def)
    ultimately show ?thesis using h'(3) by (auto simp: same_outside_def)
  qed
qed

lemma btree_insert_node_exists:
  assumes "btree_shape cpu m b r t" and "node \<notin> ptrs t" and "node \<noteq> NULL" and "b_nodes m node = Some n"
    and "tlookup t (bn_key n) \<noteq> None"
  shows "btree_insert_node cpu b node m =
    Some (- EEXIST, m\<lparr>b_nodes := (b_nodes m)(node \<mapsto> n\<lparr>bn_parent := NULL\<rparr>)\<rparr>)"
proof -
  note sh = assms(1) [unfolded btree_shape_def]
  let ?h = "(b_nodes m)(node \<mapsto> n\<lparr>bn_parent := NULL\<rparr>)"
  have t: "tree_rep ?h NULL t (bt_root r)" using sh assms(2) by simp
  then have s': "btree_shape cpu (m\<lparr>b_nodes := ?h\<rparr>) b r t" using sh by (simp add: btree_shape_def)
  have "t \<noteq> Leaf" using assms(5) by auto
  then have "bt_root r \<noteq> NULL" using t tree_rep_root by blast
  moreover have "insert_loop ?h node (bt_root r) = Some (- EEXIST, ?h)"
    using insert_loop_exists [OF t assms(3), of "n\<lparr>bn_parent := NULL\<rparr>"] assms(5) by simp
  ultimately show ?thesis
    using sh assms(3,4) btree_assert_locked_shape [OF assms(1)] btree_assert_locked_shape [OF s']
    by (simp add: btree_insert_node_def btree_isempty_def exec_simps)
qed

text \<open>Insertion of a key with a fresh node. \<open>b_frame\<close> says which nodes and trees stay as they are.\<close>

definition b_frame :: "ptr \<Rightarrow> ptr set \<Rightarrow> btmem \<Rightarrow> btmem \<Rightarrow> bool" where
  "b_frame b A m m' \<longleftrightarrow> (\<forall>c. c \<noteq> b \<longrightarrow> b_trees m' c = b_trees m c) \<and> same_outside A (b_nodes m) (b_nodes m')"

lemma btree_insert_rep:
  assumes "btree_rep cpu m b t" and "node \<noteq> NULL" and "b_nodes m node = None"
  shows "if tlookup t k = None
    then \<exists>m'. btree_insert cpu b node k d m = Some (0, m') \<and>
      btree_rep cpu m' b (graft t (Node Leaf (node, k, d) Leaf) k) \<and> b_frame b (insert node (ptrs t)) m m'
    else btree_insert cpu b node k d m = Some (- EEXIST, m)"
proof -
  from assms(1) obtain r where r: "btree_shape cpu m b r t" "ordered (inorder t)"
    "bt_nr_nodes r = of_nat (size t)" by (auto simp: btree_rep_def)
  note sh = r(1) [unfolded btree_shape_def]
  have node: "node \<notin> ptrs t" using tree_rep_live [of "b_nodes m" NULL t "bt_root r" node] sh assms(3) by auto
  let ?n = "\<lparr>bn_key = k, bn_data = d, bn_left = NULL, bn_parent = NULL, bn_right = NULL, bn_btree = NULL\<rparr>"
  let ?m = "m\<lparr>b_nodes := (b_nodes m)(node \<mapsto> ?n)\<rparr>"
  have s': "btree_shape cpu ?m b r t" using sh node by (simp add: btree_shape_def)
  have ins: "btree_insert cpu b node k d m = do {
      (err, m) \<leftarrow> btree_insert_node cpu b node ?m;
      if err \<noteq> 0 then do { m \<leftarrow> btree_free_node node m; Some (err, m) } else Some (0, m) }"
    using sh assms(2) btree_assert_locked_shape [OF r(1)]
    by (simp add: btree_insert_def btree_alloc_node_def exec_simps)
  show ?thesis
  proof (cases "tlookup t k = None")
    case True
    let ?s = "Node Leaf (node, k, d) Leaf"
    have "tree_rep (b_nodes ?m) NULL ?s node" using assms(2) by simp
    from btree_insert_node_graft [OF s' this refl] node True obtain m' r' where
      m': "btree_insert_node cpu b node ?m = Some (0, m')" "btree_shape cpu m' b r' (graft t ?s k)"
      "bt_nr_nodes r' = bt_nr_nodes r + 1" "b_trees m' = (b_trees m)(b \<mapsto> r')"
      "same_outside (insert node (ptrs t)) (b_nodes ?m) (b_nodes m')" by auto
    have "k \<notin> i_key ` set (inorder t)" using True tlookup_None [OF r(2)] by simp
    from inorder_split [OF r(2) this] obtain us vs where uv: "inorder t = us @ vs"
      "\<forall>x \<in> set us. i_key x < k" "\<forall>y \<in> set vs. k < i_key y" by blast
    have "ordered (inorder (graft t ?s k))"
      using inorder_graft [OF uv(1) r(2) uv(2,3), of ?s] uv r(2) by (auto intro: less_trans)
    moreover have "bt_nr_nodes r' = of_nat (size (graft t ?s k))"
      using m'(3) r(3) size_graft [OF True, of ?s] by simp
    ultimately have "btree_rep cpu m' b (graft t ?s k)" using m'(2) by (auto simp: btree_rep_def)
    moreover have "b_frame b (insert node (ptrs t)) m m'"
      using m'(4,5) by (auto simp: b_frame_def same_outside_def)
    ultimately show ?thesis using True m'(1) by (simp add: ins)
  next
    case False
    have "btree_insert_node cpu b node ?m = Some (- EEXIST, ?m)"
      using btree_insert_node_exists [OF s' node assms(2), of ?n] False by simp
    moreover have "(b_nodes m)(node := None) = b_nodes m" using assms(3) by auto
    ultimately show ?thesis using False assms(2) by (simp add: ins btree_free_node_def exec_simps)
  qed
qed

lemma btree_reinsert_graft:
  assumes "btree_shape cpu m b r t" and "tree_rep (b_nodes m) q s p" and "disjoint_ptrs s"
    and "ptrs t \<inter> ptrs s = {}" and "inorder t = xs @ ys" and "ordered (xs @ inorder s @ ys)"
  shows "\<exists>m' r' t'. btree_reinsert cpu b p m = Some m' \<and> btree_shape cpu m' b r' t' \<and>
    bt_nr_nodes r' = bt_nr_nodes r \<and> inorder t' = xs @ inorder s @ ys \<and> ptrs t' = ptrs t \<union> ptrs s \<and>
    b_frame b (ptrs t \<union> ptrs s) m m' \<and> same_outside (insert p (ptrs t)) (b_nodes m) (b_nodes m')"
proof (cases s)
  case Leaf
  with assms show ?thesis
    by (auto simp: btree_reinsert_def b_frame_def same_outside_def)
next
  case (Node sl y sr)
  note sh = assms(1) [unfolded btree_shape_def]
  let ?r = "r\<lparr>bt_nr_nodes := bt_nr_nodes r - 1\<rparr>"
  let ?m = "put_tree b ?r m"
  have s': "btree_shape cpu ?m b ?r t" using sh by (simp add: btree_shape_def)
  have "ordered (inorder t)" using assms(5,6) by auto
  moreover have gap: "\<forall>x \<in> set xs. i_key x < i_key y" "\<forall>x \<in> set ys. i_key y < i_key x"
    using assms(6) Node by auto
  then have "i_key y \<notin> i_key ` set (inorder t)" unfolding assms(5) by force
  ultimately have key: "tlookup t (i_key y) = None" by (simp add: tlookup_None)
  have "tree_rep (b_nodes ?m) q s p" using assms(2) by simp
  from btree_insert_node_graft [OF s' this Node assms(3,4) key] obtain m' r' where
    m': "btree_insert_node cpu b p ?m = Some (0, m')" "btree_shape cpu m' b r' (graft t s (i_key y))"
      "bt_nr_nodes r' = bt_nr_nodes ?r + 1" "b_trees m' = (b_trees ?m)(b \<mapsto> r')"
      "same_outside (insert p (ptrs t)) (b_nodes ?m) (b_nodes m')" by auto
  have "inorder (graft t s (i_key y)) = xs @ inorder s @ ys"
    using inorder_graft [OF assms(5) \<open>ordered (inorder t)\<close> gap] .
  moreover have "p \<noteq> NULL" "p \<in> ptrs s" using assms(2) Node by auto
  moreover have "b_frame b (ptrs t \<union> ptrs s) m m'"
    using m'(4,5) \<open>p \<in> ptrs s\<close> by (auto simp: b_frame_def same_outside_def)
  moreover have "btree_reinsert cpu b p m = Some m'"
    using sh m'(1) \<open>p \<noteq> NULL\<close> by (simp add: btree_reinsert_def btree_decr_def exec_simps)
  ultimately show ?thesis
    using m'(2,3,5) ptrs_graft [OF key, of s] by auto
qed

lemma btree_unlink_rep:
  assumes "btree_shape cpu m b r t" and "a \<in> ptrs t"
  shows "\<exists>m' r'. btree_unlink b a m = Some m' \<and> btree_shape cpu m' b r' (prune a t) \<and>
    bt_nr_nodes r' = bt_nr_nodes r \<and> b_frame b (ptrs (prune a t)) m m'"
proof -
  note sh = assms(1) [unfolded btree_shape_def]
  have a: "a \<noteq> NULL" "\<exists>n. b_nodes m a = Some n"
    using tree_rep_live [of "b_nodes m" NULL t "bt_root r" a] sh assms(2) by auto
  have dis: "disjoint_ptrs (prune a t)"
    using prune_disjoint [OF assms(2)] sh by blast
  show ?thesis
  proof (cases "a = bt_root r")
    case True
    then have "prune a t = Leaf" using sh assms(2) by (cases t) auto
    with True sh a dis show ?thesis
      by (auto simp: btree_unlink_def exec_simps btree_shape_def b_frame_def same_outside_def)
  next
    case False
    from unlink_rep [OF _ _ assms(2) False, of "b_nodes m" NULL] sh obtain n q where
      nq: "b_nodes m a = Some n" "bn_parent n \<in> ptrs (prune a t)" "bn_parent n \<noteq> a"
        "b_nodes m (bn_parent n) = Some q" "bn_right q = a \<or> bn_left q = a"
        "tree_rep ((b_nodes m)(bn_parent n \<mapsto> cut_child a q)) NULL (prune a t) (bt_root r)" by blast
    let ?m = "m\<lparr>b_nodes := (b_nodes m)(bn_parent n \<mapsto> cut_child a q)\<rparr>"
    have "bn_parent n \<noteq> NULL"
      using tree_rep_live [OF nq(6,2)] by simp
    then have "btree_unlink b a m = Some ?m"
      using sh a nq(1,4,5) False by (auto simp: btree_unlink_def exec_simps cut_child_def)
    moreover have "btree_shape cpu ?m b r (prune a t)"
      using sh nq(6) dis by (simp add: btree_shape_def)
    moreover have "b_frame b (ptrs (prune a t)) m ?m"
      using nq(2) by (auto simp: b_frame_def same_outside_def)
    ultimately show ?thesis by blast
  qed
qed

lemma b_frame_trans:
  assumes "b_frame b A m m1" and "b_frame b B m1 m2" and "A \<union> B \<subseteq> C"
  shows "b_frame b C m m2"
proof -
  have "a \<notin> A \<and> a \<notin> B" if "a \<notin> C" for a using that assms(3) by blast
  with assms(1,2) show ?thesis by (simp add: b_frame_def same_outside_def)
qed

lemma b_frame_tree_rep:
  "b_frame b A m m' \<Longrightarrow> A \<inter> ptrs t = {} \<Longrightarrow> tree_rep (b_nodes m) q t p \<Longrightarrow> tree_rep (b_nodes m') q t p"
  by (erule tree_rep_cong) (auto simp: b_frame_def same_outside_def)

lemma btree_delete_node_rep:
  assumes "btree_rep cpu m b t" and "x \<in> set_tree t"
  shows "\<exists>m' t' us vs. btree_delete_node cpu b (i_ptr x) m = Some m' \<and> btree_rep cpu m' b t' \<and>
    inorder t = us @ x # vs \<and> inorder t' = us @ vs \<and> b_frame b (ptrs t) m m'"
proof -
  let ?a = "i_ptr x"
  from assms(1) obtain r where r: "btree_shape cpu m b r t" "ordered (inorder t)"
    "bt_nr_nodes r = of_nat (size t)" by (auto simp: btree_rep_def)
  note sh = r(1) [unfolded btree_shape_def]
  have a: "?a \<in> ptrs t" using assms(2) by (auto simp: ptrs_def)
  have dis: "disjoint_ptrs t" using sh by blast
  note pd = prune_disjoint [OF a dis]
  from inorder_prune [OF a] obtain xs ys where xy: "inorder t = xs @ inorder (subtree ?a t) @ ys"
    "inorder (prune ?a t) = xs @ ys" by blast
  from subtree_root [OF a] obtain sl y sr where st: "subtree ?a t = Node sl y sr" "i_ptr y = ?a" by blast
  have "y \<in> set (inorder t)" unfolding xy(1) st(1) by simp
  then have "y \<in> set_tree t" by simp
  moreover have "inj_on i_ptr (set_tree t)" using dis by (auto simp: disjoint_ptrs_def distinct_map)
  ultimately have y: "y = x" using st(2) assms(2) by (auto dest: inj_onD)
  from tree_rep_subtree [OF _ a, of "b_nodes m" NULL "bt_root r"] sh st y obtain n where
    n: "b_nodes m ?a = Some n" "tree_rep (b_nodes m) ?a sl (bn_left n)" "tree_rep (b_nodes m) ?a sr (bn_right n)"
    by fastforce
  have sub: "disjoint_ptrs sl" "disjoint_ptrs sr" "?a \<notin> ptrs sl" "?a \<notin> ptrs sr" "ptrs sl \<inter> ptrs sr = {}"
    "ptrs (prune ?a t) \<inter> ptrs sl = {}" "ptrs (prune ?a t) \<inter> ptrs sr = {}" "?a \<notin> ptrs (prune ?a t)"
    using pd(2,3) st y by auto
  from btree_unlink_rep [OF r(1) a] obtain m1 r1 where m1: "btree_unlink b ?a m = Some m1"
    "btree_shape cpu m1 b r1 (prune ?a t)" "bt_nr_nodes r1 = bt_nr_nodes r" "b_frame b (ptrs (prune ?a t)) m m1"
    by blast
  have ma: "b_nodes m1 ?a = Some n" using m1(4) n(1) sub(8) by (simp add: b_frame_def same_outside_def)
  let ?r = "r1\<lparr>bt_nr_nodes := bt_nr_nodes r1 - 1\<rparr>"
  let ?m2 = "m1\<lparr>b_nodes := (b_nodes m1)(?a := None), b_trees := (b_trees m1)(b \<mapsto> ?r)\<rparr>"
  have m2: "btree_shape cpu ?m2 b ?r (prune ?a t)" "b_frame b (insert ?a (ptrs (prune ?a t))) m ?m2"
    using m1(2,4) sub(8) by (auto simp: btree_shape_def b_frame_def same_outside_def)
  have rep2: "tree_rep (b_nodes ?m2) ?a sl (bn_left n)" "tree_rep (b_nodes ?m2) ?a sr (bn_right n)"
    using b_frame_tree_rep [OF m2(2)] n sub by auto
  have ord: "ordered (xs @ (inorder sl @ x # inorder sr) @ ys)" using r(2) xy(1) st y by simp
  have ord2: "ordered (xs @ inorder sr @ ys)" using ord by auto
  have ord3: "ordered (xs @ inorder sl @ inorder sr @ ys)" using ord by (auto intro: less_trans)
  from btree_reinsert_graft [OF m2(1) rep2(2) sub(2,7) xy(2) ord2] obtain m3 r3 t3 where
    m3: "btree_reinsert cpu b (bn_right n) ?m2 = Some m3" "btree_shape cpu m3 b r3 t3"
      "bt_nr_nodes r3 = bt_nr_nodes ?r" "inorder t3 = xs @ inorder sr @ ys"
      "ptrs t3 = ptrs (prune ?a t) \<union> ptrs sr" "b_frame b (ptrs (prune ?a t) \<union> ptrs sr) ?m2 m3" by blast
  have dis3: "ptrs t3 \<inter> ptrs sl = {}" using m3(5) sub by auto
  have "tree_rep (b_nodes m3) ?a sl (bn_left n)"
    using b_frame_tree_rep [OF m3(6) _ rep2(1)] sub by auto
  from btree_reinsert_graft [OF m3(2) this sub(1) dis3 m3(4) ord3] obtain m4 r4 t4 where
    m4: "btree_reinsert cpu b (bn_left n) m3 = Some m4" "btree_shape cpu m4 b r4 t4"
      "bt_nr_nodes r4 = bt_nr_nodes r3" "inorder t4 = xs @ inorder sl @ inorder sr @ ys"
      "b_frame b (ptrs t3 \<union> ptrs sl) m3 m4" by blast
  have "btree_delete_node cpu b ?a m = Some m4"
    using sh a n(1) m1(1,2) ma m3(1) m4(1) btree_assert_locked_shape [OF r(1)]
      tree_rep_live [of "b_nodes m" NULL t "bt_root r" ?a]
    by (simp add: btree_delete_node_def btree_free_node_def btree_decr_def exec_simps btree_shape_def)
  moreover have "size t = Suc (size t4)"
    using xy(1) st y m4(4) by (simp flip: length_inorder)
  then have "btree_rep cpu m4 b t4"
    using m4(2,3,4) m3(3) m1(3) r(3) ord3 by (auto simp: btree_rep_def)
  moreover have "b_frame b (ptrs t) m m4"
    using b_frame_trans [OF b_frame_trans [OF m2(2) m3(6) subset_refl] m4(5)] pd(4) st y m3(5) by auto
  moreover have "inorder t = (xs @ inorder sl) @ x # (inorder sr @ ys)"
    "inorder t4 = (xs @ inorder sl) @ (inorder sr @ ys)" using xy(1) st y m4(4) by simp_all
  ultimately show ?thesis by blast
qed

lemma btree_delete_rep:
  assumes "btree_rep cpu m b t"
  shows "\<exists>m' t'. btree_delete cpu b k m = Some m' \<and> btree_rep cpu m' b t' \<and> b_frame b (ptrs t) m m' \<and>
    inorder t' = filter (\<lambda>x. i_key x \<noteq> k) (inorder t)"
proof -
  from assms have ord: "ordered (inorder t)" by (auto simp: btree_rep_def)
  from btree_assert_locked_rep [OF assms] obtain r where r: "btree_assert_locked cpu b m = Some r" by blast
  then have b: "b \<noteq> NULL" using assms by (auto simp: btree_rep_def btree_shape_def)
  show ?thesis
  proof (cases "tlookup t k")
    case None
    then have "filter (\<lambda>x. i_key x \<noteq> k) (inorder t) = inorder t"
      using tlookup_None [OF ord] by (auto simp: filter_id_conv)
    moreover have "btree_delete cpu b k m = Some m"
      using r b None by (simp add: btree_delete_def btree_lookup_rep [OF assms] btree_delete_node_def)
    ultimately show ?thesis using assms by (auto simp: b_frame_def same_outside_def)
  next
    case (Some x)
    then have x: "x \<in> set_tree t" "i_key x = k" using tlookup_Some [OF ord] by auto
    from btree_delete_node_rep [OF assms x(1)] obtain m' t' us vs where
      m': "btree_delete_node cpu b (i_ptr x) m = Some m'" "btree_rep cpu m' b t'"
        "inorder t = us @ x # vs" "inorder t' = us @ vs" "b_frame b (ptrs t) m m'" by blast
    have "filter (\<lambda>x. i_key x \<noteq> k) us = us" "filter (\<lambda>x. i_key x \<noteq> k) vs = vs"
      using ord x(2) unfolding m'(3) filter_id_conv by auto
    then have "filter (\<lambda>x. i_key x \<noteq> k) (inorder t) = us @ vs" using x(2) by (simp add: m'(3))
    moreover have "btree_delete cpu b k m = Some m'"
      using r Some m'(1) by (simp add: btree_delete_def btree_lookup_rep [OF assms])
    ultimately show ?thesis using m' by auto
  qed
qed

section \<open>The tree as a map\<close>

definition btree_map :: "item tree \<Rightarrow> u32 \<rightharpoonup> ptr" where
  "btree_map t k = map_option i_data (tlookup t k)"

definition map_rep :: "ptr \<Rightarrow> ptr \<Rightarrow> btmem \<Rightarrow> (u32 \<rightharpoonup> ptr) \<Rightarrow> bool" where
  "map_rep cpu b m f \<longleftrightarrow> (\<exists>t. btree_rep cpu m b t \<and> btree_map t = f)"

definition node_fresh :: "ptr \<Rightarrow> btmem \<Rightarrow> bool" where
  "node_fresh node m \<longleftrightarrow> node \<noteq> NULL \<and> b_nodes m node = None"

lemma btree_map_inorder:
  assumes "ordered (inorder t)"
  shows "btree_map t k = Some d \<longleftrightarrow> (\<exists>x \<in> set (inorder t). i_key x = k \<and> i_data x = d)"
  unfolding btree_map_def map_option_eq_Some tlookup_Some [OF assms] set_inorder Bex_def by blast

lemma btree_map_eqI:
  assumes "ordered (inorder t)" and "\<And>k d. f k = Some d \<longleftrightarrow> (\<exists>x \<in> set (inorder t). i_key x = k \<and> i_data x = d)"
  shows "btree_map t = f"
proof
  fix k
  have "btree_map t k = Some d \<longleftrightarrow> f k = Some d" for d
    using assms by (simp only: btree_map_inorder)
  then show "btree_map t k = f k" by (metis not_None_eq)
qed

lemma btree_search_rep:
  assumes "btree_rep cpu m b t"
  shows "btree_search cpu b k m =
    Some (case btree_map t k of None \<Rightarrow> (- ENOENT, None) | Some d \<Rightarrow> (0, Some d))"
proof -
  from btree_assert_locked_rep [OF assms] obtain r where r: "btree_assert_locked cpu b m = Some r"
    "tree_rep (b_nodes m) NULL t (bt_root r)" by blast
  have ord: "ordered (inorder t)" using assms by (auto simp: btree_rep_def)
  have node: "\<exists>n. b_nodes m (i_ptr x) = Some n \<and> bn_data n = i_data x \<and> i_ptr x \<noteq> NULL" if "x \<in> set_tree t" for x
    using tree_rep_item [OF r(2) that] by auto
  show ?thesis
  proof (cases "tlookup t k")
    case None
    with r(1) show ?thesis by (simp add: btree_search_def btree_lookup_rep [OF assms] btree_map_def)
  next
    case (Some x)
    then have "x \<in> set_tree t" using tlookup_Some [OF ord] by blast
    from node [OF this] show ?thesis
      using r(1) Some by (auto simp: btree_search_def btree_lookup_rep [OF assms] btree_map_def exec_simps)
  qed
qed

interpretation bmap: kmap "map_rep cpu b" node_fresh "\<lambda>k. btree_search cpu b k"
  "\<lambda>node k d. btree_insert cpu b node k d" "\<lambda>k. btree_delete cpu b k" for cpu b
proof
  fix m f k assume "map_rep cpu b m f"
  then show "btree_search cpu b k m = Some (case f k of None \<Rightarrow> (- ENOENT, None) | Some v \<Rightarrow> (0, Some v))"
    by (auto simp: map_rep_def btree_search_rep)
next
  fix m f node k d assume "map_rep cpu b m f" and fr: "node_fresh node m"
  then obtain t where t: "btree_rep cpu m b t" "btree_map t = f" by (auto simp: map_rep_def)
  have ord: "ordered (inorder t)" using t(1) by (auto simp: btree_rep_def)
  let ?t = "graft t (Node Leaf (node, k, d) Leaf) k"
  show "\<exists>m'. btree_insert cpu b node k d m = Some (if f k = None then 0 else - EEXIST, m') \<and>
      map_rep cpu b m' (if f k = None then f(k \<mapsto> d) else f)"
  proof (cases "tlookup t k")
    case None
    with btree_insert_rep [OF t(1), of node k d] fr obtain m' where
      m': "btree_insert cpu b node k d m = Some (0, m')" "btree_rep cpu m' b ?t" by (auto simp: node_fresh_def)
    have ord': "ordered (inorder ?t)" using m'(2) by (auto simp: btree_rep_def)
    have fk: "f k = None" using None t(2) by (auto simp: btree_map_def)
    have "k \<notin> i_key ` set (inorder t)" using None tlookup_None [OF ord] by simp
    from inorder_split [OF ord this] obtain us vs where uv: "inorder t = us @ vs"
      "\<forall>x \<in> set us. i_key x < k" "\<forall>y \<in> set vs. k < i_key y" by blast
    have S: "set (inorder ?t) = insert (node, k, d) (set (inorder t))"
      unfolding inorder_graft [OF uv(1) ord uv(2,3)] uv(1) by auto
    have "btree_map ?t = f(k \<mapsto> d)"
    proof (rule btree_map_eqI [OF ord'])
      fix k' d'
      have "(\<exists>x \<in> set (inorder ?t). i_key x = k' \<and> i_data x = d') \<longleftrightarrow> k = k' \<and> d = d' \<or> f k' = Some d'"
        unfolding S t(2) [symmetric] btree_map_inorder [OF ord] by simp
      then show "(f(k \<mapsto> d)) k' = Some d' \<longleftrightarrow> (\<exists>x \<in> set (inorder ?t). i_key x = k' \<and> i_data x = d')"
        using fk by auto
    qed
    with m' fk show ?thesis by (auto simp: map_rep_def)
  next
    case (Some x)
    with btree_insert_rep [OF t(1), of node k d] fr t show ?thesis
      by (auto simp: node_fresh_def btree_map_def map_rep_def)
  qed
next
  fix m f k assume "map_rep cpu b m f"
  then obtain t where t: "btree_rep cpu m b t" "btree_map t = f" by (auto simp: map_rep_def)
  from btree_delete_rep [OF t(1)] obtain m' t' where m': "btree_delete cpu b k m = Some m'"
    "btree_rep cpu m' b t'" "inorder t' = filter (\<lambda>x. i_key x \<noteq> k) (inorder t)" by blast
  have ord: "ordered (inorder t)" "ordered (inorder t')" using t(1) m'(2) by (auto simp: btree_rep_def)
  have "btree_map t' = f(k := None)"
  proof (rule btree_map_eqI [OF ord(2)])
    fix k' d'
    have "(\<exists>x \<in> set (inorder t'). i_key x = k' \<and> i_data x = d') \<longleftrightarrow> k' \<noteq> k \<and> f k' = Some d'"
      unfolding m'(3) t(2) [symmetric] btree_map_inorder [OF ord(1)] set_filter Bex_def mem_Collect_eq
      by blast
    then show "(f(k := None)) k' = Some d' \<longleftrightarrow> (\<exists>x \<in> set (inorder t'). i_key x = k' \<and> i_data x = d')"
      by auto
  qed
  with m' show "\<exists>m'. btree_delete cpu b k m = Some m' \<and> map_rep cpu b m' (f(k := None))"
    by (auto simp: map_rep_def)
qed

section \<open>Properties\<close>

text \<open>An empty tree at address 1, locked by the CPU at address 7.\<close>

definition example_bt :: btmem where
  "example_bt = \<lparr>b_trees = [1 \<mapsto> \<lparr>bt_root = NULL, bt_nr_nodes = 0, bt_lock = \<lparr>sl_lock = 1, sl_cpu = 7\<rparr>\<rparr>],
     b_nodes = Map.empty\<rparr>"

lemma example_bt_rep: "btree_rep 7 example_bt 1 Leaf"
  by (simp add: example_bt_def btree_rep_def btree_shape_def)

text \<open>The same tree with the keys 3, 5 and 8, and 5 at the root.\<close>

definition example_bt3 :: btmem where
  "example_bt3 = \<lparr>b_trees = [1 \<mapsto> \<lparr>bt_root = 10, bt_nr_nodes = 3, bt_lock = \<lparr>sl_lock = 1, sl_cpu = 7\<rparr>\<rparr>],
     b_nodes = [10 \<mapsto> \<lparr>bn_key = 5, bn_data = 50, bn_left = 11, bn_parent = NULL, bn_right = 12, bn_btree = 1\<rparr>,
       11 \<mapsto> \<lparr>bn_key = 3, bn_data = 30, bn_left = NULL, bn_parent = 10, bn_right = NULL, bn_btree = 1\<rparr>,
       12 \<mapsto> \<lparr>bn_key = 8, bn_data = 80, bn_left = NULL, bn_parent = 10, bn_right = NULL, bn_btree = 1\<rparr>]\<rparr>"

abbreviation example_tree3 :: "item tree" where
  "example_tree3 \<equiv> Node (Node Leaf (11, 3, 30) Leaf) (10, 5, 50) (Node Leaf (12, 8, 80) Leaf)"

lemma example_bt3_rep: "btree_rep 7 example_bt3 1 example_tree3"
  by (simp add: example_bt3_def btree_rep_def btree_shape_def)

text \<open>C5. A tree behaves as a finite map: for every sequence of searches, insertions with
  fresh nodes and deletions, starting from a tree that represents a map, no call fails to return
  and the results and error codes are those of the same sequence on the map.\<close>

theorem btree_refines_map:
  assumes "map_rep cpu b m f" and "bmap.ops_fresh cpu b ops m"
  shows "\<exists>m'. bmap.exec_ops cpu b ops m = Some (fst (map_run ops f), m') \<and>
    map_rep cpu b m' (snd (map_run ops f))"
  using assms by (rule bmap.exec_ops_rep)

theorem btree_refines_map_witness:
  "\<exists>m'. bmap.exec_ops 7 1 [Insert 10 5 77, Search 5, Delete 5, Search 5] example_bt =
    Some ([(0, None), (0, Some 77), (0, None), (- ENOENT, None)], m')"
proof -
  have "map_rep 7 1 example_bt Map.empty"
    using example_bt_rep by (auto simp: map_rep_def btree_map_def fun_eq_iff intro!: exI [of _ Leaf])
  moreover have "bmap.ops_fresh 7 1 [Insert 10 5 77, Search 5, Delete 5, Search 5] example_bt"
    by (simp add: node_fresh_def example_bt_def)
  ultimately show ?thesis
    using btree_refines_map [of 7 1 example_bt Map.empty "[Insert 10 5 77, Search 5, Delete 5, Search 5]"]
    by auto
qed

text \<open>C22. Deletion keeps the search tree: exactly the node with the key is unlinked and freed, its two
  subtrees are put back, the node count stays exact, and no node outside the tree is touched.\<close>

theorem btree_delete_correct:
  assumes "btree_rep cpu m b t"
  shows "\<exists>m' t'. btree_delete cpu b k m = Some m' \<and> btree_rep cpu m' b t' \<and> b_frame b (ptrs t) m m' \<and>
    inorder t' = filter (\<lambda>x. i_key x \<noteq> k) (inorder t)"
  using assms by (rule btree_delete_rep)

theorem btree_delete_correct_witness:
  "\<exists>m' t'. btree_delete 7 1 5 example_bt3 = Some m' \<and> btree_rep 7 m' 1 t' \<and>
    inorder t' = [(11, 3, 30), (12, 8, 80)]"
  using btree_delete_correct [OF example_bt3_rep, of 5] by auto

text \<open>\<^verbatim>\<open>btree_least\<close> and \<^verbatim>\<open>btree_largest\<close> return the data of the least and the largest key, and
  \<^verbatim>\<open>NULL\<close> for an empty tree.\<close>

theorem btree_extremes:
  assumes "btree_rep cpu m b t"
  shows "btree_least cpu b m = Some (fst_or NULL (map i_data (inorder t))) \<and>
    btree_largest cpu b m = Some (lst_or NULL (map i_data (inorder t))) \<and> ordered (inorder t)"
proof -
  from btree_assert_locked_rep [OF assms] obtain r where r: "btree_assert_locked cpu b m = Some r"
    "tree_rep (b_nodes m) NULL t (bt_root r)" by blast
  have b: "b \<noteq> NULL" "ordered (inorder t)" using assms by (auto simp: btree_rep_def btree_shape_def)
  show ?thesis
  proof (cases "t = Leaf")
    case True
    then show ?thesis
      using r b chain_end_left [OF r(2)] chain_end_right [OF r(2)]
      by (simp add: btree_least_def btree_largest_def btree_least_node_def btree_largest_node_def)
  next
    case False
    then have ne: "inorder t \<noteq> []" by (cases t) auto
    then have mem: "hd (inorder t) \<in> set_tree t" "last (inorder t) \<in> set_tree t"
      by (metis hd_in_set set_inorder, metis last_in_set set_inorder)
    have "fst_or d (map f (inorder t)) = f (hd (inorder t))" "lst_or d (map f (inorder t)) = f (last (inorder t))"
      for d :: ptr and f using ne by (auto simp: fst_or_def lst_or_def last_map hd_map split: list.splits)
    with tree_rep_item [OF r(2) mem(1)] tree_rep_item [OF r(2) mem(2)] show ?thesis
      using r b chain_end_left [OF r(2)] chain_end_right [OF r(2)]
      by (auto simp: btree_least_def btree_largest_def btree_least_node_def btree_largest_node_def exec_simps)
  qed
qed

theorem btree_extremes_witness:
  "btree_least 7 1 example_bt3 = Some 30 \<and> btree_largest 7 1 example_bt3 = Some 80"
  using btree_extremes [OF example_bt3_rep] by simp

end
