(* ===== verification/Arena.thy ===== *)
theory Arena
  imports Kernel_Prelude
begin

text \<open>
  Lists of address regions, the abstraction of the kernel virtual memory allocator. A region is
  a base and a size. \<open>put_region\<close> is the coalescing insertion into the address-ordered list of
  free regions, \<open>arena\<close> the invariant of the allocator.
\<close>

type_synonym region = "nat \<times> nat"

abbreviation ARENA_BASE :: nat where "ARENA_BASE \<equiv> 0xC8000000"
abbreviation ARENA_END :: nat where "ARENA_END \<equiv> 0xFE000000"
abbreviation PAGE :: nat where "PAGE \<equiv> 0x1000"

definition rend :: "region \<Rightarrow> nat" where
  "rend r = fst r + snd r"

definition apart :: "region \<Rightarrow> region \<Rightarrow> bool" where
  "apart r q \<longleftrightarrow> rend r \<le> fst q \<or> rend q \<le> fst r"

definition region_ok :: "region \<Rightarrow> bool" where
  "region_ok r \<longleftrightarrow> 0 < snd r \<and> PAGE dvd fst r \<and> PAGE dvd snd r \<and> ARENA_BASE \<le> fst r \<and> rend r \<le> ARENA_END"

text \<open>Free regions are in address order and do not even touch.\<close>

definition gap :: "region \<Rightarrow> region \<Rightarrow> bool" where
  "gap r q \<longleftrightarrow> rend r < fst q"

abbreviation total :: "region list \<Rightarrow> nat" where
  "total rs \<equiv> sum_list (map snd rs)"

definition arena :: "region list \<Rightarrow> region list \<Rightarrow> bool" where
  "arena fs us \<longleftrightarrow> (\<forall>r \<in> set fs \<union> set us. region_ok r) \<and> sorted_wrt gap fs \<and> sorted_wrt apart us \<and>
    (\<forall>f \<in> set fs. \<forall>u \<in> set us. apart f u) \<and> total fs + total us = ARENA_END - ARENA_BASE"

text \<open>Insertion between the regions below and the regions above.\<close>

definition put_between :: "region \<Rightarrow> region list \<Rightarrow> region list \<Rightarrow> region list" where
  "put_between r ls rs =
    (let ml = (ls \<noteq> [] \<and> rend (last ls) = fst r); mr = (rs \<noteq> [] \<and> rend r = fst (hd rs)) in
     if ml \<and> mr then butlast ls @ (fst (last ls), snd (last ls) + (snd r + snd (hd rs))) # tl rs
     else if ml then butlast ls @ (fst (last ls), snd (last ls) + snd r) # rs
     else if mr then ls @ (fst r, snd (hd rs) + snd r) # tl rs
     else ls @ r # rs)"

definition put_region :: "region \<Rightarrow> region list \<Rightarrow> region list" where
  "put_region r fs =
    put_between r (takeWhile (\<lambda>q. fst q < fst r) fs) (dropWhile (\<lambda>q. fst q < fst r) fs)"

lemma apart_sym: "apart r q = apart q r"
  by (auto simp: apart_def)

lemma gap_trans: "gap r q \<Longrightarrow> gap q p \<Longrightarrow> gap r p"
  by (auto simp: gap_def rend_def)

lemma gap_apart: "gap r q \<Longrightarrow> apart r q"
  by (simp add: gap_def apart_def)

lemma gap_apart2: "gap r q \<Longrightarrow> apart q r"
  by (simp add: gap_def apart_def)

text \<open>The four shapes of an insertion.\<close>

lemma put_between_cases:
  obtains (both) as l q bs where "ls = as @ [l]" "rs = q # bs" "rend l = fst r" "rend r = fst q"
      "put_between r ls rs = as @ (fst l, snd l + (snd r + snd q)) # bs"
  | (left) as l where "ls = as @ [l]" "rend l = fst r" "put_between r ls rs = as @ (fst l, snd l + snd r) # rs"
      "rs = [] \<or> rend r \<noteq> fst (hd rs)"
  | (right) q bs where "rs = q # bs" "rend r = fst q" "put_between r ls rs = ls @ (fst r, snd q + snd r) # bs"
      "ls = [] \<or> rend (last ls) \<noteq> fst r"
  | (none) "put_between r ls rs = ls @ r # rs" "ls = [] \<or> rend (last ls) \<noteq> fst r" "rs = [] \<or> rend r \<noteq> fst (hd rs)"
proof -
  obtain as l where ls: "ls = [] \<or> ls = as @ [l]" by (cases ls rule: rev_cases) auto
  obtain q bs where rs: "rs = [] \<or> rs = q # bs" by (cases rs) auto
  show thesis
  proof (cases "ls \<noteq> [] \<and> rend (last ls) = fst r"; cases "rs \<noteq> [] \<and> rend r = fst (hd rs)")
    assume "ls \<noteq> [] \<and> rend (last ls) = fst r" "rs \<noteq> [] \<and> rend r = fst (hd rs)"
    with ls rs show thesis by (intro both [of as l q bs]) (auto simp: put_between_def)
  next
    assume "ls \<noteq> [] \<and> rend (last ls) = fst r" "\<not> (rs \<noteq> [] \<and> rend r = fst (hd rs))"
    with ls show thesis by (intro left [of as l]) (auto simp: put_between_def)
  next
    assume "\<not> (ls \<noteq> [] \<and> rend (last ls) = fst r)" "rs \<noteq> [] \<and> rend r = fst (hd rs)"
    with rs show thesis by (intro right [of q bs]) (auto simp: put_between_def)
  next
    assume "\<not> (ls \<noteq> [] \<and> rend (last ls) = fst r)" "\<not> (rs \<noteq> [] \<and> rend r = fst (hd rs))"
    then show thesis by (intro none) (auto simp: put_between_def)
  qed
qed

lemma total_put_between: "total (put_between r ls rs) = total (ls @ rs) + snd r"
  by (cases rule: put_between_cases [of ls rs r]) simp_all

lemma gap_merged [simp]:
  "rend l = fst r \<Longrightarrow> gap (fst l, snd l + snd r) p \<longleftrightarrow> gap r p"
  "rend r = fst q \<Longrightarrow> gap (fst r, snd q + snd r) p \<longleftrightarrow> gap q p"
  "rend l = fst r \<Longrightarrow> rend r = fst q \<Longrightarrow> gap (fst l, snd l + (snd r + snd q)) p \<longleftrightarrow> gap q p"
  "gap p (fst l, n) \<longleftrightarrow> gap p l"
  by (auto simp: gap_def rend_def)

lemma gap_above:
  assumes "sorted_wrt gap rs" and "rs = [] \<or> rend r < fst (hd rs)" and "q \<in> set rs"
  shows "gap r q"
  using assms by (cases rs) (auto simp: gap_def rend_def)

lemma gap_below:
  assumes "sorted_wrt gap ls" and "ls = [] \<or> rend (last ls) < fst r" and "q \<in> set ls"
  shows "gap q r"
  using assms by (cases ls rule: rev_cases) (auto simp: sorted_wrt_append gap_def rend_def)

lemma put_between_sorted:
  assumes "sorted_wrt gap (ls @ rs)" and "\<forall>q \<in> set (ls @ rs). apart r q \<and> 0 < snd q" and "0 < snd r"
    and "\<forall>q \<in> set ls. fst q < fst r" and "\<forall>q \<in> set rs. fst r \<le> fst q"
  shows "sorted_wrt gap (put_between r ls rs)"
proof -
  have "rend q \<le> fst r" if "q \<in> set ls" for q
  proof -
    from that assms(2,4) have "apart r q" "fst q < fst r" by auto
    with assms(3) show ?thesis by (auto simp: apart_def rend_def)
  qed
  then have l: "ls = [] \<or> rend (last ls) \<noteq> fst r \<Longrightarrow> ls = [] \<or> rend (last ls) < fst r"
    by (metis last_in_set le_neq_implies_less)
  have "rend r \<le> fst q" if "q \<in> set rs" for q
  proof -
    from that assms(2,5) have "apart r q" "fst r \<le> fst q" "0 < snd q" by auto
    with assms(3) show ?thesis by (auto simp: apart_def rend_def)
  qed
  then have u: "rs = [] \<or> rend r \<noteq> fst (hd rs) \<Longrightarrow> rs = [] \<or> rend r < fst (hd rs)"
    by (metis hd_in_set le_neq_implies_less)
  have s: "sorted_wrt gap ls" "sorted_wrt gap rs" using assms(1) by (simp_all add: sorted_wrt_append)
  show ?thesis
  proof (cases rule: put_between_cases [of ls rs r])
    case (both as l q bs)
    then show ?thesis using assms(1) by (auto simp: sorted_wrt_append)
  next
    case (left as l')
    then show ?thesis using assms(1) gap_above [OF s(2) u] by (auto simp: sorted_wrt_append)
  next
    case (right q bs)
    then show ?thesis using assms(1) gap_below [OF s(1) l] by (auto simp: sorted_wrt_append)
  next
    case none
    then show ?thesis
      using assms(1) gap_above [OF s(2) u] gap_below [OF s(1) l] by (auto simp: sorted_wrt_append)
  qed
qed

lemma put_between_all:
  assumes "\<forall>q \<in> set (ls @ rs). P q" and "P r"
    and "\<And>q p. P q \<Longrightarrow> P p \<Longrightarrow> rend q = fst p \<Longrightarrow> P (fst q, snd q + snd p)"
  shows "\<forall>q \<in> set (put_between r ls rs). P q"
proof (cases rule: put_between_cases [of ls rs r])
  case (both as l q bs)
  then have "P (fst l, snd l + snd r)" "P q" using assms by auto
  then have "P (fst l, snd l + snd r + snd q)"
    using assms(3) [of "(fst l, snd l + snd r)" q] both by (simp add: rend_def)
  with both assms(1) show ?thesis by (auto simp: add.assoc)
next
  case (left as l)
  then show ?thesis using assms by auto
next
  case (right q bs)
  then have "P (fst r, snd r + snd q)" using assms by auto
  with right assms(1) show ?thesis by (auto simp: add.commute)
next
  case none
  then show ?thesis using assms by auto
qed

lemma region_ok_merge: "region_ok q \<Longrightarrow> region_ok p \<Longrightarrow> rend q = fst p \<Longrightarrow> region_ok (fst q, snd q + snd p)"
  by (auto simp: region_ok_def rend_def)

lemma apart_merge:
  "0 < snd u \<Longrightarrow> apart q u \<Longrightarrow> apart p u \<Longrightarrow> rend q = fst p \<Longrightarrow> apart (fst q, snd q + snd p) u"
  by (auto simp: apart_def rend_def)

text \<open>Freeing a region: what is put back is merged with its neighbours.\<close>

lemma sorted_gap_fst:
  assumes "sorted_wrt gap fs" and "\<forall>q \<in> set fs. 0 < snd q"
  shows "\<forall>q \<in> set (dropWhile (\<lambda>q. fst q < b) fs). b \<le> fst q"
  using assms
proof (induction fs)
  case Nil
  then show ?case by simp
next
  case (Cons x fs)
  then show ?case by (auto simp: gap_def rend_def)
qed

lemma arena_put_region:
  assumes "\<forall>q \<in> set fs \<union> set us. region_ok q" and "sorted_wrt gap fs" and "sorted_wrt apart us"
    and "\<forall>f \<in> set fs. \<forall>u \<in> set us. apart f u" and "region_ok r" and "\<forall>q \<in> set fs \<union> set us. apart r q"
    and "total fs + snd r + total us = ARENA_END - ARENA_BASE"
  shows "arena (put_region r fs) us"
proof -
  let ?ls = "takeWhile (\<lambda>q. fst q < fst r) fs" and ?rs = "dropWhile (\<lambda>q. fst q < fst r) fs"
  have ok: "0 < snd q" if "q \<in> set fs \<union> set us" for q using assms(1) that by (auto simp: region_ok_def)
  have "sorted_wrt gap (put_between r ?ls ?rs)"
  proof (rule put_between_sorted)
    show "\<forall>q \<in> set ?ls. fst q < fst r" by (auto dest: set_takeWhileD)
    show "\<forall>q \<in> set ?rs. fst r \<le> fst q" using sorted_gap_fst [OF assms(2)] ok by auto
  qed (use assms ok in \<open>auto simp: region_ok_def\<close>)
  moreover have "\<forall>q \<in> set (put_between r ?ls ?rs). region_ok q"
    by (rule put_between_all) (use assms region_ok_merge in auto)
  moreover have "\<forall>q \<in> set (put_between r ?ls ?rs). apart q u" if "u \<in> set us" for u
    by (rule put_between_all) (use assms ok apart_merge that in auto)
  ultimately show ?thesis
    using assms(1,3,7) total_put_between [of r ?ls ?rs] by (auto simp: arena_def put_region_def)
qed

lemma arena_free:
  assumes "arena fs (as @ u # bs)"
  shows "arena (put_region u fs) (as @ bs)"
  by (rule arena_put_region)
    (use assms in \<open>auto simp: arena_def sorted_wrt_append apart_sym\<close>)

text \<open>Taking the front of a free region.\<close>

lemma put_region_front:
  assumes "sorted_wrt gap (as @ (b, t) # bs)" and "n < t" and "\<forall>q \<in> set (as @ bs). 0 < snd q"
  shows "put_region (b + n, t - n) (as @ bs) = as @ (b + n, t - n) # bs"
proof -
  have "takeWhile (\<lambda>q. fst q < b + n) (as @ bs) = as" "dropWhile (\<lambda>q. fst q < b + n) (as @ bs) = bs"
  proof -
    have "\<forall>q \<in> set as. fst q < b + n" using assms(1) by (auto simp: sorted_wrt_append gap_def rend_def)
    moreover have "bs = [] \<or> \<not> fst (hd bs) < b + n"
      using assms(1,2) by (cases bs) (auto simp: sorted_wrt_append gap_def rend_def)
    ultimately show "takeWhile (\<lambda>q. fst q < b + n) (as @ bs) = as"
      "dropWhile (\<lambda>q. fst q < b + n) (as @ bs) = bs"
      by (auto simp: takeWhile_append dropWhile_append takeWhile_eq_Nil_iff dropWhile_eq_self_iff)
  qed
  moreover have "as = [] \<or> rend (last as) \<noteq> b + n"
    using assms(1) by (cases as rule: rev_cases) (auto simp: sorted_wrt_append gap_def rend_def)
  moreover have "bs = [] \<or> rend (b + n, t - n) \<noteq> fst (hd bs)"
    using assms(1,2) by (cases bs) (auto simp: sorted_wrt_append gap_def rend_def)
  ultimately show ?thesis by (auto simp: put_region_def put_between_def)
qed

lemma arena_alloc_all:
  assumes "arena (as @ r # bs) us"
  shows "arena (as @ bs) (us @ [r])"
  using assms by (auto simp: arena_def sorted_wrt_append apart_sym intro: gap_apart gap_apart2)

lemma arena_alloc_front:
  assumes "arena (as @ (b, t) # bs) us" and "n < t" and "0 < n" and "PAGE dvd n"
  shows "arena (as @ (b + n, t - n) # bs) (us @ [(b, n)])"
proof -
  have ok: "region_ok (b, t)" "\<forall>q \<in> set (as @ bs) \<union> set us. region_ok q" using assms(1) by (auto simp: arena_def)
  have r: "region_ok (b + n, t - n)" "region_ok (b, n)"
    using ok(1) assms(2-4) by (auto simp: region_ok_def rend_def intro: dvd_diff_nat)
  have sub: "apart (b, n) q" "apart (b + n, t - n) q" if "apart (b, t) q" for q
    using that assms(2) by (auto simp: apart_def rend_def)
  have all: "apart (b, t) q" if "q \<in> set (as @ bs) \<union> set us" for q
    using assms(1) that by (auto simp: arena_def sorted_wrt_append intro: gap_apart gap_apart2)
  have "arena (put_region (b + n, t - n) (as @ bs)) (us @ [(b, n)])"
  proof (rule arena_put_region)
    show "\<forall>q \<in> set (as @ bs) \<union> set (us @ [(b, n)]). region_ok q" using ok r by auto
    show "sorted_wrt gap (as @ bs)" "region_ok (b + n, t - n)"
      using assms(1) r by (auto simp: arena_def sorted_wrt_append)
    show "sorted_wrt apart (us @ [(b, n)])"
      using assms(1) sub all by (auto simp: arena_def sorted_wrt_append apart_sym)
    show "\<forall>f \<in> set (as @ bs). \<forall>u \<in> set (us @ [(b, n)]). apart f u"
      using assms(1) sub all by (auto simp: arena_def apart_sym)
    show "\<forall>q \<in> set (as @ bs) \<union> set (us @ [(b, n)]). apart (b + n, t - n) q"
      using sub all by (auto simp: apart_def rend_def)
    show "total (as @ bs) + snd (b + n, t - n) + total (us @ [(b, n)]) = ARENA_END - ARENA_BASE"
      using assms(1,2) by (simp add: arena_def)
  qed
  then show ?thesis
    using put_region_front [of as b t bs n] assms(1,2) by (auto simp: arena_def region_ok_def)
qed

text \<open>There are fewer regions than pages as soon as one region is larger than a page.\<close>

lemma total_pages: "\<forall>r \<in> set rs. region_ok r \<Longrightarrow> PAGE * length rs \<le> total rs"
  by (induction rs) (auto simp: region_ok_def dvd_def)

lemma arena_count:
  assumes "arena (as @ (b, t) # bs) us" and "n < t" and "0 < n" and "PAGE dvd n"
  shows "length (as @ (b, t) # bs) + length us < (ARENA_END - ARENA_BASE) div PAGE"
proof -
  have "PAGE * length (as @ bs @ us) \<le> total (as @ bs @ us)"
    using assms(1) by (intro total_pages) (auto simp: arena_def)
  moreover have "PAGE dvd t" using assms(1) by (auto simp: arena_def region_ok_def)
  then have "2 * PAGE \<le> t" using assms(2-4) by (auto simp: dvd_def)
  ultimately show ?thesis using assms(1) by (auto simp: arena_def)
qed

end
