(* ===== verification/Vmm.thy ===== *)
theory Vmm
  imports Linked_List Spinlock Arena
begin

text \<open>
  The allocator of kernel virtual memory (\<^verbatim>\<open>kernel/mm/vmm/vmm.c\<close>): three linked lists over one array
  of nodes, the free regions in address order, the used regions and the unused nodes. The
  list operations are related to operations on lists of regions \<open>(base, size)\<close>; on those the
  arena invariant says that the regions are disjoint, page aligned and cover the heap, and that
  no two free regions touch.
\<close>

section \<open>Operations\<close>

abbreviation KHEAPBASE :: u32 where "KHEAPBASE \<equiv> 0xC8000000"
abbreviation KHEAPSZ :: u32 where "KHEAPSZ \<equiv> 0x36000000"
definition KHEAP_MAX_NODES :: nat where "KHEAP_MAX_NODES = 0x36000"

record vnode =
  vn_base :: u32
  vn_next :: ptr
  vn_prev :: ptr
  vn_size :: u32

record vmm =
  vm_nodes :: "vnode heap"
  usedvmr_head :: ptr
  usedvmr_tail :: ptr
  freevmr_head :: ptr
  freevmr_tail :: ptr
  freenodes_head :: ptr
  freenodes_tail :: ptr
  vm_lock :: spinlock
  used_virtual_mmsz :: u32

text \<open>A store through a node pointer, and the same guarded by a \<open>NULL\<close> test.\<close>

definition set_node :: "ptr \<Rightarrow> (vnode \<Rightarrow> vnode) \<Rightarrow> vmm \<Rightarrow> vmm option" where
  "set_node p f m = do { h \<leftarrow> modify (vm_nodes m) p f; Some (m\<lparr>vm_nodes := h\<rparr>) }"

definition set_node_nn :: "ptr \<Rightarrow> (vnode \<Rightarrow> vnode) \<Rightarrow> vmm \<Rightarrow> vmm option" where
  "set_node_nn p f m = do { h \<leftarrow> modify_nn (vm_nodes m) p f; Some (m\<lparr>vm_nodes := h\<rparr>) }"

definition can_merge_left :: "ptr \<Rightarrow> ptr \<Rightarrow> vmm \<Rightarrow> bool option" where
  "can_merge_left node left m = do {
     n \<leftarrow> deref (vm_nodes m) node;
     l \<leftarrow> deref (vm_nodes m) left;
     Some (vn_base l + vn_size l = vn_base n)
   }"

definition can_merge_right :: "ptr \<Rightarrow> ptr \<Rightarrow> vmm \<Rightarrow> bool option" where
  "can_merge_right node right m = do {
     n \<leftarrow> deref (vm_nodes m) node;
     r \<leftarrow> deref (vm_nodes m) right;
     Some (vn_base n + vn_size n = vn_base r)
   }"

definition can_merge_both :: "ptr \<Rightarrow> ptr \<Rightarrow> ptr \<Rightarrow> vmm \<Rightarrow> bool option" where
  "can_merge_both left node right m = do {
     l \<leftarrow> can_merge_left node left m;
     if l then can_merge_right node right m else Some False
   }"

definition freenodes_get :: "vmm \<Rightarrow> (ptr \<times> vmm) option" where
  "freenodes_get m =
    (if freenodes_head m = NULL then Some (NULL, m)
     else do {
       let node = freenodes_head m;
       n \<leftarrow> deref (vm_nodes m) node;
       let m = m\<lparr>freenodes_head := vn_next n\<rparr>;
       let m = (if freenodes_head m = NULL then m\<lparr>freenodes_tail := NULL\<rparr> else m);
       m \<leftarrow> set_node node (\<lambda>_. \<lparr>vn_base = 0, vn_next = NULL, vn_prev = NULL, vn_size = 0\<rparr>) m;
       Some (node, m)
     })"

text \<open>The two asserts on a region that is put on a list.\<close>

definition region_check :: "ptr \<Rightarrow> vmm \<Rightarrow> unit option" where
  "region_check node m = do {
     n \<leftarrow> deref (vm_nodes m) node;
     kassert (vn_size n \<noteq> 0);
     kassert (vn_base n \<ge> KHEAPBASE)
   }"

definition freenodes_put :: "ptr \<Rightarrow> vmm \<Rightarrow> vmm option" where
  "freenodes_put node m = do {
     region_check node m;
     m \<leftarrow> set_node node (\<lambda>n. n\<lparr>vn_next := NULL, vn_prev := NULL\<rparr>) m;
     let m = (if freenodes_head m = NULL then m\<lparr>freenodes_head := node\<rparr> else m);
     m \<leftarrow> set_node_nn (freenodes_tail m) (\<lambda>t. t\<lparr>vn_next := node\<rparr>) m;
     m \<leftarrow> set_node node (\<lambda>n. n\<lparr>vn_prev := freenodes_tail m\<rparr>) m;
     Some (m\<lparr>freenodes_tail := node\<rparr>)
   }"

definition merge_left :: "ptr \<Rightarrow> ptr \<Rightarrow> vmm \<Rightarrow> vmm option" where
  "merge_left node left m = do {
     c \<leftarrow> can_merge_left node left m;
     kassert c;
     n \<leftarrow> deref (vm_nodes m) node;
     m \<leftarrow> set_node left (\<lambda>l. l\<lparr>vn_size := vn_size l + vn_size n\<rparr>) m;
     freenodes_put node m
   }"

definition merge_right :: "ptr \<Rightarrow> ptr \<Rightarrow> vmm \<Rightarrow> vmm option" where
  "merge_right node right m = do {
     c \<leftarrow> can_merge_right node right m;
     kassert c;
     n \<leftarrow> deref (vm_nodes m) node;
     m \<leftarrow> set_node right (\<lambda>r. r\<lparr>vn_base := vn_base r - vn_size n, vn_size := vn_size r + vn_size n\<rparr>) m;
     freenodes_put node m
   }"

definition concatenate :: "ptr \<Rightarrow> ptr \<Rightarrow> ptr \<Rightarrow> vmm \<Rightarrow> vmm option" where
  "concatenate left node right m = do {
     c \<leftarrow> can_merge_both left node right m;
     kassert c;
     n \<leftarrow> deref (vm_nodes m) node;
     r \<leftarrow> deref (vm_nodes m) right;
     m \<leftarrow> set_node left (\<lambda>l. l\<lparr>vn_size := vn_size l + (vn_size n + vn_size r)\<rparr>) m;
     m \<leftarrow> set_node_nn (vn_next r) (\<lambda>x. x\<lparr>vn_prev := left\<rparr>) m;
     m \<leftarrow> set_node left (\<lambda>l. l\<lparr>vn_next := vn_next r\<rparr>) m;
     let m = (if vn_next r = NULL then m\<lparr>freevmr_tail := left\<rparr> else m);
     m \<leftarrow> freenodes_put node m;
     freenodes_put right m
   }"

definition freevmr_linkto_left :: "ptr \<Rightarrow> ptr \<Rightarrow> vmm \<Rightarrow> vmm option" where
  "freevmr_linkto_left node left m = do {
     l \<leftarrow> deref (vm_nodes m) left;
     m \<leftarrow> set_node node (\<lambda>n. n\<lparr>vn_next := vn_next l\<rparr>) m;
     m \<leftarrow> (if vn_next l \<noteq> NULL then set_node (vn_next l) (\<lambda>x. x\<lparr>vn_prev := node\<rparr>) m
           else set_node node (\<lambda>n. n\<lparr>vn_next := NULL\<rparr>) (m\<lparr>freevmr_tail := node\<rparr>));
     m \<leftarrow> set_node left (\<lambda>l. l\<lparr>vn_next := node\<rparr>) m;
     set_node node (\<lambda>n. n\<lparr>vn_prev := left\<rparr>) m
   }"

definition freevmr_linkto_right :: "ptr \<Rightarrow> ptr \<Rightarrow> vmm \<Rightarrow> vmm option" where
  "freevmr_linkto_right node right m = do {
     r \<leftarrow> deref (vm_nodes m) right;
     m \<leftarrow> set_node node (\<lambda>n. n\<lparr>vn_prev := vn_prev r\<rparr>) m;
     m \<leftarrow> (if vn_prev r \<noteq> NULL then set_node (vn_prev r) (\<lambda>x. x\<lparr>vn_next := node\<rparr>) m
           else set_node node (\<lambda>n. n\<lparr>vn_prev := NULL\<rparr>) (m\<lparr>freevmr_head := node\<rparr>));
     m \<leftarrow> set_node right (\<lambda>r. r\<lparr>vn_prev := node\<rparr>) m;
     set_node node (\<lambda>n. n\<lparr>vn_next := right\<rparr>) m
   }"

text \<open>The loop of \<^verbatim>\<open>freevmr_put\<close>, in which \<^verbatim>\<open>tmp\<close> and \<^verbatim>\<open>right\<close> are equal: the last region below
  \<open>base\<close> and the first one that is not.\<close>

partial_function (option) put_scan :: "vnode heap \<Rightarrow> u32 \<Rightarrow> ptr \<Rightarrow> ptr \<Rightarrow> (ptr \<times> ptr) option" where
  "put_scan h base left right =
    (if right = NULL then Some (left, right)
     else do {
       r \<leftarrow> deref h right;
       if vn_base r < base then put_scan h base right (vn_next r) else Some (left, right)
     })"

text \<open>The rest of \<^verbatim>\<open>freevmr_put\<close>: merge with the neighbours or link between them.\<close>

definition freevmr_place :: "ptr \<Rightarrow> ptr \<Rightarrow> ptr \<Rightarrow> vmm \<Rightarrow> vmm option" where
  "freevmr_place left node right m =
    (if left \<noteq> NULL \<and> right \<noteq> NULL then do {
       both \<leftarrow> can_merge_both left node right m;
       l \<leftarrow> can_merge_left node left m;
       r \<leftarrow> can_merge_right node right m;
       if both then concatenate left node right m
       else if l then merge_left node left m
       else if r then merge_right node right m
       else do {
         m \<leftarrow> set_node node (\<lambda>n. n\<lparr>vn_prev := left, vn_next := right\<rparr>) m;
         m \<leftarrow> set_node left (\<lambda>l. l\<lparr>vn_next := node\<rparr>) m;
         set_node right (\<lambda>r. r\<lparr>vn_prev := node\<rparr>) m
       }
     }
     else if left \<noteq> NULL then do {
       l \<leftarrow> can_merge_left node left m;
       if l then merge_left node left m else freevmr_linkto_left node left m
     }
     else if right \<noteq> NULL then do {
       r \<leftarrow> can_merge_right node right m;
       if r then merge_right node right m else freevmr_linkto_right node right m
     }
     else None)"

definition freevmr_put :: "ptr \<Rightarrow> vmm \<Rightarrow> vmm option" where
  "freevmr_put node m = do {
     region_check node m;
     m \<leftarrow> set_node node (\<lambda>n. n\<lparr>vn_prev := NULL, vn_next := NULL\<rparr>) m;
     if freevmr_head m = NULL then Some (m\<lparr>freevmr_head := node, freevmr_tail := node\<rparr>)
     else do {
       n \<leftarrow> deref (vm_nodes m) node;
       (left, right) \<leftarrow> put_scan (vm_nodes m) (vn_base n) NULL (freevmr_head m);
       freevmr_place left node right m
     }
   }"

definition freevmr_get :: "u32 \<Rightarrow> vmm \<Rightarrow> (ptr \<times> vmm) option" where
  "freevmr_get sz m = do {
     kassert (sz \<noteq> 0);
     kassert (sz AND 0xFFF = 0);
     node \<leftarrow> find_node vn_next (vm_nodes m) (\<lambda>_ n. vn_size n \<ge> sz) (freevmr_head m);
     if node = NULL then Some (NULL, m)
     else do {
       n \<leftarrow> deref (vm_nodes m) node;
       let next = vn_next n;
       let prev = vn_prev n;
       m \<leftarrow> set_node node (\<lambda>n. n\<lparr>vn_next := NULL, vn_prev := NULL\<rparr>) m;
       m \<leftarrow> set_node_nn prev (\<lambda>p. p\<lparr>vn_next := next\<rparr>) m;
       m \<leftarrow> (if freevmr_head m = node
             then set_node_nn next (\<lambda>x. x\<lparr>vn_prev := NULL\<rparr>) (m\<lparr>freevmr_head := next\<rparr>) else Some m);
       m \<leftarrow> set_node_nn next (\<lambda>x. x\<lparr>vn_prev := prev\<rparr>) m;
       m \<leftarrow> (if freevmr_tail m = node
             then set_node_nn next (\<lambda>x. x\<lparr>vn_next := NULL\<rparr>) (m\<lparr>freevmr_tail := next\<rparr>) else Some m);
       Some (node, m)
     }
   }"

definition usedvmr_put :: "ptr \<Rightarrow> vmm \<Rightarrow> vmm option" where
  "usedvmr_put node m = do {
     region_check node m;
     let m = (if usedvmr_head m = NULL then m\<lparr>usedvmr_head := node\<rparr> else m);
     m \<leftarrow> set_node_nn (usedvmr_tail m) (\<lambda>t. t\<lparr>vn_next := node\<rparr>) m;
     m \<leftarrow> set_node node (\<lambda>n. n\<lparr>vn_next := NULL, vn_prev := usedvmr_tail m\<rparr>) m;
     Some (m\<lparr>usedvmr_tail := node\<rparr>)
   }"

definition usedvmr_lookup :: "u32 \<Rightarrow> vmm \<Rightarrow> (ptr \<times> vmm) option" where
  "usedvmr_lookup base m = do {
     kassert (base \<noteq> 0);
     node \<leftarrow> find_node vn_next (vm_nodes m) (\<lambda>_ n. vn_base n = base) (usedvmr_head m);
     if node = NULL then Some (NULL, m)
     else do {
       n \<leftarrow> deref (vm_nodes m) node;
       m \<leftarrow> set_node_nn (vn_prev n) (\<lambda>p. p\<lparr>vn_next := vn_next n\<rparr>) m;
       n \<leftarrow> deref (vm_nodes m) node;
       m \<leftarrow> set_node_nn (vn_next n) (\<lambda>x. x\<lparr>vn_prev := vn_prev n\<rparr>) m;
       n \<leftarrow> deref (vm_nodes m) node;
       let m = (if usedvmr_head m = node then m\<lparr>usedvmr_head := vn_next n\<rparr> else m);
       let m = (if usedvmr_tail m = node then m\<lparr>usedvmr_tail := vn_prev n\<rparr> else m);
       m \<leftarrow> set_node node (\<lambda>n. n\<lparr>vn_next := NULL, vn_prev := NULL\<rparr>) m;
       Some (node, m)
     }
   }"

definition vm_acquire :: "ptr \<Rightarrow> vmm \<Rightarrow> vmm option" where
  "vm_acquire cpu m = do { lk \<leftarrow> lk_acquire cpu (vm_lock m); Some (m\<lparr>vm_lock := lk\<rparr>) }"

definition vm_release :: "ptr \<Rightarrow> vmm \<Rightarrow> vmm option" where
  "vm_release cpu m = do { lk \<leftarrow> lk_release cpu (vm_lock m); Some (m\<lparr>vm_lock := lk\<rparr>) }"

definition vmm_alloc :: "ptr \<Rightarrow> u32 \<Rightarrow> vmm \<Rightarrow> (u32 \<times> vmm) option" where
  "vmm_alloc cpu sz m = do {
     m \<leftarrow> vm_acquire cpu m;
     (split, m) \<leftarrow> freevmr_get sz m;
     if split = NULL then do { m \<leftarrow> vm_release cpu m; Some (0, m) }
     else do {
       s \<leftarrow> deref (vm_nodes m) split;
       (node, m) \<leftarrow>
         (if vn_size s > sz then do {
            (node, m) \<leftarrow> freenodes_get m;
            kassert (node \<noteq> NULL);
            s \<leftarrow> deref (vm_nodes m) split;
            m \<leftarrow> set_node node (\<lambda>n. n\<lparr>vn_base := vn_base s, vn_size := sz\<rparr>) m;
            m \<leftarrow> set_node split (\<lambda>s. s\<lparr>vn_base := vn_base s + sz, vn_size := vn_size s - sz\<rparr>) m;
            m \<leftarrow> freevmr_put split m;
            Some (node, m)
          }
          else if vn_size s < sz then None
          else Some (split, m));
       let m = m\<lparr>used_virtual_mmsz := used_virtual_mmsz m + sz\<rparr>;
       n \<leftarrow> deref (vm_nodes m) node;
       m \<leftarrow> usedvmr_put node m;
       m \<leftarrow> vm_release cpu m;
       Some (vn_base n, m)
     }
   }"

definition vmm_free :: "ptr \<Rightarrow> u32 \<Rightarrow> vmm \<Rightarrow> vmm option" where
  "vmm_free cpu base m = do {
     kassert (base \<noteq> 0);
     m \<leftarrow> vm_acquire cpu m;
     (node, m) \<leftarrow> usedvmr_lookup base m;
     kassert (node \<noteq> NULL);
     n \<leftarrow> deref (vm_nodes m) node;
     m \<leftarrow> freevmr_put node (m\<lparr>used_virtual_mmsz := used_virtual_mmsz m - vn_size n\<rparr>);
     vm_release cpu m
   }"

definition vmm_getfreesize :: "ptr \<Rightarrow> vmm \<Rightarrow> (u32 \<times> vmm) option" where
  "vmm_getfreesize cpu m = do {
     m \<leftarrow> vm_acquire cpu m;
     let sz = KHEAPSZ - used_virtual_mmsz m;
     m \<leftarrow> vm_release cpu m;
     Some (sz div 1024, m)
   }"

definition vmm_getinuse :: "ptr \<Rightarrow> vmm \<Rightarrow> (u32 \<times> vmm) option" where
  "vmm_getinuse cpu m = do {
     m \<leftarrow> vm_acquire cpu m;
     let sz = used_virtual_mmsz m;
     m \<leftarrow> vm_release cpu m;
     Some (sz div 1024, m)
   }"

text \<open>Initialisation. The address of \<^verbatim>\<open>nodes[i]\<close> is \<open>i + 1\<close>, so that none is \<open>NULL\<close>.\<close>

definition node_at :: "nat \<Rightarrow> ptr" where
  "node_at i = i + 1"

abbreviation zero_node :: vnode where
  "zero_node \<equiv> \<lparr>vn_base = 0, vn_next = NULL, vn_prev = NULL, vn_size = 0\<rparr>"

fun link_loop :: "nat \<Rightarrow> nat \<Rightarrow> vnode heap \<Rightarrow> vnode heap" where
  "link_loop i 0 h = h"
| "link_loop i (Suc n) h =
    link_loop (Suc i) n (h(node_at i \<mapsto> zero_node\<lparr>vn_prev := i, vn_next := node_at (i + 1)\<rparr>))"

definition vmm_init :: "vmm \<Rightarrow> (int \<times> vmm) option" where
  "vmm_init m = do {
     let h = (\<lambda>p. if p \<in> node_at ` {..<KHEAP_MAX_NODES} then Some zero_node else None);
     let h = link_loop 0 (KHEAP_MAX_NODES - 1) h;
     let i = KHEAP_MAX_NODES - 1;
     let m = m\<lparr>vm_nodes := h\<rparr>;
     m \<leftarrow> set_node (node_at 0) (\<lambda>n. n\<lparr>vn_prev := NULL\<rparr>) m;
     m \<leftarrow> set_node (node_at i) (\<lambda>n. n\<lparr>vn_next := NULL\<rparr>) m;
     m \<leftarrow> set_node (node_at i) (\<lambda>n. n\<lparr>vn_prev := node_at (i - 1)\<rparr>) m;
     let m = m\<lparr>freenodes_head := node_at 0, freenodes_tail := node_at i\<rparr>;
     (node, m) \<leftarrow> freenodes_get m;
     m \<leftarrow> set_node node (\<lambda>_. zero_node\<lparr>vn_base := KHEAPBASE, vn_size := KHEAPSZ\<rparr>) m;
     m \<leftarrow> freevmr_put node m;
     Some (0, m)
   }"


section \<open>The three lists\<close>

abbreviation vlist :: "vnode heap \<Rightarrow> ptr list \<Rightarrow> bool" where
  "vlist \<equiv> dlist vn_next vn_prev"

abbreviation vseg :: "vnode heap \<Rightarrow> ptr \<Rightarrow> ptr list \<Rightarrow> ptr \<Rightarrow> bool" where
  "vseg \<equiv> dseg vn_next vn_prev"

interpretation vlink: link_fields vn_next vn_prev
  "\<lambda>v. vn_next_update (\<lambda>_. v)" "\<lambda>v. vn_prev_update (\<lambda>_. v)" "\<lambda>n. (vn_base n, vn_size n)"
  by unfold_locales simp_all

text \<open>
  \<open>xs\<close> are the free regions, \<open>ys\<close> the used ones, \<open>zs\<close> the unused nodes. The tail of the free list is
  the last region or \<^verbatim>\<open>NULL\<close>: \<^verbatim>\<open>freevmr_get\<close> clears it when it takes the last region.
\<close>

definition free_ok :: "vmm \<Rightarrow> ptr list \<Rightarrow> bool" where
  "free_ok m xs \<longleftrightarrow> vlist (vm_nodes m) xs \<and> freevmr_head m = fst_or NULL xs \<and>
    (freevmr_tail m = NULL \<or> freevmr_tail m = lst_or NULL xs)"

definition used_ok :: "vmm \<Rightarrow> ptr list \<Rightarrow> bool" where
  "used_ok m ys \<longleftrightarrow> vlist (vm_nodes m) ys \<and> usedvmr_head m = fst_or NULL ys \<and> usedvmr_tail m = lst_or NULL ys"

definition spare_ok :: "vmm \<Rightarrow> ptr list \<Rightarrow> bool" where
  "spare_ok m zs \<longleftrightarrow> (\<exists>p. vseg (vm_nodes m) p zs NULL) \<and> freenodes_head m = fst_or NULL zs \<and>
    freenodes_tail m = lst_or NULL zs"

definition vm_shape :: "vmm \<Rightarrow> ptr list \<Rightarrow> ptr list \<Rightarrow> ptr list \<Rightarrow> bool" where
  "vm_shape m xs ys zs \<longleftrightarrow> free_ok m xs \<and> used_ok m ys \<and> spare_ok m zs \<and> distinct (xs @ ys @ zs)"

definition rg :: "vmm \<Rightarrow> ptr \<Rightarrow> region" where
  "rg m x = (unat (vn_base (the (vm_nodes m x))), unat (vn_size (the (vm_nodes m x))))"

text \<open>What an operation keeps: the nodes outside \<open>X\<close>, the lock and the counter.\<close>

definition vm_keep :: "ptr set \<Rightarrow> vmm \<Rightarrow> vmm \<Rightarrow> bool" where
  "vm_keep X m m' \<longleftrightarrow> (\<forall>x. x \<notin> X \<longrightarrow> vm_nodes m' x = vm_nodes m x) \<and> vm_lock m' = vm_lock m \<and>
    used_virtual_mmsz m' = used_virtual_mmsz m"

lemma vm_keep_refl [simp]: "vm_keep X m m"
  by (simp add: vm_keep_def)

lemma vm_keep_trans:
  assumes "vm_keep A m m1" and "vm_keep B m1 m2" and "A \<union> B \<subseteq> C"
  shows "vm_keep C m m2"
proof -
  have "a \<notin> A \<and> a \<notin> B" if "a \<notin> C" for a using that assms(3) by blast
  with assms(1,2) show ?thesis by (simp add: vm_keep_def)
qed

lemma vm_keep_rg: "vm_keep X m m' \<Longrightarrow> x \<notin> X \<Longrightarrow> rg m' x = rg m x"
  by (simp add: vm_keep_def rg_def)

lemma vlist_live: "vlist h xs \<Longrightarrow> x \<in> set xs \<Longrightarrow> x \<noteq> NULL \<and> (\<exists>n. h x = Some n)"
  using dlist_live dlist_not_NULL by metis

lemma set_node_Some:
  "p \<noteq> NULL \<Longrightarrow> vm_nodes m p = Some n \<Longrightarrow> set_node p f m = Some (m\<lparr>vm_nodes := (vm_nodes m)(p \<mapsto> f n)\<rparr>)"
  by (simp add: set_node_def exec_simps)

lemma set_node_nn_Some:
  "p \<noteq> NULL \<Longrightarrow> vm_nodes m p = Some n \<Longrightarrow> set_node_nn p f m = Some (m\<lparr>vm_nodes := (vm_nodes m)(p \<mapsto> f n)\<rparr>)"
  by (simp add: set_node_nn_def exec_simps)

lemma set_node_nn_NULL: "set_node_nn NULL f m = Some m"
  by (simp add: set_node_nn_def)

lemmas vm_exec = set_node_Some set_node_nn_Some set_node_nn_NULL deref_nn

text \<open>Frames: lists depend on their own nodes and their own ends only.\<close>

lemma free_ok_cong:
  "free_ok m xs \<Longrightarrow> (\<And>x. x \<in> set xs \<Longrightarrow> vm_nodes m' x = vm_nodes m x) \<Longrightarrow>
    freevmr_head m' = freevmr_head m \<Longrightarrow> freevmr_tail m' = freevmr_tail m \<Longrightarrow> free_ok m' xs"
  by (simp add: free_ok_def cong: dlist_cong)

lemma used_ok_cong:
  "used_ok m ys \<Longrightarrow> (\<And>x. x \<in> set ys \<Longrightarrow> vm_nodes m' x = vm_nodes m x) \<Longrightarrow>
    usedvmr_head m' = usedvmr_head m \<Longrightarrow> usedvmr_tail m' = usedvmr_tail m \<Longrightarrow> used_ok m' ys"
  by (simp add: used_ok_def cong: dlist_cong)

lemma spare_ok_cong:
  "spare_ok m zs \<Longrightarrow> (\<And>x. x \<in> set zs \<Longrightarrow> vm_nodes m' x = vm_nodes m x) \<Longrightarrow>
    freenodes_head m' = freenodes_head m \<Longrightarrow> freenodes_tail m' = freenodes_tail m \<Longrightarrow> spare_ok m' zs"
  by (simp add: spare_ok_def cong: dseg_cong)

lemma free_ok_frame:
  assumes "vm_keep X m m'" and "X \<inter> set xs = {}" and "free_ok m xs"
    and "freevmr_head m' = freevmr_head m" and "freevmr_tail m' = freevmr_tail m"
  shows "free_ok m' xs"
  using assms(3) _ assms(4,5) by (rule free_ok_cong) (use assms(1,2) in \<open>auto simp: vm_keep_def\<close>)

lemma used_ok_frame:
  assumes "vm_keep X m m'" and "X \<inter> set ys = {}" and "used_ok m ys"
    and "usedvmr_head m' = usedvmr_head m" and "usedvmr_tail m' = usedvmr_tail m"
  shows "used_ok m' ys"
  using assms(3) _ assms(4,5) by (rule used_ok_cong) (use assms(1,2) in \<open>auto simp: vm_keep_def\<close>)

lemma spare_ok_frame:
  assumes "vm_keep X m m'" and "X \<inter> set zs = {}" and "spare_ok m zs"
    and "freenodes_head m' = freenodes_head m" and "freenodes_tail m' = freenodes_tail m"
  shows "spare_ok m' zs"
  using assms(3) _ assms(4,5) by (rule spare_ok_cong) (use assms(1,2) in \<open>auto simp: vm_keep_def\<close>)

text \<open>A node that is on no list and describes a region.\<close>

definition loose :: "vmm \<Rightarrow> ptr \<Rightarrow> ptr list \<Rightarrow> bool" where
  "loose m node xs \<longleftrightarrow> node \<noteq> NULL \<and> node \<notin> set xs \<and>
    (\<exists>n. vm_nodes m node = Some n \<and> vn_size n \<noteq> 0 \<and> vn_base n \<ge> KHEAPBASE)"

lemma loose_frame:
  "loose m x ws \<Longrightarrow> vm_keep X m m' \<Longrightarrow> x \<notin> X \<Longrightarrow> x \<notin> set ws' \<Longrightarrow> loose m' x ws'"
  by (simp add: loose_def vm_keep_def)

lemma freenodes_put_ok:
  assumes "vm_shape m xs ys zs" and "loose m node (xs @ ys @ zs)"
  shows "\<exists>m'. freenodes_put node m = Some m' \<and> vm_shape m' xs ys (zs @ [node]) \<and>
    vm_keep (insert node (set zs)) m m' \<and> freevmr_tail m' = freevmr_tail m"
proof -
  from assms(2) obtain n where n: "vm_nodes m node = Some n" "vn_size n \<noteq> 0" "vn_base n \<ge> KHEAPBASE"
    "node \<noteq> NULL" "node \<notin> set xs" "node \<notin> set ys" "node \<notin> set zs" by (auto simp: loose_def)
  note sh = assms(1) [unfolded vm_shape_def]
  from sh obtain p where p: "vseg (vm_nodes m) p zs NULL" by (auto simp: spare_ok_def)
  show ?thesis
  proof (cases zs rule: rev_cases)
    case Nil
    let ?m = "m\<lparr>vm_nodes := (vm_nodes m)(node \<mapsto> n\<lparr>vn_next := NULL, vn_prev := NULL\<rparr>),
      freenodes_head := node, freenodes_tail := node\<rparr>"
    have "freenodes_put node m = Some ?m"
      using n sh Nil by (simp add: freenodes_put_def region_check_def vm_exec spare_ok_def)
    moreover have "vm_shape ?m xs ys (zs @ [node])"
      using n sh Nil by (auto simp: vm_shape_def free_ok_def used_ok_def spare_ok_def dlist_upd)
    moreover have "vm_keep (insert node (set zs)) m ?m" by (auto simp: vm_keep_def)
    ultimately show ?thesis by auto
  next
    case (snoc zs' z)
    then obtain k where k: "vm_nodes m z = Some k" "z \<noteq> NULL" using p by auto
    let ?m = "m\<lparr>vm_nodes := (vm_nodes m)(node \<mapsto> n\<lparr>vn_next := NULL, vn_prev := z\<rparr>, z \<mapsto> k\<lparr>vn_next := node\<rparr>),
      freenodes_tail := node\<rparr>"
    have ne: "node \<noteq> z" "z \<notin> set xs" "z \<notin> set ys" "z \<notin> set zs'" using n snoc sh by auto
    have hd: "freenodes_head m \<noteq> NULL" "freenodes_tail m = z"
      using sh snoc fst_or_eq_default [OF dseg_not_NULL [OF p]] by (auto simp: spare_ok_def)
    have "freenodes_put node m = Some ?m"
      using n hd k ne by (simp add: freenodes_put_def region_check_def vm_exec fun_upd_twist)
    moreover have "vseg (vm_nodes ?m) p (zs @ [node]) NULL"
      using p k n ne snoc by auto
    then have "vm_shape ?m xs ys (zs @ [node])"
      using n sh ne snoc hd by (auto simp: vm_shape_def free_ok_def used_ok_def spare_ok_def dlist_upd)
    moreover have "vm_keep (insert node (set zs)) m ?m" using snoc by (auto simp: vm_keep_def)
    ultimately show ?thesis by auto
  qed
qed

lemma put_scan_split:
  "vseg h p xs NULL \<Longrightarrow> put_scan h b l (fst_or NULL xs) =
    Some (lst_or l (takeWhile (\<lambda>x. vn_base (the (h x)) < b) xs),
          fst_or NULL (dropWhile (\<lambda>x. vn_base (the (h x)) < b) xs))"
proof (induction xs arbitrary: p l)
  case Nil
  then show ?case by (subst put_scan.simps) simp
next
  case (Cons x xs)
  then obtain n where n: "h x = Some n" "x \<noteq> NULL" "vn_next n = fst_or NULL xs" "vseg h x xs NULL" by auto
  with Cons.IH [OF n(4)] show ?case by (subst put_scan.simps) (simp add: exec_simps)
qed

text \<open>Insertion into an address-ordered list, without merging.\<close>

lemma vlist_insert:
  assumes "vlist h (as @ bs)" and "node \<notin> set (as @ bs)" and "node \<noteq> NULL" and "h node = Some n"
    and "h1 = (if as = [] then h else h(lst_or NULL as \<mapsto> (the (h (lst_or NULL as)))\<lparr>vn_next := node\<rparr>))"
    and "h2 = (if bs = [] then h1 else h1(fst_or NULL bs \<mapsto> (the (h (fst_or NULL bs)))\<lparr>vn_prev := node\<rparr>))"
  shows "vlist (h2(node \<mapsto> n\<lparr>vn_prev := lst_or NULL as, vn_next := fst_or NULL bs\<rparr>)) (as @ node # bs)"
  using assms(1-4) unfolding assms(5,6)
  by (cases as rule: rev_cases; cases bs) (auto simp: dlist_def)

lemma vm_shape_payload:
  assumes "vm_shape m xs ys zs" and "vm_nodes m x = Some n" and "vn_next n' = vn_next n" and "vn_prev n' = vn_prev n"
  shows "vm_shape (m\<lparr>vm_nodes := (vm_nodes m)(x \<mapsto> n')\<rparr>) xs ys zs"
proof -
  have l: "map_option vn_next (((vm_nodes m)(x \<mapsto> n')) y) = map_option vn_next (vm_nodes m y) \<and>
      map_option vn_prev (((vm_nodes m)(x \<mapsto> n')) y) = map_option vn_prev (vm_nodes m y)" for y
    using assms(2-4) by simp
  have "vlist ((vm_nodes m)(x \<mapsto> n')) ws = vlist (vm_nodes m) ws"
    "vseg ((vm_nodes m)(x \<mapsto> n')) p ws q = vseg (vm_nodes m) p ws q" for ws p q
    using l by (auto intro!: dlist_links dseg_links simp del: fun_upd_apply)
  with assms(1) show ?thesis by (simp add: vm_shape_def free_ok_def used_ok_def spare_ok_def)
qed

lemma loose_upd: "loose m node ws \<Longrightarrow> x \<noteq> node \<Longrightarrow> loose (m\<lparr>vm_nodes := (vm_nodes m)(x := v)\<rparr>) node ws"
  by (simp add: loose_def)

lemma vm_shape_node:
  assumes "vm_shape m xs ys zs" and "x \<in> set xs"
  shows "x \<noteq> NULL" and "\<exists>n. vm_nodes m x = Some n"
  using assms vlist_live by (auto simp: vm_shape_def free_ok_def)

lemma unat_sum:
  fixes a b :: u32
  shows "unat a + unat b < 2 ^ 32 \<Longrightarrow> unat (a + b) = unat a + unat b"
  using unat_add_less [of a b] by simp

lemma rend_word:
  assumes "rend (rg m x) < 2 ^ 32" and "vm_nodes m x = Some n"
  shows "vn_base n + vn_size n = b \<longleftrightarrow> rend (rg m x) = unat b"
  using assms unat_sum [of "vn_base n" "vn_size n"] by (simp add: rg_def rend_def word_unat_eq_iff)

lemma vm_keep_map: "vm_keep X m m' \<Longrightarrow> X \<inter> set xs = {} \<Longrightarrow> map (rg m') xs = map (rg m) xs"
  by (rule map_cong [OF refl], rule vm_keep_rg) auto

lemma vm_keep_upd: "vm_keep {x} m (m\<lparr>vm_nodes := (vm_nodes m)(x := v)\<rparr>)"
  by (simp add: vm_keep_def)

lemma merge_left_ok:
  assumes "vm_shape m (as @ l # bs) ys zs" and "loose m node ((as @ l # bs) @ ys @ zs)"
    and "rend (rg m node) < 2 ^ 32" and "rend (rg m l) = fst (rg m node)"
  shows "\<exists>m'. merge_left node l m = Some m' \<and> vm_shape m' (as @ l # bs) ys (zs @ [node]) \<and>
    map (rg m') (as @ l # bs) = map (rg m) as @ (fst (rg m l), snd (rg m l) + snd (rg m node)) # map (rg m) bs \<and>
    vm_keep (insert l (insert node (set zs))) m m'"
proof -
  from assms(2) obtain n where n: "vm_nodes m node = Some n" "node \<noteq> NULL" "node \<noteq> l"
    "node \<notin> set (as @ bs)" by (auto simp: loose_def)
  from vm_shape_node [OF assms(1), of l] obtain k where k: "vm_nodes m l = Some k" "l \<noteq> NULL" by auto
  have d: "l \<notin> set as" "l \<notin> set bs" "l \<notin> set zs" "set as \<inter> set zs = {}" "set bs \<inter> set zs = {}"
    using assms(1) by (auto simp: vm_shape_def)
  let ?k = "k\<lparr>vn_size := vn_size k + vn_size n\<rparr>"
  let ?m = "m\<lparr>vm_nodes := (vm_nodes m)(l \<mapsto> ?k)\<rparr>"
  have "vm_shape ?m (as @ l # bs) ys zs" using vm_shape_payload [OF assms(1) k(1)] by simp
  from freenodes_put_ok [OF this loose_upd [OF assms(2)]] n(3) obtain m' where
    m': "freenodes_put node ?m = Some m'" "vm_shape m' (as @ l # bs) ys (zs @ [node])"
      "vm_keep (insert node (set zs)) ?m m'" by auto
  have "rend (rg m l) < 2 ^ 32" using assms(3,4) by (simp add: rend_def)
  then have "vn_base k + vn_size k = vn_base n" using rend_word [OF _ k(1)] assms(4) n(1) by (simp add: rg_def)
  then have "merge_left node l m = Some m'"
    using n k m'(1) by (simp add: merge_left_def can_merge_left_def vm_exec)
  moreover have "unat (vn_size k + vn_size n) = unat (vn_size k) + unat (vn_size n)"
    using assms(3,4) n(1) k(1) by (intro unat_sum) (simp add: rg_def rend_def)
  then have "rg m' l = (fst (rg m l), snd (rg m l) + snd (rg m node))"
    using m'(3) d n(1,3) k(1) by (simp add: vm_keep_def rg_def)
  moreover have keep: "vm_keep (insert l (insert node (set zs))) m m'"
    by (rule vm_keep_trans [OF vm_keep_upd m'(3)]) auto
  moreover have "map (rg m') as = map (rg m) as" "map (rg m') bs = map (rg m) bs"
    using vm_keep_map [OF keep, of as] vm_keep_map [OF keep, of bs] d n(4) by auto
  ultimately show ?thesis using m'(2) by auto
qed

lemma merge_right_ok:
  assumes "vm_shape m (as @ r # bs) ys zs" and "loose m node ((as @ r # bs) @ ys @ zs)"
    and "rend (rg m r) < 2 ^ 32" and "rend (rg m node) = fst (rg m r)"
  shows "\<exists>m'. merge_right node r m = Some m' \<and> vm_shape m' (as @ r # bs) ys (zs @ [node]) \<and>
    map (rg m') (as @ r # bs) = map (rg m) as @ (fst (rg m node), snd (rg m r) + snd (rg m node)) # map (rg m) bs \<and>
    vm_keep (insert r (insert node (set zs))) m m'"
proof -
  from assms(2) obtain n where n: "vm_nodes m node = Some n" "node \<noteq> NULL" "node \<noteq> r"
    "node \<notin> set (as @ bs)" by (auto simp: loose_def)
  from vm_shape_node [OF assms(1), of r] obtain k where k: "vm_nodes m r = Some k" "r \<noteq> NULL" by auto
  have d: "r \<notin> set as" "r \<notin> set bs" "r \<notin> set zs" "set as \<inter> set zs = {}" "set bs \<inter> set zs = {}"
    using assms(1) by (auto simp: vm_shape_def)
  let ?k = "k\<lparr>vn_base := vn_base k - vn_size n, vn_size := vn_size k + vn_size n\<rparr>"
  let ?m = "m\<lparr>vm_nodes := (vm_nodes m)(r \<mapsto> ?k)\<rparr>"
  have "vm_shape ?m (as @ r # bs) ys zs" using vm_shape_payload [OF assms(1) k(1)] by simp
  from freenodes_put_ok [OF this loose_upd [OF assms(2)]] n(3) obtain m' where
    m': "freenodes_put node ?m = Some m'" "vm_shape m' (as @ r # bs) ys (zs @ [node])"
      "vm_keep (insert node (set zs)) ?m m'" by auto
  have "rend (rg m node) < 2 ^ 32" using assms(3,4) by (simp add: rend_def)
  then have e: "vn_base n + vn_size n = vn_base k" using rend_word [OF _ n(1)] assms(4) k(1) by (simp add: rg_def)
  then have "merge_right node r m = Some m'"
    using n k m'(1) by (simp add: merge_right_def can_merge_right_def vm_exec)
  moreover have "unat (vn_size k + vn_size n) = unat (vn_size k) + unat (vn_size n)"
    using assms(3,4) n(1) k(1) by (intro unat_sum) (simp add: rg_def rend_def)
  moreover have "vn_base k - vn_size n = vn_base n" using e by (metis add_diff_cancel_right')
  ultimately have "rg m' r = (fst (rg m node), snd (rg m r) + snd (rg m node))"
    using m'(3) d n(1,3) k(1) by (simp add: vm_keep_def rg_def)
  moreover have keep: "vm_keep (insert r (insert node (set zs))) m m'"
    by (rule vm_keep_trans [OF vm_keep_upd m'(3)]) auto
  moreover have "map (rg m') as = map (rg m) as" "map (rg m') bs = map (rg m) bs"
    using vm_keep_map [OF keep, of as] vm_keep_map [OF keep, of bs] d n(4) by auto
  ultimately show ?thesis using m'(2) \<open>merge_right node r m = Some m'\<close> by auto
qed

lemma vlist_drop_second:
  assumes "vlist h (as @ l # r # bs)" and "h l = Some k" and "h r = Some j"
    and "k' = k\<lparr>vn_size := v, vn_next := fst_or NULL bs\<rparr>"
  shows "vlist ((if bs = [] then h else h(hd bs \<mapsto> (the (h (hd bs)))\<lparr>vn_prev := l\<rparr>))(l \<mapsto> k')) (as @ l # bs)"
  using assms(1-3) unfolding assms(4) by (cases bs) (auto simp: dlist_def)

lemma concatenate_ok:
  assumes "vm_shape m (as @ l # r # bs) ys zs" and "loose m node ((as @ l # r # bs) @ ys @ zs)"
    and "loose m r (as @ l # bs @ ys @ zs)"
    and "rend (rg m r) < 2 ^ 32" and "rend (rg m l) = fst (rg m node)" and "rend (rg m node) = fst (rg m r)"
  shows "\<exists>m'. concatenate l node r m = Some m' \<and> vm_shape m' (as @ l # bs) ys (zs @ [node, r]) \<and>
    map (rg m') (as @ l # bs) =
      map (rg m) as @ (fst (rg m l), snd (rg m l) + (snd (rg m node) + snd (rg m r))) # map (rg m) bs \<and>
    vm_keep (set (l # r # bs) \<union> insert node (set zs)) m m'"
proof -
  from assms(2) obtain n where n: "vm_nodes m node = Some n" "node \<noteq> NULL" "node \<noteq> l" "node \<noteq> r"
    "node \<notin> set (as @ bs)" by (auto simp: loose_def)
  from vm_shape_node [OF assms(1), of l] vm_shape_node [OF assms(1), of r] obtain k j where
    k: "vm_nodes m l = Some k" "l \<noteq> NULL" and j: "vm_nodes m r = Some j" "r \<noteq> NULL" by auto
  note sh = assms(1) [unfolded vm_shape_def free_ok_def]
  have d: "l \<notin> set (as @ bs)" "r \<notin> set (as @ bs)" "l \<noteq> r" "distinct bs" "l \<notin> set ys" "l \<notin> set zs"
    "set as \<inter> set bs = {}" "set bs \<inter> set ys = {}" "set bs \<inter> set zs = {}" using sh by auto
  have jn: "vn_next j = fst_or NULL bs" using sh j(1) dlist_node [of vn_next vn_prev "vm_nodes m" "as @ [l]" r bs] by auto
  let ?k = "k\<lparr>vn_size := vn_size k + (vn_size n + vn_size j), vn_next := fst_or NULL bs\<rparr>"
  let ?h = "(if bs = [] then vm_nodes m
     else (vm_nodes m)(hd bs \<mapsto> (the (vm_nodes m (hd bs)))\<lparr>vn_prev := l\<rparr>))(l \<mapsto> ?k)"
  let ?m = "m\<lparr>vm_nodes := ?h, freevmr_tail := (if bs = [] then l else freevmr_tail m)\<rparr>"
  have v: "vlist ?h (as @ l # bs)" using vlist_drop_second [OF _ k(1) j(1) refl] sh by blast
  have km: "vm_keep (insert l (set bs)) m ?m" by (simp add: vm_keep_def)
  have same: "vm_nodes ?m x = vm_nodes m x" if "x \<noteq> l" "x \<notin> set bs" for x
    using km that by (simp add: vm_keep_def)
  have shape: "vm_shape ?m (as @ l # bs) ys zs"
  proof -
    have "used_ok ?m ys" using sh d by (intro used_ok_frame [OF km]) auto
    moreover have "spare_ok ?m zs" using sh d by (intro spare_ok_frame [OF km]) auto
    moreover have "free_ok ?m (as @ l # bs)" using v sh by (auto simp: free_ok_def lst_or_def)
    moreover have "distinct ((as @ l # bs) @ ys @ zs)" using sh by auto
    ultimately show ?thesis unfolding vm_shape_def by blast
  qed
  have ln: "loose ?m node ((as @ l # bs) @ ys @ zs)" "loose ?m r ((as @ l # bs) @ ys @ zs)"
    using assms(2,3) d same [of node] same [of r] by (auto simp: loose_def)
  from freenodes_put_ok [OF shape ln(1)] obtain m1 where
    m1: "freenodes_put node ?m = Some m1" "vm_shape m1 (as @ l # bs) ys (zs @ [node])"
      "vm_keep (insert node (set zs)) ?m m1" by auto
  have "loose m1 r ((as @ l # bs) @ ys @ zs @ [node])"
    by (rule loose_frame [OF ln(2) m1(3)]) (use ln(2) n(4) in \<open>auto simp: loose_def\<close>)
  from freenodes_put_ok [OF m1(2) this] obtain m2 where
    m2: "freenodes_put r m1 = Some m2" "vm_shape m2 (as @ l # bs) ys ((zs @ [node]) @ [r])"
      "vm_keep (insert r (set (zs @ [node]))) m1 m2" by auto
  have lt: "rend (rg m l) < 2 ^ 32" "rend (rg m node) < 2 ^ 32" using assms(4-6) by (auto simp: rend_def)
  have "vn_base k + vn_size k = vn_base n" "vn_base n + vn_size n = vn_base j"
    using rend_word [OF lt(1) k(1)] rend_word [OF lt(2) n(1)] assms(5,6) n(1) j(1) by (simp_all add: rg_def)
  then have "concatenate l node r m = Some m2"
    using n k j d(3) m1(1) m2(1) jn sh vlist_live [of "vm_nodes m" "as @ l # r # bs" "hd bs"] d
    by (cases bs) (auto simp: concatenate_def can_merge_both_def can_merge_left_def can_merge_right_def vm_exec
        fun_upd_twist [of l "hd bs"])
  moreover have keep: "vm_keep (insert r (insert node (set zs))) ?m m2"
    by (rule vm_keep_trans [OF m1(3) m2(3)]) auto
  have "unat (vn_size k + (vn_size n + vn_size j)) = unat (vn_size k) + (unat (vn_size n) + unat (vn_size j))"
    using assms(4-6) n(1) k(1) j(1) unat_sum [of "vn_size n" "vn_size j"] unat_sum [of "vn_size k" "vn_size n + vn_size j"]
    by (simp add: rg_def rend_def)
  then have "rg m2 l = (fst (rg m l), snd (rg m l) + (snd (rg m node) + snd (rg m r)))"
    using keep d n(3) k(1) n(1) j(1) by (simp add: vm_keep_def rg_def)
  moreover have all: "vm_keep (set (l # r # bs) \<union> insert node (set zs)) m m2"
    by (rule vm_keep_trans [OF km keep]) auto
  moreover have "map (rg m2) as = map (rg m) as"
    by (rule vm_keep_map [OF all]) (use d n(5) sh in auto)
  moreover have "rg ?m x = rg m x" if "x \<in> set bs" for x
    using that d vlist_live [of "vm_nodes m" "as @ l # r # bs" x] sh by (auto simp: rg_def)
  then have "map (rg m2) bs = map (rg m) bs"
    using vm_keep_map [OF keep, of bs] d n(5) sh by auto
  ultimately show ?thesis using m2(2) by auto
qed

text \<open>The state after linking \<open>node\<close> between \<open>as\<close> and \<open>bs\<close>; each of the three ways in which the code
  links a region reaches it.\<close>

definition linked :: "vmm \<Rightarrow> ptr \<Rightarrow> vnode \<Rightarrow> ptr list \<Rightarrow> ptr list \<Rightarrow> vmm" where
  "linked m node n as bs =
    (let h = vm_nodes m;
         h1 = (if as = [] then h else h(lst_or NULL as \<mapsto> (the (h (lst_or NULL as)))\<lparr>vn_next := node\<rparr>));
         h2 = (if bs = [] then h1 else h1(fst_or NULL bs \<mapsto> (the (h (fst_or NULL bs)))\<lparr>vn_prev := node\<rparr>))
     in m\<lparr>vm_nodes := h2(node \<mapsto> n\<lparr>vn_prev := lst_or NULL as, vn_next := fst_or NULL bs\<rparr>),
          freevmr_head := (if as = [] then node else freevmr_head m),
          freevmr_tail := (if bs = [] then node else freevmr_tail m)\<rparr>)"

lemma linked_ok:
  assumes "vm_shape m (as @ bs) ys zs" and "loose m node ((as @ bs) @ ys @ zs)" and "vm_nodes m node = Some n"
  shows "vm_shape (linked m node n as bs) (as @ node # bs) ys zs"
    and "map (rg (linked m node n as bs)) (as @ node # bs) = map (rg m) (as @ node # bs)"
    and "vm_keep (insert node (set (as @ bs))) m (linked m node n as bs)"
proof -
  let ?m = "linked m node n as bs"
  note sh = assms(1) [unfolded vm_shape_def free_ok_def]
  have node: "node \<noteq> NULL" "node \<notin> set (as @ bs)" "node \<notin> set ys" "node \<notin> set zs"
    using assms(2) by (auto simp: loose_def)
  have ends: "as \<noteq> [] \<Longrightarrow> lst_or NULL as \<in> set as" "bs \<noteq> [] \<Longrightarrow> fst_or NULL bs \<in> set bs"
    by (rule lst_or_in, simp, rule fst_or_in, simp)
  show keep: "vm_keep (insert node (set (as @ bs))) m ?m"
    using ends by (auto simp: vm_keep_def linked_def Let_def)
  have live: "\<exists>k. vm_nodes m x = Some k" if "x \<in> set (as @ node # bs)" for x
    using that assms(3) vlist_live [of "vm_nodes m" "as @ bs" x] sh by auto
  have "rg ?m x = rg m x" if "x \<in> set (as @ node # bs)" for x
    using that live [OF that] live [of "lst_or NULL as"] live [of "fst_or NULL bs"] ends node assms(3)
    by (auto simp: rg_def linked_def Let_def)
  then show "map (rg ?m) (as @ node # bs) = map (rg m) (as @ node # bs)" by simp
  have "vlist (vm_nodes ?m) (as @ node # bs)"
    using vlist_insert [of "vm_nodes m" as bs node n, OF _ node(2,1) assms(3) refl refl] sh
    by (simp add: linked_def Let_def)
  moreover have "freevmr_head ?m = fst_or NULL (as @ node # bs)"
    using sh by (cases as) (simp_all add: linked_def Let_def)
  moreover have "freevmr_tail ?m = NULL \<or> freevmr_tail ?m = lst_or NULL (as @ node # bs)"
    using sh by (cases bs) (auto simp: linked_def Let_def)
  moreover have "used_ok ?m ys" using sh node by (intro used_ok_frame [OF keep]) (auto simp: linked_def Let_def)
  moreover have "spare_ok ?m zs" using sh node by (intro spare_ok_frame [OF keep]) (auto simp: linked_def Let_def)
  ultimately show "vm_shape ?m (as @ node # bs) ys zs"
    using sh node by (auto simp: vm_shape_def free_ok_def)
qed

lemma upd_order:
  "n\<lparr>vn_next := a, vn_prev := b\<rparr> = n\<lparr>vn_prev := b, vn_next := a\<rparr>"
  "m\<lparr>freevmr_tail := t, vm_nodes := h\<rparr> = m\<lparr>vm_nodes := h, freevmr_tail := t\<rparr>"
  "m\<lparr>freevmr_head := t, vm_nodes := h\<rparr> = m\<lparr>vm_nodes := h, freevmr_head := t\<rparr>"
  by simp_all

lemma link_exec:
  assumes "vm_shape m (as @ bs) ys zs" and "loose m node ((as @ bs) @ ys @ zs)" and "vm_nodes m node = Some n"
  shows "as = [] \<Longrightarrow> bs \<noteq> [] \<Longrightarrow> freevmr_linkto_right node (hd bs) m = Some (linked m node n as bs)"
    and "as \<noteq> [] \<Longrightarrow> bs = [] \<Longrightarrow> freevmr_linkto_left node (last as) m = Some (linked m node n as bs)"
    and "as \<noteq> [] \<Longrightarrow> bs \<noteq> [] \<Longrightarrow> do {
        m \<leftarrow> set_node node (\<lambda>n. n\<lparr>vn_prev := last as, vn_next := hd bs\<rparr>) m;
        m \<leftarrow> set_node (last as) (\<lambda>l. l\<lparr>vn_next := node\<rparr>) m;
        set_node (hd bs) (\<lambda>r. r\<lparr>vn_prev := node\<rparr>) m } = Some (linked m node n as bs)"
proof -
  have node: "node \<noteq> NULL" "node \<notin> set (as @ bs)" using assms(2) by (auto simp: loose_def)
  have v: "vlist (vm_nodes m) (as @ bs)" using assms(1) by (simp add: vm_shape_def free_ok_def)
  show "freevmr_linkto_right node (hd bs) m = Some (linked m node n as bs)" if "as = []" "bs \<noteq> []"
    using that v node assms(3)
    by (cases bs) (auto simp: dlist_def freevmr_linkto_right_def vm_exec linked_def Let_def fun_upd_twist upd_order)
  show "freevmr_linkto_left node (last as) m = Some (linked m node n as bs)" if "as \<noteq> []" "bs = []"
    using that v node assms(3)
    by (cases as rule: rev_cases) (auto simp: dlist_def freevmr_linkto_left_def vm_exec linked_def Let_def fun_upd_twist upd_order)
  show "do {
        m \<leftarrow> set_node node (\<lambda>n. n\<lparr>vn_prev := last as, vn_next := hd bs\<rparr>) m;
        m \<leftarrow> set_node (last as) (\<lambda>l. l\<lparr>vn_next := node\<rparr>) m;
        set_node (hd bs) (\<lambda>r. r\<lparr>vn_prev := node\<rparr>) m } = Some (linked m node n as bs)" if "as \<noteq> []" "bs \<noteq> []"
    using that v node assms(3)
    by (cases as rule: rev_cases; cases bs) (auto simp: dlist_def vm_exec linked_def Let_def fun_upd_twist upd_order)
qed

text \<open>What putting a region back achieves: the regions of the new list are those of \<open>put_region\<close>.\<close>

definition put_spec :: "vmm \<Rightarrow> ptr list \<Rightarrow> ptr list \<Rightarrow> ptr list \<Rightarrow> ptr \<Rightarrow> region list \<Rightarrow> vmm \<Rightarrow> bool" where
  "put_spec m xs ys zs node rs m' \<longleftrightarrow> (\<exists>xs' zs'. vm_shape m' xs' ys zs' \<and> map (rg m') xs' = rs \<and>
    vm_keep (insert node (set xs \<union> set zs)) m m' \<and> set xs' \<union> set zs' = insert node (set xs \<union> set zs))"

lemma put_specI:
  assumes "vm_shape m' xs' ys zs'" and "map (rg m') xs' = rs" and "vm_keep X m m'"
    and "X \<subseteq> insert node (set xs \<union> set zs)" and "set xs' \<union> set zs' = insert node (set xs \<union> set zs)"
  shows "put_spec m xs ys zs node rs m'"
proof -
  have "vm_keep (insert node (set xs \<union> set zs)) m m'"
    using vm_keep_trans [OF assms(3) vm_keep_refl [of "{}"]] assms(4) by simp
  with assms show ?thesis unfolding put_spec_def by blast
qed

lemma region_ok_loose:
  "region_ok (rg m x) \<Longrightarrow> vm_nodes m x = Some n \<Longrightarrow> x \<noteq> NULL \<Longrightarrow> x \<notin> set ws \<Longrightarrow> loose m x ws"
  by (auto simp: loose_def region_ok_def rg_def word_le_nat_alt unat_gt_0)

lemma region_ok_bound: "region_ok r \<Longrightarrow> rend r < 2 ^ 32"
  by (simp add: region_ok_def)

lemma put_cases_ok:
  assumes sh: "vm_shape m (ls @ rs) ys zs" and ok: "\<forall>x \<in> set (ls @ rs). region_ok (rg m x)"
    and n: "vm_nodes m node = Some n" and node: "node \<noteq> NULL" "node \<notin> set ((ls @ rs) @ ys @ zs)"
    and rok: "region_ok (rg m node)" and ne: "ls @ rs \<noteq> []"
  shows "\<exists>m'. freevmr_place (lst_or NULL ls) node (fst_or NULL rs) m = Some m' \<and>
    put_spec m (ls @ rs) ys zs node (put_between (rg m node) (map (rg m) ls) (map (rg m) rs)) m'"
proof -
  have loose: "loose m node ((ls @ rs) @ ys @ zs)" using region_ok_loose [OF rok n] node by blast
  have v: "vlist (vm_nodes m) (ls @ rs)" and dist: "distinct ((ls @ rs) @ ys @ zs)"
    using sh by (auto simp: vm_shape_def free_ok_def)
  have bnd: "rend (rg m node) < 2 ^ 32" "\<And>x. x \<in> set (ls @ rs) \<Longrightarrow> rend (rg m x) < 2 ^ 32"
    using region_ok_bound rok ok by blast+
  have cl: "can_merge_left node l m = Some (rend (rg m l) = fst (rg m node))" if "l \<in> set (ls @ rs)" for l
  proof -
    from vlist_live [OF v that] obtain k where k: "vm_nodes m l = Some k" "l \<noteq> NULL" by auto
    then show ?thesis
      using rend_word [OF bnd(2) [OF that] k(1), of "vn_base n"] n node by (simp add: can_merge_left_def vm_exec rg_def)
  qed
  have cr: "can_merge_right node r m = Some (rend (rg m node) = fst (rg m r))" if "r \<in> set (ls @ rs)" for r
  proof -
    from vlist_live [OF v that] obtain k where k: "vm_nodes m r = Some k" "r \<noteq> NULL" by auto
    then show ?thesis
      using rend_word [OF bnd(1) n, of "vn_base k"] n node by (simp add: can_merge_right_def vm_exec rg_def)
  qed
  note lk = linked_ok [OF sh loose n] and le = link_exec [OF sh loose n]
  have link: "put_spec m (ls @ rs) ys zs node (map (rg m) (ls @ node # rs)) (linked m node n ls rs)"
    by (rule put_specI [OF lk]) auto
  show ?thesis
  proof (cases ls rule: rev_cases)
    case Nil
    with ne obtain r bs where rs: "rs = r # bs" by (cases rs) auto
    then have r: "r \<in> set (ls @ rs)" "r \<noteq> NULL" using vlist_live [OF v, of r] by auto
    show ?thesis
    proof (cases "rend (rg m node) = fst (rg m r)")
      case True
      from merge_right_ok [of m "[]" r bs ys zs node] sh loose bnd r rs Nil True obtain m' where
        m': "merge_right node r m = Some m'" "vm_shape m' (r # bs) ys (zs @ [node])"
          "map (rg m') (r # bs) = (fst (rg m node), snd (rg m r) + snd (rg m node)) # map (rg m) bs"
          "vm_keep (insert r (insert node (set zs))) m m'" by auto
      have "put_spec m (ls @ rs) ys zs node ((fst (rg m node), snd (rg m r) + snd (rg m node)) # map (rg m) bs) m'"
        by (rule put_specI [OF m'(2-4)]) (use Nil rs in auto)
      then show ?thesis using Nil rs r True cr [OF r(1)] m'(1) by (simp add: put_between_def freevmr_place_def)
    next
      case False
      then show ?thesis using Nil rs r cr [OF r(1)] le(1) link by (simp add: put_between_def freevmr_place_def)
    qed
  next
    case (snoc as l)
    then have l: "l \<in> set (ls @ rs)" "l \<noteq> NULL" using vlist_live [OF v, of l] by auto
    have left: "\<exists>m'. merge_left node l m = Some m' \<and>
      put_spec m (ls @ rs) ys zs node (map (rg m) as @ (fst (rg m l), snd (rg m l) + snd (rg m node)) # map (rg m) rs) m'"
      if e: "rend (rg m l) = fst (rg m node)"
    proof -
      from merge_left_ok [of m as l rs ys zs node] sh loose bnd snoc e obtain m' where
        m': "merge_left node l m = Some m'" "vm_shape m' (as @ l # rs) ys (zs @ [node])"
          "map (rg m') (as @ l # rs) = map (rg m) as @ (fst (rg m l), snd (rg m l) + snd (rg m node)) # map (rg m) rs"
          "vm_keep (insert l (insert node (set zs))) m m'" by auto
      have "put_spec m (ls @ rs) ys zs node (map (rg m) as @ (fst (rg m l), snd (rg m l) + snd (rg m node)) # map (rg m) rs) m'"
        by (rule put_specI [OF m'(2-4)]) (use snoc in auto)
      with m'(1) show ?thesis by blast
    qed
    show ?thesis
    proof (cases rs)
      case Nil
      then show ?thesis using snoc l cl [OF l(1)] le(2) link left by (auto simp: put_between_def freevmr_place_def)
    next
      case (Cons r bs)
      then have r: "r \<in> set (ls @ rs)" "r \<noteq> NULL" using vlist_live [OF v, of r] by auto
      have both: "\<exists>m'. concatenate l node r m = Some m' \<and> put_spec m (ls @ rs) ys zs node
          (map (rg m) as @ (fst (rg m l), snd (rg m l) + (snd (rg m node) + snd (rg m r))) # map (rg m) bs) m'"
        if e: "rend (rg m l) = fst (rg m node)" "rend (rg m node) = fst (rg m r)"
      proof -
        from vlist_live [OF v r(1)] obtain k where k: "vm_nodes m r = Some k" by blast
        have rk: "region_ok (rg m r)" and rn: "r \<notin> set (as @ l # bs @ ys @ zs)"
          using ok r dist snoc Cons by auto
        have sh': "vm_shape m (as @ l # r # bs) ys zs" "loose m node ((as @ l # r # bs) @ ys @ zs)"
          using sh loose snoc Cons by simp_all
        from concatenate_ok [OF sh' region_ok_loose [OF rk k r(2) rn] bnd(2) [OF r(1)] e] obtain m' where
          m': "concatenate l node r m = Some m'" "vm_shape m' (as @ l # bs) ys (zs @ [node, r])"
            "map (rg m') (as @ l # bs) =
              map (rg m) as @ (fst (rg m l), snd (rg m l) + (snd (rg m node) + snd (rg m r))) # map (rg m) bs"
            "vm_keep (set (l # r # bs) \<union> insert node (set zs)) m m'" by blast
        have "put_spec m (ls @ rs) ys zs node
          (map (rg m) as @ (fst (rg m l), snd (rg m l) + (snd (rg m node) + snd (rg m r))) # map (rg m) bs) m'"
          by (rule put_specI [OF m'(2-4)]) (use snoc Cons in auto)
        with m'(1) show ?thesis by blast
      qed
      have right: "\<exists>m'. merge_right node r m = Some m' \<and>
        put_spec m (ls @ rs) ys zs node (map (rg m) ls @ (fst (rg m node), snd (rg m r) + snd (rg m node)) # map (rg m) bs) m'"
        if e: "rend (rg m node) = fst (rg m r)"
      proof -
        from merge_right_ok [of m ls r bs ys zs node] sh loose bnd r Cons e obtain m' where
          m': "merge_right node r m = Some m'" "vm_shape m' (ls @ r # bs) ys (zs @ [node])"
            "map (rg m') (ls @ r # bs) = map (rg m) ls @ (fst (rg m node), snd (rg m r) + snd (rg m node)) # map (rg m) bs"
            "vm_keep (insert r (insert node (set zs))) m m'" by auto
        have "put_spec m (ls @ rs) ys zs node (map (rg m) ls @ (fst (rg m node), snd (rg m r) + snd (rg m node)) # map (rg m) bs) m'"
          by (rule put_specI [OF m'(2-4)]) (use Cons in auto)
        with m'(1) show ?thesis by blast
      qed
      show ?thesis
        using snoc Cons l r cl [OF l(1)] cr [OF r(1)] le(3) link left both right
        by (auto simp: put_between_def can_merge_both_def freevmr_place_def)
    qed
  qed
qed

lemma vm_shape_upd_loose:
  assumes "vm_shape m xs ys zs" and "node \<notin> set (xs @ ys @ zs)"
  shows "vm_shape (m\<lparr>vm_nodes := (vm_nodes m)(node := v)\<rparr>) xs ys zs"
  using assms by (auto simp: vm_shape_def free_ok_def used_ok_def spare_ok_def dlist_upd)

lemma map_rg_takeWhile:
  "map (rg m) (takeWhile (\<lambda>x. vn_base (the (vm_nodes m x)) < b) xs) =
    takeWhile (\<lambda>q. fst q < unat b) (map (rg m) xs)"
  "map (rg m) (dropWhile (\<lambda>x. vn_base (the (vm_nodes m x)) < b) xs) =
    dropWhile (\<lambda>q. fst q < unat b) (map (rg m) xs)"
  by (simp_all add: takeWhile_map dropWhile_map comp_def rg_def word_less_nat_alt)

lemma freevmr_put_ok:
  assumes sh: "vm_shape m xs ys zs" and ok: "\<forall>x \<in> set xs. region_ok (rg m x)"
    and n: "vm_nodes m node = Some n" and node: "node \<noteq> NULL" "node \<notin> set (xs @ ys @ zs)"
    and rok: "region_ok (rg m node)"
  shows "\<exists>m'. freevmr_put node m = Some m' \<and>
    put_spec m xs ys zs node (put_region (rg m node) (map (rg m) xs)) m'"
proof -
  let ?n = "n\<lparr>vn_prev := NULL, vn_next := NULL\<rparr>"
  let ?m = "m\<lparr>vm_nodes := (vm_nodes m)(node \<mapsto> ?n)\<rparr>"
  have sh': "vm_shape ?m xs ys zs" using vm_shape_upd_loose [OF sh node(2)] .
  have rg: "rg ?m x = rg m x" for x using n by (simp add: rg_def)
  have loose: "loose m node (xs @ ys @ zs)" using region_ok_loose [OF rok n node] .
  have check: "region_check node m = Some ()"
    using loose n node by (auto simp: region_check_def loose_def vm_exec)
  have spec: "put_spec m xs ys zs node rs m'" if "put_spec ?m xs ys zs node rs m'" for rs m'
    using that n by (auto simp: put_spec_def vm_keep_def)
  show ?thesis
  proof (cases "xs = []")
    case True
    then have "freevmr_put node m = Some (linked ?m node ?n [] [])"
      using sh n node check by (simp add: freevmr_put_def vm_exec linked_def vm_shape_def free_ok_def)
    moreover have "loose ?m node (([] @ []) @ ys @ zs)"
      using loose n by (auto simp: loose_def)
    then have "put_spec ?m xs ys zs node (map (rg ?m) ([] @ node # [])) (linked ?m node ?n [] [])"
      using linked_ok [of ?m "[]" "[]" ys zs node ?n] sh' True by (intro put_specI) auto
    ultimately show ?thesis using spec True rg by (simp add: put_region_def put_between_def)
  next
    case False
    let ?P = "\<lambda>x. vn_base (the (vm_nodes ?m x)) < vn_base n"
    let ?ls = "takeWhile ?P xs" and ?rs = "dropWhile ?P xs"
    have v: "vseg (vm_nodes ?m) NULL xs NULL" and hd: "freevmr_head m = fst_or NULL xs"
      using sh' sh by (auto simp: vm_shape_def free_ok_def dlist_def)
    have "NULL \<notin> set xs" using dseg_not_NULL [OF v] .
    then have nn: "freevmr_head m \<noteq> NULL" using False hd by (simp add: fst_or_eq_default)
    have "vm_shape ?m (?ls @ ?rs) ys zs" using sh' by simp
    from put_cases_ok [OF this, of node ?n] ok rg rok node False obtain m' where
      m': "freevmr_place (lst_or NULL ?ls) node (fst_or NULL ?rs) ?m = Some m'"
      "put_spec ?m xs ys zs node (put_between (rg ?m node) (map (rg ?m) ?ls) (map (rg ?m) ?rs)) m'" by auto
    have "freevmr_put node m = Some m'"
      using m'(1) n node check nn put_scan_split [OF v, of "vn_base n" NULL] hd
      by (simp add: freevmr_put_def vm_exec fun_upd_same del: fun_upd_apply)
    moreover have rgf: "rg ?m = rg m" using rg by (rule ext)
    have "fst (rg m node) = unat (vn_base n)" using n by (simp add: rg_def)
    then have "put_spec m xs ys zs node (put_region (rg m node) (map (rg m) xs)) m'"
      using spec [OF m'(2) [unfolded map_rg_takeWhile, unfolded rgf]] by (simp only: put_region_def)
    ultimately show ?thesis by blast
  qed
qed

section \<open>Allocation\<close>

lemma freenodes_get_ok:
  assumes "vm_shape m xs ys (z # zs)"
  shows "\<exists>m'. freenodes_get m = Some (z, m') \<and> vm_shape m' xs ys zs \<and> vm_keep {z} m m' \<and>
    vm_nodes m' z = Some zero_node \<and> z \<noteq> NULL \<and> z \<notin> set (xs @ ys @ zs)"
proof -
  note sh = assms [unfolded vm_shape_def]
  from sh obtain p n where n: "vm_nodes m z = Some n" "z \<noteq> NULL" "vn_next n = fst_or NULL zs"
    "vseg (vm_nodes m) z zs NULL" by (auto simp: spare_ok_def)
  let ?m = "m\<lparr>vm_nodes := (vm_nodes m)(z \<mapsto> zero_node), freenodes_head := fst_or NULL zs,
    freenodes_tail := lst_or NULL zs\<rparr>"
  have zs: "fst_or NULL zs = NULL \<longleftrightarrow> zs = []" using fst_or_eq_default [OF dseg_not_NULL [OF n(4)]] .
  have "freenodes_get m = Some (z, ?m)"
  proof (cases "zs = []")
    case True
    with n sh show ?thesis by (simp add: freenodes_get_def vm_exec spare_ok_def)
  next
    case False
    then have "lst_or z zs = lst_or NULL zs" by (simp add: lst_or_def)
    with n sh zs False show ?thesis by (simp add: freenodes_get_def vm_exec spare_ok_def)
  qed
  moreover have "vm_shape ?m xs ys zs"
    using sh n by (auto simp: vm_shape_def free_ok_def used_ok_def spare_ok_def dlist_upd)
  moreover have "vm_keep {z} m ?m" by (simp add: vm_keep_def)
  ultimately show ?thesis using n sh by auto
qed

text \<open>The state after taking \<open>x\<close> out of the free list.\<close>

definition unlinked :: "vmm \<Rightarrow> ptr \<Rightarrow> vnode \<Rightarrow> ptr list \<Rightarrow> ptr list \<Rightarrow> vmm" where
  "unlinked m x n as bs =
    (let h = vm_nodes m;
         h1 = (if as = [] then h else h(lst_or NULL as \<mapsto> (the (h (lst_or NULL as)))\<lparr>vn_next := fst_or NULL bs\<rparr>));
         h2 = (if bs = [] then h1 else h1(fst_or NULL bs \<mapsto> (the (h (fst_or NULL bs)))\<lparr>vn_prev := lst_or NULL as\<rparr>))
     in m\<lparr>vm_nodes := h2(x \<mapsto> n\<lparr>vn_next := NULL, vn_prev := NULL\<rparr>),
          freevmr_head := (if as = [] then fst_or NULL bs else freevmr_head m),
          freevmr_tail := (if freevmr_tail m = x then NULL else freevmr_tail m)\<rparr>)"

lemma unlinked_ok:
  assumes "vm_shape m (as @ x # bs) ys zs" and "vm_nodes m x = Some n"
  shows "vm_shape (unlinked m x n as bs) (as @ bs) ys zs"
    and "map (rg (unlinked m x n as bs)) (as @ x # bs) = map (rg m) (as @ x # bs)"
    and "vm_keep (set (as @ x # bs)) m (unlinked m x n as bs)"
proof -
  let ?m = "unlinked m x n as bs"
  note sh = assms(1) [unfolded vm_shape_def free_ok_def]
  have v: "vlist (vm_nodes m) (as @ x # bs)" using sh by blast
  have ends: "as \<noteq> [] \<Longrightarrow> lst_or NULL as \<in> set as" "bs \<noteq> [] \<Longrightarrow> fst_or NULL bs \<in> set bs"
    by (rule lst_or_in, simp, rule fst_or_in, simp)
  have d: "x \<notin> set as" "x \<notin> set bs" "set as \<inter> set bs = {}" using sh by auto
  show keep: "vm_keep (set (as @ x # bs)) m ?m"
    using ends by (auto simp: vm_keep_def unlinked_def Let_def)
  have live: "\<exists>k. vm_nodes m y = Some k" if "y \<in> set (as @ x # bs)" for y
    using that vlist_live [OF v] by blast
  have "rg ?m y = rg m y" if "y \<in> set (as @ x # bs)" for y
    using that live [OF that] live [of "lst_or NULL as"] live [of "fst_or NULL bs"] ends d assms(2)
    by (auto simp: rg_def unlinked_def Let_def)
  then show "map (rg ?m) (as @ x # bs) = map (rg m) (as @ x # bs)" by simp
  have "vlist (vm_nodes ?m) (as @ bs)"
    using v by (cases as rule: rev_cases; cases bs) (auto simp: dlist_def unlinked_def Let_def)
  moreover have "freevmr_head ?m = fst_or NULL (as @ bs)"
    using sh by (cases as) (simp_all add: unlinked_def Let_def)
  moreover have "freevmr_tail ?m = NULL \<or> freevmr_tail ?m = lst_or NULL (as @ bs)"
    using sh by (cases bs) (auto simp: unlinked_def Let_def lst_or_append)
  moreover have "used_ok ?m ys" using sh by (intro used_ok_frame [OF keep]) (auto simp: unlinked_def Let_def)
  moreover have "spare_ok ?m zs" using sh by (intro spare_ok_frame [OF keep]) (auto simp: unlinked_def Let_def)
  ultimately show "vm_shape ?m (as @ bs) ys zs" using sh by (auto simp: vm_shape_def free_ok_def)
qed

lemma freevmr_get_exec:
  assumes "vm_shape m (as @ x # bs) ys zs" and "sz \<noteq> 0" and "sz AND 0xFFF = 0" and "vm_nodes m x = Some n"
    and "sz \<le> vn_size n" and "\<forall>y \<in> set as. vn_size (the (vm_nodes m y)) < sz"
  shows "freevmr_get sz m = Some (x, unlinked m x n as bs)"
proof -
  note sh = assms(1) [unfolded vm_shape_def free_ok_def]
  have v: "vlist (vm_nodes m) (as @ x # bs)" and head: "freevmr_head m = fst_or x as" using sh by auto
  have x: "x \<noteq> NULL" "x \<notin> set as" "x \<notin> set bs" using v dlist_not_NULL [OF v] by (auto simp: dlist_def)
  have find: "find_node vn_next (vm_nodes m) (\<lambda>_ n. vn_size n \<ge> sz) (freevmr_head m) = Some x"
    using find_node_Some [OF v, of "\<lambda>_ n. vn_size n \<ge> sz"] assms(4-6) sh by (auto simp: not_le)
  have tail: "bs \<noteq> [] \<Longrightarrow> freevmr_tail m \<noteq> x"
    using sh x lst_or_in [of bs x] by auto
  have head': "as \<noteq> [] \<Longrightarrow> freevmr_head m \<noteq> x"
    using head x fst_or_in [of as x] by auto
  show ?thesis
    using v x find head head' tail assms(2-4)
    by (cases as rule: rev_cases; cases bs)
      (auto simp: dlist_def freevmr_get_def vm_exec unlinked_def Let_def fun_upd_twist upd_order)
qed

end
