(* ===== verification/Vmm_Alloc.thy ===== *)
theory Vmm_Alloc
  imports Vmm
begin

text \<open>
  Correctness of the kernel virtual memory allocator: \<^verbatim>\<open>vmm_init\<close> establishes the arena invariant,
  \<^verbatim>\<open>vmm_alloc\<close> is first fit on the list of free regions and \<^verbatim>\<open>vmm_free\<close> the coalescing insertion,
  both never panic and keep the invariant.
\<close>

section \<open>The list of used regions\<close>

lemma usedvmr_put_ok:
  assumes "vm_shape m xs ys zs" and "loose m node (xs @ ys @ zs)"
  shows "\<exists>m'. usedvmr_put node m = Some m' \<and> vm_shape m' xs (ys @ [node]) zs \<and>
    map (rg m') (ys @ [node]) = map (rg m) (ys @ [node]) \<and> vm_keep (insert node (set ys)) m m'"
proof -
  from assms(2) obtain n where n: "vm_nodes m node = Some n" "vn_size n \<noteq> 0" "vn_base n \<ge> KHEAPBASE"
    "node \<noteq> NULL" "node \<notin> set xs" "node \<notin> set ys" "node \<notin> set zs" by (auto simp: loose_def)
  note sh = assms(1) [unfolded vm_shape_def used_ok_def]
  have v: "vlist (vm_nodes m) ys" using sh by blast
  let ?h = "(if ys = [] then vm_nodes m
    else (vm_nodes m)(lst_or NULL ys \<mapsto> (the (vm_nodes m (lst_or NULL ys)))\<lparr>vn_next := node\<rparr>))"
  let ?m = "m\<lparr>vm_nodes := ?h(node \<mapsto> n\<lparr>vn_next := NULL, vn_prev := lst_or NULL ys\<rparr>),
    usedvmr_head := fst_or node ys, usedvmr_tail := node\<rparr>"
  have last: "ys \<noteq> [] \<Longrightarrow> lst_or NULL ys \<in> set ys" by (rule lst_or_in)
  have live: "\<exists>k. vm_nodes m y = Some k \<and> y \<noteq> NULL" if "y \<in> set ys" for y using that vlist_live [OF v] by blast
  have "usedvmr_put node m = Some ?m"
  proof (cases ys rule: rev_cases)
    case Nil
    with n sh show ?thesis by (simp add: usedvmr_put_def region_check_def vm_exec)
  next
    case (snoc ys' y)
    then have "fst_or NULL ys \<in> set ys" by (intro fst_or_in) simp
    then have "usedvmr_head m \<noteq> NULL" using sh dlist_not_NULL [OF v] by auto
    moreover have "fst_or NULL ys = fst_or node ys" using snoc by (cases ys') auto
    moreover obtain k where "vm_nodes m y = Some k" "y \<noteq> NULL" "y \<noteq> node" using live [of y] snoc n by auto
    ultimately show ?thesis
      using n sh snoc by (simp add: usedvmr_put_def region_check_def vm_exec)
  qed
  moreover have keep: "vm_keep (insert node (set ys)) m ?m" using last by (auto simp: vm_keep_def)
  moreover have "vm_shape ?m xs (ys @ [node]) zs"
  proof -
    have "free_ok ?m xs" using sh n by (intro free_ok_frame [OF keep]) auto
    moreover have "spare_ok ?m zs" using sh n by (intro spare_ok_frame [OF keep]) auto
    moreover have "vlist (vm_nodes ?m) (ys @ [node])"
      using v n by (cases ys rule: rev_cases) (auto simp: dlist_def)
    ultimately show ?thesis using sh n by (auto simp: vm_shape_def used_ok_def)
  qed
  moreover have "rg ?m y = rg m y" if "y \<in> set (ys @ [node])" for y
    using that n last live [of "lst_or NULL ys"] by (auto simp: rg_def)
  then have "map (rg ?m) (ys @ [node]) = map (rg m) (ys @ [node])" by simp
  ultimately show ?thesis by blast
qed

lemma used_order:
  "m\<lparr>usedvmr_head := t, vm_nodes := h\<rparr> = m\<lparr>vm_nodes := h, usedvmr_head := t\<rparr>"
  "m\<lparr>usedvmr_tail := t, vm_nodes := h\<rparr> = m\<lparr>vm_nodes := h, usedvmr_tail := t\<rparr>"
  by simp_all

lemma usedvmr_lookup_ok:
  assumes "vm_shape m xs (as @ x # bs) zs" and "vm_nodes m x = Some n" and "vn_base n \<noteq> 0"
    and "\<forall>y \<in> set as. vn_base (the (vm_nodes m y)) \<noteq> vn_base n"
  shows "\<exists>m'. usedvmr_lookup (vn_base n) m = Some (x, m') \<and> vm_shape m' xs (as @ bs) zs \<and>
    map (rg m') (as @ x # bs) = map (rg m) (as @ x # bs) \<and> vm_keep (set (as @ x # bs)) m m' \<and>
    vm_nodes m' x \<noteq> None"
proof -
  note sh = assms(1) [unfolded vm_shape_def used_ok_def]
  have v: "vlist (vm_nodes m) (as @ x # bs)" and head: "usedvmr_head m = fst_or x as"
    and tl: "usedvmr_tail m = lst_or x bs" using sh by (auto simp: lst_or_append)
  have x: "x \<noteq> NULL" "x \<notin> set as" "x \<notin> set bs" "set as \<inter> set bs = {}"
    using v dlist_not_NULL [OF v] by (auto simp: dlist_def)
  let ?h1 = "if as = [] then vm_nodes m
    else (vm_nodes m)(lst_or NULL as \<mapsto> (the (vm_nodes m (lst_or NULL as)))\<lparr>vn_next := fst_or NULL bs\<rparr>)"
  let ?h2 = "if bs = [] then ?h1
    else ?h1(fst_or NULL bs \<mapsto> (the (vm_nodes m (fst_or NULL bs)))\<lparr>vn_prev := lst_or NULL as\<rparr>)"
  let ?m = "m\<lparr>vm_nodes := ?h2(x \<mapsto> n\<lparr>vn_next := NULL, vn_prev := NULL\<rparr>),
    usedvmr_head := (if as = [] then fst_or NULL bs else usedvmr_head m),
    usedvmr_tail := (if bs = [] then lst_or NULL as else usedvmr_tail m)\<rparr>"
  have find: "find_node vn_next (vm_nodes m) (\<lambda>_ k. vn_base k = vn_base n) (usedvmr_head m) = Some x"
    using find_node_Some [OF v, of "\<lambda>_ k. vn_base k = vn_base n"] assms(2,4) head by auto
  have ends: "as \<noteq> [] \<Longrightarrow> lst_or NULL as \<in> set as" "bs \<noteq> [] \<Longrightarrow> fst_or NULL bs \<in> set bs"
    by (rule lst_or_in, simp, rule fst_or_in, simp)
  have edge: "usedvmr_head m = x \<longleftrightarrow> as = []" "usedvmr_tail m = x \<longleftrightarrow> bs = []"
    using head tl x fst_or_in [of as x] lst_or_in [of bs x] by auto
  have e: "usedvmr_head ?m = fst_or NULL (as @ bs)" "usedvmr_tail ?m = lst_or NULL (as @ bs)"
    using head tl by (cases as; cases bs; simp add: lst_or_append)+
  have exec: "usedvmr_lookup (vn_base n) m = Some (x, ?m)"
    using v x find edge assms(2,3)
    by (cases as rule: rev_cases; cases bs)
      (auto simp: dlist_def usedvmr_lookup_def vm_exec fun_upd_twist upd_order used_order)
  have keep: "vm_keep (set (as @ x # bs)) m ?m" using ends by (auto simp: vm_keep_def)
  have live: "\<exists>k. vm_nodes m y = Some k" if "y \<in> set (as @ x # bs)" for y
    using that vlist_live [OF v] by blast
  have "rg ?m y = rg m y" if "y \<in> set (as @ x # bs)" for y
    using that live [OF that] live [of "lst_or NULL as"] live [of "fst_or NULL bs"] ends x assms(2)
    by (auto simp: rg_def)
  then have map: "map (rg ?m) (as @ x # bs) = map (rg m) (as @ x # bs)" by simp
  have "vlist (vm_nodes ?m) (as @ bs)"
    using v by (cases as rule: rev_cases; cases bs) (auto simp: dlist_def)
  moreover have "free_ok ?m xs" using sh by (intro free_ok_frame [OF keep]) auto
  moreover have "spare_ok ?m zs" using sh by (intro spare_ok_frame [OF keep]) auto
  ultimately have "vm_shape ?m xs (as @ bs) zs" using sh e by (auto simp: vm_shape_def used_ok_def)
  with exec map keep show ?thesis by (intro exI [of _ ?m]) simp
qed

section \<open>The abstract allocator\<close>

text \<open>First fit: the front of the first region that is large enough, and the regions that stay free.\<close>

fun first_fit :: "nat \<Rightarrow> region list \<Rightarrow> (nat \<times> region list) option" where
  "first_fit n [] = None"
| "first_fit n (r # fs) =
    (if n \<le> snd r then Some (fst r, if snd r = n then fs else (fst r + n, snd r - n) # fs)
     else map_option (map_prod id ((#) r)) (first_fit n fs))"

lemma first_fit_None: "first_fit n fs = None \<longleftrightarrow> (\<forall>r \<in> set fs. snd r < n)"
  by (induction fs) auto

lemma first_fit_Some:
  "first_fit n fs = Some (b, gs) \<Longrightarrow> \<exists>as t bs. fs = as @ (b, t) # bs \<and> n \<le> t \<and> (\<forall>r \<in> set as. snd r < n) \<and>
    gs = as @ (if t = n then bs else (b + n, t - n) # bs)"
proof (induction fs arbitrary: gs)
  case Nil
  then show ?case by simp
next
  case (Cons r fs)
  show ?case
  proof (cases "n \<le> snd r")
    case True
    with Cons.prems show ?thesis by (intro exI [of _ "[]"] exI [of _ "snd r"] exI [of _ fs]) auto
  next
    case False
    with Cons.prems obtain hs where hs: "first_fit n fs = Some (b, hs)" "gs = r # hs" by auto
    from Cons.IH [OF hs(1)] obtain as t bs where "fs = as @ (b, t) # bs" "n \<le> t" "\<forall>r \<in> set as. snd r < n"
      "hs = as @ (if t = n then bs else (b + n, t - n) # bs)" by blast
    with False hs(2) show ?thesis by (intro exI [of _ "r # as"] exI [of _ t] exI [of _ bs]) auto
  qed
qed

lemma arena_first_fit:
  assumes "arena fs us" and "first_fit n fs = Some (b, gs)" and "0 < n" and "PAGE dvd n"
  shows "arena gs (us @ [(b, n)])"
proof -
  from first_fit_Some [OF assms(2)] obtain as t bs where f: "fs = as @ (b, t) # bs" "n \<le> t"
    "gs = as @ (if t = n then bs else (b + n, t - n) # bs)" by blast
  show ?thesis
  proof (cases "t = n")
    case True
    with f assms(1) show ?thesis using arena_alloc_all [of as "(b, t)" bs us] by simp
  next
    case False
    with f assms show ?thesis using arena_alloc_front [of as b t bs us n] by simp
  qed
qed

lemma page_aligned: "(w :: u32) AND 0xFFF = 0 \<longleftrightarrow> PAGE dvd unat w"
proof -
  have "w AND 0xFFF = take_bit 12 w" by (simp add: take_bit_eq_mask mask_eq_exp_minus_1)
  then have "w AND 0xFFF = 0 \<longleftrightarrow> unat (take_bit 12 w) = 0" by (simp add: unat_eq_0)
  also have "unat (take_bit 12 w) = take_bit 12 (unat w)" by (rule unsigned_take_bit_eq)
  also have "\<dots> = unat w mod 0x1000" by (simp add: take_bit_eq_mod)
  finally show ?thesis by (simp add: dvd_eq_mod_eq_0)
qed


section \<open>The state\<close>

text \<open>The state as the operations see it while they hold the lock, and between operations.\<close>

definition vm_core :: "vmm \<Rightarrow> ptr list \<Rightarrow> ptr list \<Rightarrow> ptr list \<Rightarrow> region list \<Rightarrow> region list \<Rightarrow> bool" where
  "vm_core m xs ys zs fs us \<longleftrightarrow> vm_shape m xs ys zs \<and> map (rg m) xs = fs \<and> map (rg m) ys = us \<and> arena fs us \<and>
    length xs + length ys + length zs = KHEAP_MAX_NODES \<and> unat (used_virtual_mmsz m) = total us"

definition vm_rep :: "vmm \<Rightarrow> region list \<Rightarrow> region list \<Rightarrow> bool" where
  "vm_rep m fs us \<longleftrightarrow> vm_lock m = spin_unlocked \<and> (\<exists>xs ys zs. vm_core m xs ys zs fs us)"

lemma vm_shape_other [simp]:
  "vm_shape (m\<lparr>vm_lock := l\<rparr>) xs ys zs = vm_shape m xs ys zs"
  "vm_shape (m\<lparr>used_virtual_mmsz := u\<rparr>) xs ys zs = vm_shape m xs ys zs"
  by (simp_all add: vm_shape_def free_ok_def used_ok_def spare_ok_def)

lemma rg_other [simp]: "rg (m\<lparr>vm_lock := l\<rparr>) = rg m" "rg (m\<lparr>used_virtual_mmsz := u\<rparr>) = rg m"
  by (simp_all add: rg_def fun_eq_iff)

lemma loose_other [simp]:
  "loose (m\<lparr>used_virtual_mmsz := u\<rparr>) x ws = loose m x ws" "loose (m\<lparr>vm_lock := l\<rparr>) x ws = loose m x ws"
  by (simp_all add: loose_def)

lemma vm_core_lock [simp]: "vm_core (m\<lparr>vm_lock := l\<rparr>) xs ys zs fs us = vm_core m xs ys zs fs us"
  by (simp add: vm_core_def)

lemma vm_core_ok:
  assumes "vm_core m xs ys zs fs us" and "x \<in> set xs \<union> set ys"
  shows "region_ok (rg m x)"
  using assms by (auto simp: vm_core_def arena_def)

lemma unat_used:
  assumes "unat u = total us" and "arena fs (us @ [(b, unat sz)])"
  shows "unat (u + sz :: u32) = total (us @ [(b, unat sz)])"
  using assms unat_sum [of u sz] by (auto simp: arena_def)

text \<open>Putting the taken node on the used list completes an allocation.\<close>

lemma alloc_finish:
  assumes "vm_shape m xs ys zs" and "map (rg m) xs = gs" and "map (rg m) ys = us" and "rg m node = (b, unat sz)"
    and "arena gs (us @ [(b, unat sz)])" and "unat (used_virtual_mmsz m) = total us"
    and "length xs + Suc (length ys) + length zs = KHEAP_MAX_NODES"
    and "node \<noteq> NULL" and "node \<notin> set (xs @ ys @ zs)" and "vm_nodes m node = Some n"
  shows "\<exists>m'. usedvmr_put node (m\<lparr>used_virtual_mmsz := used_virtual_mmsz m + sz\<rparr>) = Some m' \<and>
    vm_core m' xs (ys @ [node]) zs gs (us @ [(b, unat sz)]) \<and> vm_lock m' = vm_lock m"
proof -
  let ?m = "m\<lparr>used_virtual_mmsz := used_virtual_mmsz m + sz\<rparr>"
  have "region_ok (rg m node)" using assms(4,5) by (auto simp: arena_def)
  then have "loose ?m node (xs @ ys @ zs)" using region_ok_loose [OF _ assms(10,8,9)] by simp
  with usedvmr_put_ok [of ?m xs ys zs node] assms(1) obtain m' where
    m': "usedvmr_put node ?m = Some m'" "vm_shape m' xs (ys @ [node]) zs"
      "map (rg m') (ys @ [node]) = map (rg m) (ys @ [node])" "vm_keep (insert node (set ys)) ?m m'" by auto
  have "set xs \<inter> insert node (set ys) = {}" using assms(1,9) by (auto simp: vm_shape_def)
  then have "map (rg m') xs = gs" using vm_keep_map [OF m'(4), of xs] assms(2) by auto
  moreover have "unat (used_virtual_mmsz m') = total (us @ [(b, unat sz)])" "vm_lock m' = vm_lock m"
    using m'(4) unat_used [OF assms(6,5)] by (auto simp: vm_keep_def)
  ultimately show ?thesis using m'(1-3) assms(3-5,7) by (auto simp: vm_core_def)
qed

lemma freevmr_get_first_fit:
  assumes "vm_core m xs ys zs fs us" and "sz \<noteq> 0" and "sz AND 0xFFF = 0"
  shows "first_fit (unat sz) fs = None \<Longrightarrow> freevmr_get sz m = Some (NULL, m)"
    and "first_fit (unat sz) fs = Some (b, gs) \<Longrightarrow> \<exists>as x bs n. xs = as @ x # bs \<and> vm_nodes m x = Some n \<and>
      freevmr_get sz m = Some (x, unlinked m x n as bs) \<and> unat (vn_base n) = b \<and> sz \<le> vn_size n \<and>
      gs = map (rg m) as @ (if vn_size n = sz then map (rg m) bs
        else (b + unat sz, unat (vn_size n) - unat sz) # map (rg m) bs)"
proof -
  have sh: "vm_shape m xs ys zs" and fs: "map (rg m) xs = fs" using assms(1) by (auto simp: vm_core_def)
  have v: "vlist (vm_nodes m) xs" and head: "freevmr_head m = fst_or NULL xs"
    using sh by (auto simp: vm_shape_def free_ok_def)
  show "freevmr_get sz m = Some (NULL, m)" if "first_fit (unat sz) fs = None"
  proof -
    from that have "\<forall>x \<in> set xs. vn_size (the (vm_nodes m x)) < sz"
      using fs by (auto simp: first_fit_None rg_def word_less_nat_alt)
    then have "find_node vn_next (vm_nodes m) (\<lambda>_ n. vn_size n \<ge> sz) (freevmr_head m) = Some NULL"
      using find_node_None [OF v, of "\<lambda>_ n. vn_size n \<ge> sz"] head by (auto simp: not_le)
    with assms(2,3) show ?thesis by (simp add: freevmr_get_def)
  qed
  show "\<exists>as x bs n. xs = as @ x # bs \<and> vm_nodes m x = Some n \<and>
      freevmr_get sz m = Some (x, unlinked m x n as bs) \<and> unat (vn_base n) = b \<and> sz \<le> vn_size n \<and>
      gs = map (rg m) as @ (if vn_size n = sz then map (rg m) bs
        else (b + unat sz, unat (vn_size n) - unat sz) # map (rg m) bs)"
    if "first_fit (unat sz) fs = Some (b, gs)"
  proof -
    from first_fit_Some [OF that] obtain rs t qs where f: "fs = rs @ (b, t) # qs" "unat sz \<le> t"
      "\<forall>r \<in> set rs. snd r < unat sz" "gs = rs @ (if t = unat sz then qs else (b + unat sz, t - unat sz) # qs)"
      by blast
    from f(1) fs obtain as x bs where x: "xs = as @ x # bs" "rs = map (rg m) as" "(b, t) = rg m x" "qs = map (rg m) bs"
      by (auto simp: map_eq_append_conv map_eq_Cons_conv)
    from vlist_live [OF v, of x] x obtain n where n: "vm_nodes m x = Some n" by auto
    have t: "b = unat (vn_base n)" "t = unat (vn_size n)" using x(3) n by (auto simp: rg_def)
    have "\<forall>y \<in> set as. vn_size (the (vm_nodes m y)) < sz"
      using f(3) x(2) by (auto simp: rg_def word_less_nat_alt)
    then have "freevmr_get sz m = Some (x, unlinked m x n as bs)"
      using freevmr_get_exec [of m as x bs ys zs sz n] sh x(1) assms(2,3) n f(2) t by (auto simp: word_le_nat_alt)
    moreover have "t = unat sz \<longleftrightarrow> vn_size n = sz" using t by (simp add: word_unat_eq_iff)
    ultimately show ?thesis using x n t f(2,4) by (auto simp: word_le_nat_alt)
  qed
qed

text \<open>The part of \<^verbatim>\<open>vmm_alloc\<close> that splits the region found.\<close>

lemma alloc_split:
  assumes "vm_core m (as @ x # bs) ys zs fs us" and "vm_nodes m x = Some n" and "sz < vn_size n" and "sz \<noteq> 0"
    and "PAGE dvd unat sz" and m1: "m1 = unlinked m x n as bs" and "b = unat (vn_base n)"
  shows "\<exists>z m2 m5 xs' zs'' k. freenodes_get m1 = Some (z, m2) \<and> z \<noteq> NULL \<and> vm_nodes m2 x = vm_nodes m1 x \<and> z \<noteq> x \<and>
    vm_nodes m2 z = Some zero_node \<and>
    freevmr_put x (m2\<lparr>vm_nodes := (vm_nodes m2)(z \<mapsto> zero_node\<lparr>vn_base := vn_base n, vn_size := sz\<rparr>,
      x \<mapsto> (the (vm_nodes m1 x))\<lparr>vn_base := vn_base n + sz, vn_size := vn_size n - sz\<rparr>)\<rparr>) = Some m5 \<and>
    vm_shape m5 xs' ys zs'' \<and> z \<notin> set (xs' @ ys @ zs'') \<and> rg m5 z = (b, unat sz) \<and>
    vm_nodes m5 z = Some k \<and> vn_base k = vn_base n \<and>
    map (rg m5) xs' = map (rg m) as @ (b + unat sz, unat (vn_size n) - unat sz) # map (rg m) bs \<and>
    map (rg m5) ys = us \<and> length xs' + Suc (length ys) + length zs'' = KHEAP_MAX_NODES \<and>
    vm_lock m5 = vm_lock m \<and> used_virtual_mmsz m5 = used_virtual_mmsz m"
proof -
  have sh: "vm_shape m (as @ x # bs) ys zs" and fs: "fs = map (rg m) (as @ x # bs)" and us: "us = map (rg m) ys"
    and ar: "arena fs us" and len: "length as + Suc (length bs) + length ys + length zs = KHEAP_MAX_NODES"
    using assms(1) by (auto simp: vm_core_def)
  have rx: "rg m x = (b, unat (vn_size n))" using assms(2,7) by (simp add: rg_def)
  have lt: "unat sz < unat (vn_size n)" "0 < unat sz" using assms(3,4) by (auto simp: word_less_nat_alt unat_gt_0)
  have ar': "arena (map (rg m) as @ (b, unat (vn_size n)) # map (rg m) bs) us" using ar fs rx by simp
  have "length (as @ bs) + 1 + length ys < KHEAP_MAX_NODES"
    using arena_count [OF ar' lt assms(5)] us by (simp add: KHEAP_MAX_NODES_def)
  then obtain z zs' where z: "zs = z # zs'" using len by (cases zs) auto
  have u: "vm_shape m1 (as @ bs) ys zs" "map (rg m1) (as @ x # bs) = map (rg m) (as @ x # bs)"
    "vm_keep (set (as @ x # bs)) m m1"
    using unlinked_ok [OF sh assms(2)] m1 by simp_all
  have d: "x \<notin> set (as @ bs @ ys @ zs)" "z \<noteq> x" "set (as @ x # bs) \<inter> set ys = {}" "distinct ys"
    "z \<notin> set (as @ bs @ ys @ zs')" "distinct (as @ bs)" "distinct zs'" "set (as @ bs) \<inter> set zs' = {}"
    "set ys \<inter> set zs' = {}"
    using sh z by (auto simp: vm_shape_def)
  from freenodes_get_ok [of m1 "as @ bs" ys z zs'] u(1) z obtain m2 where
    m2: "freenodes_get m1 = Some (z, m2)" "vm_shape m2 (as @ bs) ys zs'" "vm_keep {z} m1 m2"
      "vm_nodes m2 z = Some zero_node" "z \<noteq> NULL" by auto
  have x1: "\<exists>n1. vm_nodes m1 x = Some n1" and x0: "x \<noteq> NULL"
    using m1 vm_shape_node [OF sh, of x] by (auto simp: unlinked_def Let_def)
  then obtain n1 where n1: "vm_nodes m1 x = Some n1" by blast
  have x2: "vm_nodes m2 x = Some n1" using m2(3) n1 d(2) by (simp add: vm_keep_def)
  let ?k = "zero_node\<lparr>vn_base := vn_base n, vn_size := sz\<rparr>"
  let ?j = "n1\<lparr>vn_base := vn_base n + sz, vn_size := vn_size n - sz\<rparr>"
  let ?m3 = "m2\<lparr>vm_nodes := (vm_nodes m2)(z \<mapsto> ?k)\<rparr>"
  let ?m4 = "m2\<lparr>vm_nodes := (vm_nodes m2)(z \<mapsto> ?k, x \<mapsto> ?j)\<rparr>"
  have sh4: "vm_shape ?m4 (as @ bs) ys zs'"
    using vm_shape_upd_loose [OF vm_shape_upd_loose [OF m2(2), of z "Some ?k"], of x "Some ?j"] d z by simp
  have rgo: "rg ?m4 y = rg m y" if "y \<in> set (as @ bs @ ys)" for y
  proof -
    have "y \<noteq> z" "y \<noteq> x" using that d by auto
    then have "rg ?m4 y = rg m2 y" by (simp add: rg_def)
    also have "\<dots> = rg m1 y" using vm_keep_rg [OF m2(3)] \<open>y \<noteq> z\<close> by simp
    also have "\<dots> = rg m y" using u(2) vm_keep_rg [OF u(3), of y] by (cases "y \<in> set (as @ x # bs)") auto
    finally show ?thesis .
  qed
  have ok: "region_ok (b, unat (vn_size n))" "\<forall>y \<in> set (as @ bs). region_ok (rg m y)"
    using ar' by (auto simp: arena_def)
  have "unat (vn_base n + sz) = b + unat sz"
    using ok(1) lt assms(7) by (subst unat_sum) (auto simp: region_ok_def rend_def)
  moreover have "unat (vn_size n - sz) = unat (vn_size n) - unat sz"
    using assms(3) by (simp add: unat_sub)
  ultimately have r4: "rg ?m4 x = (b + unat sz, unat (vn_size n) - unat sz)" by (simp add: rg_def)
  have rok4: "region_ok (rg ?m4 x)"
    using arena_alloc_front [OF ar' lt(1,2) assms(5)] unfolding r4 arena_def by auto
  have ok4: "\<forall>y \<in> set (as @ bs). region_ok (rg ?m4 y)" using ok(2) rgo by auto
  have n4: "vm_nodes ?m4 x = Some ?j" and d4: "x \<notin> set ((as @ bs) @ ys @ zs')" using d(1) z by auto
  from freevmr_put_ok [OF sh4 ok4 n4 x0 d4 rok4] obtain m5 where
    m5: "freevmr_put x ?m4 = Some m5"
      "put_spec ?m4 (as @ bs) ys zs' x (put_region (rg ?m4 x) (map (rg ?m4) (as @ bs))) m5" by blast
  have mp: "map (rg ?m4) as = map (rg m) as" "map (rg ?m4) bs = map (rg m) bs" using rgo by auto
  have "put_region (b + unat sz, unat (vn_size n) - unat sz) (map (rg m) as @ map (rg m) bs) =
      map (rg m) as @ (b + unat sz, unat (vn_size n) - unat sz) # map (rg m) bs"
    using put_region_front [of "map (rg m) as" b "unat (vn_size n)" "map (rg m) bs" "unat sz"] ar' lt(1) ok(2)
    by (auto simp: arena_def region_ok_def)
  then have "put_region (rg ?m4 x) (map (rg ?m4) (as @ bs)) =
      map (rg m) as @ (b + unat sz, unat (vn_size n) - unat sz) # map (rg m) bs"
    unfolding r4 map_append mp .
  with m5(2) obtain xs' zs'' where s5: "vm_shape m5 xs' ys zs''"
    "map (rg m5) xs' = map (rg m) as @ (b + unat sz, unat (vn_size n) - unat sz) # map (rg m) bs"
    "vm_keep (insert x (set (as @ bs) \<union> set zs')) ?m4 m5"
    "set xs' \<union> set zs'' = insert x (set (as @ bs) \<union> set zs')" unfolding put_spec_def by auto
  have zx: "z \<notin> insert x (set (as @ bs) \<union> set zs')" using d by auto
  have z5: "vm_nodes m5 z = Some ?k" using s5(3) zx d(2) by (simp add: vm_keep_def)
  have "map (rg m5) ys = map (rg ?m4) ys" using d z by (intro vm_keep_map [OF s5(3)]) auto
  also have "\<dots> = us" using rgo us by auto
  finally have us5: "map (rg m5) ys = us" .
  have "distinct (xs' @ zs'')" using s5(1) by (auto simp: vm_shape_def)
  then have "length xs' + length zs'' = card (set xs' \<union> set zs'')"
    using distinct_card [of "xs' @ zs''"] by simp
  also have "\<dots> = card (set (x # as @ bs @ zs'))" using s5(4) by (simp add: Un_assoc)
  also have "\<dots> = Suc (length as + length bs + length zs')"
    using d z by (subst distinct_card) auto
  finally have len5: "length xs' + Suc (length ys) + length zs'' = KHEAP_MAX_NODES" using len z by simp
  have "z \<notin> set (xs' @ ys @ zs'')" using zx s5(4) d by auto
  moreover have "vm_lock m5 = vm_lock m" "used_virtual_mmsz m5 = used_virtual_mmsz m"
    using s5(3) m2(3) u(3) by (auto simp: vm_keep_def)
  moreover have "rg m5 z = (b, unat sz)" using z5 assms(7) by (simp add: rg_def)
  ultimately show ?thesis using m2 m5(1) s5(1,2) us5 len5 z5 n1 x2 d(2)
    by (intro exI [of _ z] exI [of _ m2] exI [of _ m5] exI [of _ xs'] exI [of _ zs''] exI [of _ ?k]) simp
qed

section \<open>The operations\<close>

lemma vmm_alloc_none:
  assumes "vm_rep m fs us" and "sz \<noteq> 0" and "sz AND 0xFFF = 0" and "first_fit (unat sz) fs = None"
  shows "vmm_alloc cpu sz m = Some (0, m)"
proof -
  from assms(1) obtain xs ys zs where c: "vm_lock m = spin_unlocked" "vm_core m xs ys zs fs us"
    by (auto simp: vm_rep_def)
  let ?m = "m\<lparr>vm_lock := \<lparr>sl_lock = 1, sl_cpu = cpu\<rparr>\<rparr>"
  have "freevmr_get sz ?m = Some (NULL, ?m)"
    using freevmr_get_first_fit(1) [of ?m xs ys zs fs us sz] c(2) assms(2-4) by simp
  moreover have "m\<lparr>vm_lock := spin_unlocked\<rparr> = m" using c(1) by simp
  ultimately show ?thesis using c(1) by (simp add: vmm_alloc_def vm_acquire_def vm_release_def)
qed

lemma vmm_alloc_some:
  assumes "vm_rep m fs us" and "sz \<noteq> 0" and "sz AND 0xFFF = 0" and "first_fit (unat sz) fs = Some (b, gs)"
  shows "\<exists>a m'. vmm_alloc cpu sz m = Some (a, m') \<and> unat a = b \<and> vm_rep m' gs (us @ [(b, unat sz)])"
proof -
  from assms(1) obtain xs ys zs where c: "vm_lock m = spin_unlocked" "vm_core m xs ys zs fs us"
    by (auto simp: vm_rep_def)
  let ?m = "m\<lparr>vm_lock := \<lparr>sl_lock = 1, sl_cpu = cpu\<rparr>\<rparr>"
  have c': "vm_core ?m xs ys zs fs us" using c(2) by simp
  have pg: "PAGE dvd unat sz" "0 < unat sz" using assms(2,3) page_aligned by (auto simp: unat_gt_0)
  have ar: "arena fs us" "arena gs (us @ [(b, unat sz)])"
    using c(2) arena_first_fit [OF _ assms(4) pg(2,1)] by (auto simp: vm_core_def)
  from freevmr_get_first_fit(2) [OF c' assms(2-4)] obtain as x bs n where
    x: "xs = as @ x # bs" "vm_nodes ?m x = Some n" "freevmr_get sz ?m = Some (x, unlinked ?m x n as bs)"
      "unat (vn_base n) = b" "sz \<le> vn_size n" "gs = map (rg ?m) as @ (if vn_size n = sz then map (rg ?m) bs
        else (b + unat sz, unat (vn_size n) - unat sz) # map (rg ?m) bs)" by blast
  let ?m1 = "unlinked ?m x n as bs"
  have sh: "vm_shape ?m (as @ x # bs) ys zs" and us: "map (rg ?m) ys = us" using c' x(1) by (auto simp: vm_core_def)
  note u = unlinked_ok [OF sh x(2)]
  have x0: "x \<noteq> NULL" using vm_shape_node [OF sh, of x] by simp
  have x1: "vm_nodes ?m1 x = Some (n\<lparr>vn_next := NULL, vn_prev := NULL\<rparr>)" by (simp add: unlinked_def Let_def)
  have fin: ?thesis if "usedvmr_put node (m2\<lparr>used_virtual_mmsz := used_virtual_mmsz m2 + sz\<rparr>) = Some m'"
    "vm_core m' xs' ys' zs' gs (us @ [(b, unat sz)])" "vm_lock m' = vm_lock ?m"
    "vm_nodes m2 node = Some k" "node \<noteq> NULL" "vn_base k = vn_base n"
    "vmm_alloc cpu sz m = do {
       let m = m2\<lparr>used_virtual_mmsz := used_virtual_mmsz m2 + sz\<rparr>;
       n \<leftarrow> deref (vm_nodes m) node;
       m \<leftarrow> usedvmr_put node m;
       m \<leftarrow> vm_release cpu m;
       Some (vn_base n, m) }" for node m2 m' xs' ys' zs' k
    using that x(4) by (auto simp: vm_release_def vm_rep_def vm_exec)
  show ?thesis
  proof (cases "vn_size n = sz")
    case True
    have "map (rg ?m1) as = map (rg ?m) as" "map (rg ?m1) bs = map (rg ?m) bs" "rg ?m1 x = rg ?m x" using u(2) by auto
    moreover have "set (as @ x # bs) \<inter> set ys = {}" using sh by (auto simp: vm_shape_def)
    then have "map (rg ?m1) ys = us" using vm_keep_map [OF u(3)] us by blast
    moreover have "used_virtual_mmsz ?m1 = used_virtual_mmsz m" "vm_lock ?m1 = vm_lock ?m"
      by (simp_all add: unlinked_def Let_def)
    moreover have "rg ?m x = (b, unat sz)" using x(2,4) True by (simp add: rg_def)
    ultimately have "\<exists>m'. usedvmr_put x (?m1\<lparr>used_virtual_mmsz := used_virtual_mmsz ?m1 + sz\<rparr>) = Some m' \<and>
        vm_core m' (as @ bs) (ys @ [x]) zs gs (us @ [(b, unat sz)]) \<and> vm_lock m' = vm_lock ?m1"
      using alloc_finish [OF u(1), of gs us x b sz] c(2) x(1,6) x0 x1 ar(2) True sh
      by (auto simp: vm_core_def vm_shape_def)
    then obtain m' where m': "usedvmr_put x (?m1\<lparr>used_virtual_mmsz := used_virtual_mmsz ?m1 + sz\<rparr>) = Some m'"
      "vm_core m' (as @ bs) (ys @ [x]) zs gs (us @ [(b, unat sz)])" "vm_lock m' = vm_lock ?m1" by blast
    show ?thesis
      by (rule fin [OF m'(1,2) _ x1 x0])
        (use m'(3) x(3) x0 x1 c(1) True in \<open>simp_all add: vmm_alloc_def vm_acquire_def vm_exec unlinked_def Let_def\<close>)
  next
    case False
    then have lt: "sz < vn_size n" using x(5) by simp
    from alloc_split [OF c' [unfolded x(1)] x(2) lt assms(2) pg(1) refl x(4) [symmetric]] obtain z m2 m5 xs' zs'' k where
      s: "freenodes_get ?m1 = Some (z, m2)" "z \<noteq> NULL" "vm_nodes m2 x = vm_nodes ?m1 x" "z \<noteq> x"
        "vm_nodes m2 z = Some zero_node"
        "freevmr_put x (m2\<lparr>vm_nodes := (vm_nodes m2)(z \<mapsto> zero_node\<lparr>vn_base := vn_base n, vn_size := sz\<rparr>,
          x \<mapsto> (the (vm_nodes ?m1 x))\<lparr>vn_base := vn_base n + sz, vn_size := vn_size n - sz\<rparr>)\<rparr>) = Some m5"
        "vm_shape m5 xs' ys zs''" "z \<notin> set (xs' @ ys @ zs'')" "rg m5 z = (b, unat sz)"
        "vm_nodes m5 z = Some k" "vn_base k = vn_base n"
        "map (rg m5) xs' = map (rg ?m) as @ (b + unat sz, unat (vn_size n) - unat sz) # map (rg ?m) bs"
        "map (rg m5) ys = us" "length xs' + Suc (length ys) + length zs'' = KHEAP_MAX_NODES"
        "vm_lock m5 = vm_lock ?m" "used_virtual_mmsz m5 = used_virtual_mmsz ?m" by blast
    have "map (rg m5) xs' = gs" "unat (used_virtual_mmsz m5) = total us"
      using s(12,16) x(6) False c(2) by (auto simp: vm_core_def)
    from alloc_finish [OF s(7) this(1) s(13,9) ar(2) this(2) s(14,2,8,10)] obtain m' where
      m': "usedvmr_put z (m5\<lparr>used_virtual_mmsz := used_virtual_mmsz m5 + sz\<rparr>) = Some m'"
        "vm_core m' xs' (ys @ [z]) zs'' gs (us @ [(b, unat sz)])" "vm_lock m' = vm_lock m5" by blast
    show ?thesis
    proof (rule fin [OF m'(1,2) _ s(10,2,11)])
      show "vm_lock m' = vm_lock ?m" using m'(3) s(15) by simp
      show "vmm_alloc cpu sz m = do {
       let m = m5\<lparr>used_virtual_mmsz := used_virtual_mmsz m5 + sz\<rparr>;
       n \<leftarrow> deref (vm_nodes m) z;
       m \<leftarrow> usedvmr_put z m;
       m \<leftarrow> vm_release cpu m;
       Some (vn_base n, m) }"
        using s(1-6) x(3) x0 x1 c(1) lt by (simp add: vmm_alloc_def vm_acquire_def vm_exec)
    qed
  qed
qed

lemma vmm_free_ok:
  assumes "vm_rep m fs (us1 @ (unat a, n) # us2)"
  shows "\<exists>m'. vmm_free cpu a m = Some m' \<and> vm_rep m' (put_region (unat a, n) fs) (us1 @ us2)"
proof -
  let ?us = "us1 @ (unat a, n) # us2"
  from assms obtain xs ys0 zs where c: "vm_lock m = spin_unlocked" "vm_core m xs ys0 zs fs ?us"
    by (auto simp: vm_rep_def)
  let ?m = "m\<lparr>vm_lock := \<lparr>sl_lock = 1, sl_cpu = cpu\<rparr>\<rparr>"
  have ar: "arena fs ?us" and cnt: "unat (used_virtual_mmsz m) = total ?us" using c(2) by (auto simp: vm_core_def)
  from c(2) obtain as x bs where x: "ys0 = as @ x # bs" "us1 = map (rg m) as" "(unat a, n) = rg m x" "us2 = map (rg m) bs"
    by (auto simp: vm_core_def map_eq_append_conv map_eq_Cons_conv)
  have sh: "vm_shape ?m xs (as @ x # bs) zs" using c(2) x(1) by (auto simp: vm_core_def)
  have v: "vlist (vm_nodes m) (as @ x # bs)" using sh by (auto simp: vm_shape_def used_ok_def)
  from vlist_live [OF v, of x] obtain k where k: "vm_nodes ?m x = Some k" "x \<noteq> NULL" by auto
  have ka: "vn_base k = a" "n = unat (vn_size k)" using x(3) k by (simp_all add: rg_def word_unat_eq_iff)
  have rok: "region_ok (unat a, n)" using ar by (auto simp: arena_def)
  then have a0: "a \<noteq> 0" by (auto simp: region_ok_def)
  have "\<forall>y \<in> set as. vn_base (the (vm_nodes ?m y)) \<noteq> vn_base k"
  proof
    fix y assume "y \<in> set as"
    then have "apart (rg m y) (unat a, n)" "region_ok (rg m y)" using ar x(2) by (auto simp: arena_def sorted_wrt_append)
    then have "fst (rg m y) \<noteq> unat a" using rok by (auto simp: apart_def region_ok_def rend_def)
    then show "vn_base (the (vm_nodes ?m y)) \<noteq> vn_base k" using ka by (auto simp: rg_def)
  qed
  from usedvmr_lookup_ok [OF sh k(1) _ this] ka a0 obtain m1 where
    m1: "usedvmr_lookup a ?m = Some (x, m1)" "vm_shape m1 xs (as @ bs) zs"
      "map (rg m1) (as @ x # bs) = map (rg m) (as @ x # bs)" "vm_keep (set (as @ x # bs)) ?m m1" "vm_nodes m1 x \<noteq> None"
    by auto
  from m1(5) obtain k1 where k1: "vm_nodes m1 x = Some k1" by blast
  let ?m2 = "m1\<lparr>used_virtual_mmsz := used_virtual_mmsz m1 - vn_size k1\<rparr>"
  have d: "x \<notin> set (xs @ (as @ bs) @ zs)" "set (as @ x # bs) \<inter> set xs = {}" "distinct xs" "distinct zs"
    "set xs \<inter> set zs = {}" using sh by (auto simp: vm_shape_def)
  have r1: "rg m1 x = (unat a, n)" "map (rg m1) xs = fs"
    using m1(3) x(3) vm_keep_map [OF m1(4) d(2)] c(2) by (auto simp: vm_core_def)
  have ok: "\<forall>y \<in> set xs. region_ok (rg ?m2 y)" using ar r1(2) by (auto simp: arena_def)
  from freevmr_put_ok [of ?m2 xs "as @ bs" zs x k1] m1(2) ok k1 k(2) d(1) rok r1 obtain m' where
    m': "freevmr_put x ?m2 = Some m'" "put_spec ?m2 xs (as @ bs) zs x (put_region (unat a, n) fs) m'" by auto
  from m'(2) obtain xs' zs' where s: "vm_shape m' xs' (as @ bs) zs'" "map (rg m') xs' = put_region (unat a, n) fs"
    "vm_keep (insert x (set xs \<union> set zs)) ?m2 m'" "set xs' \<union> set zs' = insert x (set xs \<union> set zs)"
    unfolding put_spec_def by auto
  have "distinct (xs' @ zs')" using s(1) by (auto simp: vm_shape_def)
  then have "length xs' + length zs' = card (set xs' \<union> set zs')" using distinct_card [of "xs' @ zs'"] by simp
  also have "\<dots> = card (set (x # xs @ zs))" using s(4) by simp
  also have "\<dots> = Suc (length xs + length zs)" using d by (subst distinct_card) auto
  finally have len: "length xs' + length (as @ bs) + length zs' = KHEAP_MAX_NODES"
    using c(2) x(1) by (simp add: vm_core_def)
  have "set (as @ bs) \<inter> insert x (set xs \<union> set zs) = {}" using sh by (auto simp: vm_shape_def)
  then have "map (rg m') (as @ bs) = map (rg m1) (as @ bs)" using vm_keep_map [OF s(3), of "as @ bs"] by auto
  then have us: "map (rg m') (as @ bs) = us1 @ us2" using m1(3) x(2,4) by simp
  have "n = unat (vn_size k1)" using r1 k1 by (auto simp: rg_def)
  moreover have "used_virtual_mmsz m' = used_virtual_mmsz m - vn_size k1" "vm_lock m' = vm_lock ?m"
    using s(3) m1(4) by (auto simp: vm_keep_def)
  ultimately have "unat (used_virtual_mmsz m') = total (us1 @ us2)"
    using cnt by (simp add: unat_sub word_le_nat_alt)
  then have "vm_core m' xs' (as @ bs) zs' (put_region (unat a, n) fs) (us1 @ us2)"
    using s(1,2) us len arena_free [OF ar] by (simp add: vm_core_def)
  then have "vm_rep (m'\<lparr>vm_lock := spin_unlocked\<rparr>) (put_region (unat a, n) fs) (us1 @ us2)"
    by (auto simp: vm_rep_def)
  moreover have "vmm_free cpu a m = Some (m'\<lparr>vm_lock := spin_unlocked\<rparr>)"
    using a0 c(1) m1(1) k(2) k1 m'(1) \<open>vm_lock m' = vm_lock ?m\<close>
    by (simp add: vmm_free_def vm_acquire_def vm_release_def vm_exec)
  ultimately show ?thesis by blast
qed

section \<open>Initialisation\<close>

text \<open>The static variables of \<^verbatim>\<open>vmm.c\<close> before \<^verbatim>\<open>vmm_init\<close> runs.\<close>

definition vmm_static :: vmm where
  "vmm_static = \<lparr>vm_nodes = (\<lambda>_. None), usedvmr_head = NULL, usedvmr_tail = NULL, freevmr_head = NULL,
    freevmr_tail = NULL, freenodes_head = NULL, freenodes_tail = NULL, vm_lock = spin_unlocked, used_virtual_mmsz = 0\<rparr>"

lemma link_loop_nodes:
  "link_loop i n h p = (if i < p \<and> p \<le> i + n
    then Some (zero_node\<lparr>vn_prev := p - 1, vn_next := p + 1\<rparr>) else h p)"
  by (induction i n h rule: link_loop.induct) (auto simp: node_at_def simp del: fun_upd_apply simp: fun_upd_def)

lemma vseg_upt:
  assumes "\<And>p. a < p \<Longrightarrow> p \<le> a + n \<Longrightarrow>
    \<exists>k. h p = Some k \<and> vn_prev k = p - 1 \<and> vn_next k = (if p = a + n then NULL else p + 1)"
  shows "vseg h a [Suc a..<Suc (a + n)] NULL"
  using assms
proof (induction n arbitrary: a)
  case 0
  then show ?case by simp
next
  case (Suc n)
  from Suc.prems [of "Suc a"] obtain k where k: "h (Suc a) = Some k" "vn_prev k = a"
    "vn_next k = (if n = 0 then NULL else Suc (Suc a))" by auto
  have IH: "vseg h (Suc a) [Suc (Suc a)..<Suc (Suc a + n)] NULL"
    by (rule Suc.IH) (use Suc.prems in auto)
  have "[Suc a..<Suc (a + Suc n)] = Suc a # [Suc (Suc a)..<Suc (Suc a + n)]" by (simp add: upt_conv_Cons)
  moreover have "fst_or NULL [Suc (Suc a)..<Suc (Suc a + n)] = (if n = 0 then NULL else Suc (Suc a))"
    by (cases n) (simp_all add: upt_conv_Cons del: upt_Suc)
  ultimately show ?case using IH k by simp
qed

lemma nodes_listed:
  assumes "1 < N" and "m0 = vmm_static\<lparr>vm_nodes := h\<rparr>"
    and "h = (link_loop 0 (N - 1) (\<lambda>p. if p \<in> node_at ` {..<N} then Some zero_node else None))
      (1 \<mapsto> zero_node\<lparr>vn_prev := NULL, vn_next := 2\<rparr>, N \<mapsto> zero_node\<lparr>vn_next := NULL, vn_prev := N - 1\<rparr>)"
  shows "vm_shape (m0\<lparr>freenodes_head := 1, freenodes_tail := N\<rparr>) [] [] [1..<Suc N]"
proof -
  have "\<exists>k. h p = Some k \<and> vn_prev k = p - 1 \<and> vn_next k = (if p = 0 + N then NULL else p + 1)"
    if "0 < p" "p \<le> 0 + N" for p
    using that assms(1) unfolding assms(3) by (auto simp: link_loop_nodes)
  then have "vseg h 0 [Suc 0..<Suc (0 + N)] NULL" by (rule vseg_upt)
  then have "\<exists>p. vseg h p [1..<Suc N] NULL" by auto
  moreover have "fst_or NULL [1..<Suc N] = 1" "lst_or NULL [1..<Suc N] = N" using assms(1) by (simp add: upt_conv_Cons del: upt_Suc, simp)
  ultimately show ?thesis
    unfolding vm_shape_def spare_ok_def assms(2) by (simp add: free_ok_def used_ok_def vmm_static_def)
qed

lemma vmm_init_nodes:
  assumes N: "N = KHEAP_MAX_NODES" and m0: "m0 = vmm_static\<lparr>vm_nodes := (link_loop 0 (N - 1)
      (\<lambda>p. if p \<in> node_at ` {..<N} then Some zero_node else None))
      (1 \<mapsto> zero_node\<lparr>vn_prev := NULL, vn_next := 2\<rparr>, N \<mapsto> zero_node\<lparr>vn_next := NULL, vn_prev := N - 1\<rparr>)\<rparr>"
  shows "vmm_init vmm_static = do {
     (node, m) \<leftarrow> freenodes_get (m0\<lparr>freenodes_head := 1, freenodes_tail := N\<rparr>);
     m \<leftarrow> set_node node (\<lambda>_. zero_node\<lparr>vn_base := KHEAPBASE, vn_size := KHEAPSZ\<rparr>) m;
     m \<leftarrow> freevmr_put node m;
     Some (0, m)
   }"
proof -
  define h where "h = link_loop 0 (N - 1) (\<lambda>p. if p \<in> node_at ` {..<N} then Some zero_node else None)"
  have N1: "1 < N" using N by (simp add: KHEAP_MAX_NODES_def)
  then have h1: "h (Suc 0) = Some (zero_node\<lparr>vn_prev := NULL, vn_next := 2\<rparr>)"
    by (simp add: h_def link_loop_nodes)
  have "N \<in> node_at ` {..<N}" using N1 by (intro image_eqI [of _ _ "N - 1"]) (auto simp: node_at_def)
  then have hN: "h N = Some zero_node" using N1 by (simp add: h_def link_loop_nodes)
  have at: "node_at 0 = Suc 0" "node_at (N - Suc 0) = N" "node_at (N - Suc (Suc 0)) = N - Suc 0"
    using N1 by (simp_all add: node_at_def)
  show ?thesis
    unfolding vmm_init_def m0 N [symmetric] Let_def
    unfolding h_def [symmetric] using N1 h1 hN by (simp add: vm_exec at)
qed

lemma arena_whole: "arena [(0xC8000000, 0x36000000)] []"
  by (simp add: arena_def region_ok_def rend_def)

lemma vmm_init_ok: "\<exists>m. vmm_init vmm_static = Some (0, m) \<and> vm_rep m [(0xC8000000, 0x36000000)] []"
proof -
  define m0 where "m0 = vmm_static\<lparr>vm_nodes := (link_loop 0 (KHEAP_MAX_NODES - 1)
      (\<lambda>p. if p \<in> node_at ` {..<KHEAP_MAX_NODES} then Some zero_node else None))
      (1 \<mapsto> zero_node\<lparr>vn_prev := NULL, vn_next := 2\<rparr>,
       KHEAP_MAX_NODES \<mapsto> zero_node\<lparr>vn_next := NULL, vn_prev := KHEAP_MAX_NODES - 1\<rparr>)\<rparr>"
  have N1: "1 < KHEAP_MAX_NODES" by (simp add: KHEAP_MAX_NODES_def)
  let ?m1 = "m0\<lparr>freenodes_head := 1, freenodes_tail := KHEAP_MAX_NODES\<rparr>"
  have "vm_shape ?m1 [] [] [1..<Suc KHEAP_MAX_NODES]" by (rule nodes_listed [OF N1 m0_def refl])
  then have "vm_shape ?m1 [] [] (1 # [2..<Suc KHEAP_MAX_NODES])" using N1 by (simp add: upt_conv_Cons numeral_2_eq_2 del: upt_Suc)
  from freenodes_get_ok [OF this] obtain m2 where
    m2: "freenodes_get ?m1 = Some (1, m2)" "vm_shape m2 [] [] [2..<Suc KHEAP_MAX_NODES]" "vm_keep {1} ?m1 m2"
      "vm_nodes m2 1 = Some zero_node" by blast
  let ?n = "zero_node\<lparr>vn_base := KHEAPBASE, vn_size := KHEAPSZ\<rparr>"
  let ?m3 = "m2\<lparr>vm_nodes := (vm_nodes m2)(1 \<mapsto> ?n)\<rparr>"
  have fresh: "(1 :: ptr) \<notin> set ([] @ [] @ [2..<Suc KHEAP_MAX_NODES])" by simp
  have rg1: "rg ?m3 1 = (0xC8000000, 0x36000000)" by (simp add: rg_def)
  have "region_ok (rg ?m3 1)" using arena_whole unfolding rg1 arena_def by simp
  from freevmr_put_ok [of ?m3 "[]" "[]" "[2..<Suc KHEAP_MAX_NODES]" 1 ?n,
      OF vm_shape_upd_loose [OF m2(2) fresh] _ _ _ fresh this] have
    "\<exists>m'. freevmr_put 1 ?m3 = Some m' \<and>
      put_spec ?m3 [] [] [2..<Suc KHEAP_MAX_NODES] 1 (put_region (rg ?m3 1) (map (rg ?m3) [])) m'" by simp
  then obtain m' where m': "freevmr_put 1 ?m3 = Some m'"
      "put_spec ?m3 [] [] [2..<Suc KHEAP_MAX_NODES] 1 (put_region (0xC8000000, 0x36000000) []) m'"
    unfolding rg1 list.map by blast
  from m'(2) obtain xs' zs' where s: "vm_shape m' xs' [] zs'" "map (rg m') xs' = [(0xC8000000, 0x36000000)]"
    "vm_keep (insert 1 (set [2..<Suc KHEAP_MAX_NODES])) ?m3 m'"
    "set xs' \<union> set zs' = insert 1 (set [2..<Suc KHEAP_MAX_NODES])"
    unfolding put_spec_def by (auto simp: put_region_def put_between_def)
  have "distinct (xs' @ zs')" using s(1) by (auto simp: vm_shape_def)
  then have "length xs' + length zs' = card (set xs' \<union> set zs')" using distinct_card [of "xs' @ zs'"] by simp
  also have "\<dots> = KHEAP_MAX_NODES" using s(4) N1 by simp
  finally have "length xs' + length zs' = KHEAP_MAX_NODES" .
  moreover have "used_virtual_mmsz m' = 0" "vm_lock m' = spin_unlocked"
    using s(3) m2(3) by (auto simp: vm_keep_def m0_def vmm_static_def)
  ultimately have "vm_rep m' [(0xC8000000, 0x36000000)] []"
    using s(1,2) arena_whole unfolding vm_rep_def vm_core_def by (intro conjI exI [of _ xs'] exI [of _ "[]"] exI [of _ zs']) simp_all
  moreover have "vmm_init vmm_static = Some (0, m')"
    unfolding vmm_init_nodes [OF refl m0_def] using m2(1,4) m'(1) by (simp add: vm_exec)
  ultimately show ?thesis by blast
qed

section \<open>Clients\<close>

text \<open>A free heap is one region: freed regions are always merged.\<close>

lemma sorted_gap_total:
  "sorted_wrt gap (r # fs) \<Longrightarrow> \<forall>q \<in> set (r # fs). rend q \<le> e \<Longrightarrow> fst r + total (r # fs) + length fs \<le> e"
proof (induction fs arbitrary: r)
  case Nil
  then show ?case by (simp add: rend_def)
next
  case (Cons q fs)
  then have "fst q + total (q # fs) + length fs \<le> e" "gap r q" by simp_all
  then show ?case by (simp add: gap_def rend_def)
qed

lemma arena_all_free:
  assumes "arena fs []"
  shows "fs = [(ARENA_BASE, ARENA_END - ARENA_BASE)]"
proof -
  have "total fs = ARENA_END - ARENA_BASE" using assms by (simp add: arena_def)
  then obtain r gs where f: "fs = r # gs" by (cases fs) auto
  have "fst r + total fs + length gs \<le> ARENA_END" "ARENA_BASE \<le> fst r"
    using sorted_gap_total [of r gs ARENA_END] assms f by (auto simp: arena_def region_ok_def)
  then have "length gs = 0" "fst r = ARENA_BASE" unfolding \<open>total fs = _\<close> by linarith+
  with f \<open>total fs = _\<close> show ?thesis by (cases r) simp
qed

text \<open>Allocation and freeing of what was allocated restore the regions.\<close>

lemma first_fit_put:
  assumes "arena fs us" and "first_fit n fs = Some (b, gs)" and "0 < n"
  shows "put_region (b, n) gs = fs"
proof -
  from first_fit_Some [OF assms(2)] obtain as t bs where f: "fs = as @ (b, t) # bs" "n \<le> t"
    "gs = as @ (if t = n then bs else (b + n, t - n) # bs)" by blast
  have srt: "sorted_wrt gap (as @ (b, t) # bs)" and pos: "\<forall>q \<in> set (as @ bs). 0 < snd q"
    using assms(1) f(1) by (auto simp: arena_def region_ok_def)
  show ?thesis
  proof (cases "t = n")
    case True
    have "put_region (b + 0, n - 0) (as @ bs) = as @ (b + 0, n - 0) # bs"
      using srt pos assms(3) True by (intro put_region_front) simp_all
    with True f show ?thesis by simp
  next
    case False
    have a: "\<forall>q \<in> set as. fst q < b" using srt by (auto simp: sorted_wrt_append gap_def rend_def)
    have "takeWhile (\<lambda>q. fst q < b) gs = as" "dropWhile (\<lambda>q. fst q < b) gs = (b + n, t - n) # bs"
      using a False f(3) by (auto simp: takeWhile_append dropWhile_append)
    moreover have "as = [] \<or> rend (last as) \<noteq> b"
      using srt by (cases as rule: rev_cases) (auto simp: sorted_wrt_append gap_def rend_def)
    ultimately show ?thesis using f(1,2) by (auto simp: put_region_def put_between_def rend_def)
  qed
qed

text \<open>A client allocates and frees: \<open>VFree i\<close> frees the \<open>i\<close>-th of the regions it holds.\<close>

datatype vm_op = VAlloc u32 | VFree nat

fun vm_run :: "ptr \<Rightarrow> vm_op list \<Rightarrow> (u32 \<times> u32) list \<Rightarrow> vmm \<Rightarrow> ((u32 \<times> u32) list \<times> vmm) option" where
  "vm_run cpu [] live m = Some (live, m)"
| "vm_run cpu (VAlloc sz # ops) live m = do {
     (a, m) \<leftarrow> vmm_alloc cpu sz m;
     vm_run cpu ops (if a = 0 then live else live @ [(a, sz)]) m
   }"
| "vm_run cpu (VFree i # ops) live m =
    (if i < length live then do {
       m \<leftarrow> vmm_free cpu (fst (live ! i)) m;
       vm_run cpu ops (take i live @ drop (Suc i) live) m
     }
     else vm_run cpu ops live m)"

fun vm_op_ok :: "vm_op \<Rightarrow> bool" where
  "vm_op_ok (VAlloc sz) = (sz \<noteq> 0 \<and> sz AND 0xFFF = 0)"
| "vm_op_ok (VFree i) = True"

abbreviation nat_regions :: "(u32 \<times> u32) list \<Rightarrow> region list" where
  "nat_regions \<equiv> map (map_prod unat unat)"

lemma vm_rep_arena: "vm_rep m fs us \<Longrightarrow> arena fs us"
  by (auto simp: vm_rep_def vm_core_def)

lemma vm_run_rep:
  "vm_rep m fs (nat_regions live) \<Longrightarrow> list_all vm_op_ok ops \<Longrightarrow>
    \<exists>live' m' fs'. vm_run cpu ops live m = Some (live', m') \<and> vm_rep m' fs' (nat_regions live')"
proof (induction cpu ops live m arbitrary: fs rule: vm_run.induct)
  case (1 cpu live m)
  then show ?case by auto
next
  case (2 cpu sz ops live m)
  have sz: "sz \<noteq> 0" "sz AND 0xFFF = 0" and ops: "list_all vm_op_ok ops" using 2(3) by auto
  show ?case
  proof (cases "first_fit (unat sz) fs")
    case None
    then have a: "vmm_alloc cpu sz m = Some (0, m)" by (rule vmm_alloc_none [OF 2(2) sz])
    from 2(1) [OF a refl, of fs] 2(2) ops a show ?thesis by simp
  next
    case (Some p)
    then obtain b gs where "first_fit (unat sz) fs = Some (b, gs)" by (cases p) auto
    from vmm_alloc_some [OF 2(2) sz this, of cpu] obtain a m' where a: "vmm_alloc cpu sz m = Some (a, m')"
      "unat a = b" "vm_rep m' gs (nat_regions live @ [(b, unat sz)])" by blast
    then have "region_ok (b, unat sz)" using vm_rep_arena by (fastforce simp: arena_def)
    then have "a \<noteq> 0" using a(2) by (auto simp: region_ok_def)
    with 2(1) [OF a(1) refl, of gs] a ops show ?thesis by simp
  qed
next
  case (3 cpu i ops live m)
  show ?case
  proof (cases "i < length live")
    case True
    then have "live = take i live @ live ! i # drop (Suc i) live" by (rule id_take_nth_drop)
    then have "nat_regions live = nat_regions (take i live) @ map_prod unat unat (live ! i) # nat_regions (drop (Suc i) live)"
      by (metis list.simps(9) map_append)
    moreover have "map_prod unat unat (live ! i) = (unat (fst (live ! i)), unat (snd (live ! i)))"
      by (cases "live ! i") simp
    ultimately have "vm_rep m fs (nat_regions (take i live) @
        (unat (fst (live ! i)), unat (snd (live ! i))) # nat_regions (drop (Suc i) live))"
      using 3(3) by (simp only:)
    from vmm_free_ok [OF this, of cpu] obtain m' gs where m': "vmm_free cpu (fst (live ! i)) m = Some m'"
      "vm_rep m' gs (nat_regions (take i live @ drop (Suc i) live))" by auto
    from 3(1) [OF True m'(1) m'(2)] 3(4) True m'(1) show ?thesis by simp
  next
    case False
    with 3(2) [OF False 3(3)] 3(4) show ?thesis by simp
  qed
qed


section \<open>Properties\<close>

text \<open>C4. From boot on, a client that asks for page multiples and frees what it holds, in any order, never
  makes the allocator panic: no assert fails, no list is broken, the array of nodes is never exhausted.
  The regions it holds are inside the kernel heap and pairwise disjoint at every moment.\<close>

theorem vmm_clients_safe:
  assumes "list_all vm_op_ok ops"
  shows "\<exists>m live m'. vmm_init vmm_static = Some (0, m) \<and> vm_run cpu ops [] m = Some (live, m') \<and>
    list_all (\<lambda>r. KHEAPBASE \<le> fst r \<and> unat (fst r) + unat (snd r) \<le> ARENA_END) live \<and>
    sorted_wrt (\<lambda>r q. unat (fst r) + unat (snd r) \<le> unat (fst q) \<or> unat (fst q) + unat (snd q) \<le> unat (fst r)) live"
proof -
  from vmm_init_ok obtain m where m: "vmm_init vmm_static = Some (0, m)"
    "vm_rep m [(0xC8000000, 0x36000000)] (nat_regions [])" by auto
  from vm_run_rep [OF m(2) assms, of cpu] obtain live m' fs' where r: "vm_run cpu ops [] m = Some (live, m')"
    "vm_rep m' fs' (nat_regions live)" by blast
  have ar: "arena fs' (nat_regions live)" using vm_rep_arena [OF r(2)] .
  have "\<forall>r \<in> set live. KHEAPBASE \<le> fst r \<and> unat (fst r) + unat (snd r) \<le> ARENA_END"
  proof
    fix r assume "r \<in> set live"
    then have "region_ok (map_prod unat unat r)" using ar by (simp add: arena_def)
    then show "KHEAPBASE \<le> fst r \<and> unat (fst r) + unat (snd r) \<le> ARENA_END"
      by (simp add: region_ok_def rend_def word_le_nat_alt)
  qed
  moreover have "sorted_wrt (\<lambda>r q. apart (map_prod unat unat r) (map_prod unat unat q)) live"
    using ar by (simp add: arena_def sorted_wrt_map)
  then have "sorted_wrt (\<lambda>r q. unat (fst r) + unat (snd r) \<le> unat (fst q) \<or> unat (fst q) + unat (snd q) \<le> unat (fst r)) live"
    by (simp add: apart_def rend_def)
  ultimately show ?thesis using m(1) r(1) unfolding list_all_iff by blast
qed

theorem vmm_clients_safe_witness:
  "\<exists>m live m'. vmm_init vmm_static = Some (0, m) \<and>
    vm_run 1 [VAlloc 0x1000, VAlloc 0x3000, VFree 0, VAlloc 0x2000] [] m = Some (live, m') \<and>
    list_all (\<lambda>r. KHEAPBASE \<le> fst r \<and> unat (fst r) + unat (snd r) \<le> ARENA_END) live \<and>
    sorted_wrt (\<lambda>r q. unat (fst r) + unat (snd r) \<le> unat (fst q) \<or> unat (fst q) + unat (snd q) \<le> unat (fst r)) live"
  by (rule vmm_clients_safe) simp

text \<open>C14. \<^verbatim>\<open>vmm_alloc\<close> is first fit on the list of free regions: it returns the base of the first region
  that is large enough and takes it off the front, and it returns 0, with the state unchanged, exactly
  when no region is large enough.\<close>

theorem vmm_alloc_first_fit:
  assumes "vm_rep m fs us" and "sz \<noteq> 0" and "sz AND 0xFFF = 0"
  shows "case first_fit (unat sz) fs of
      None \<Rightarrow> vmm_alloc cpu sz m = Some (0, m)
    | Some (b, gs) \<Rightarrow> \<exists>m'. vmm_alloc cpu sz m = Some (word_of_nat b, m') \<and> vm_rep m' gs (us @ [(b, unat sz)])"
proof (cases "first_fit (unat sz) fs")
  case None
  then show ?thesis using vmm_alloc_none [OF assms] by simp
next
  case (Some p)
  then obtain b gs where "first_fit (unat sz) fs = Some (b, gs)" by (cases p) auto
  with vmm_alloc_some [OF assms this, of cpu] show ?thesis by auto
qed

theorem vmm_alloc_first_fit_witness:
  "\<exists>m m'. vm_rep m [(0xC8000000, 0x36000000)] [] \<and> vmm_alloc 1 0x2000 m = Some (0xC8000000, m') \<and>
    vm_rep m' [(0xC8002000, 0x35FFE000)] [(0xC8000000, 0x2000)]"
proof -
  from vmm_init_ok obtain m where m: "vm_rep m [(0xC8000000, 0x36000000)] []" by blast
  from vmm_alloc_first_fit [OF m, of "0x2000" 1] show ?thesis using m by auto
qed

text \<open>C30. Freeing what was just allocated restores the lists of free and of used regions, merged as
  they were.\<close>

theorem vmm_alloc_free:
  assumes "vm_rep m fs us" and "sz \<noteq> 0" and "sz AND 0xFFF = 0" and "vmm_alloc cpu sz m = Some (a, m1)" and "a \<noteq> 0"
  shows "\<exists>m2. vmm_free cpu a m1 = Some m2 \<and> vm_rep m2 fs us"
proof (cases "first_fit (unat sz) fs")
  case None
  then show ?thesis using vmm_alloc_none [OF assms(1-3), of cpu] assms(4,5) by simp
next
  case (Some p)
  then obtain b gs where f: "first_fit (unat sz) fs = Some (b, gs)" by (cases p) auto
  from vmm_alloc_some [OF assms(1-3) f, of cpu] assms(4) have a: "unat a = b" "vm_rep m1 gs (us @ [(b, unat sz)])"
    by auto
  have "put_region (b, unat sz) gs = fs"
    using first_fit_put [OF vm_rep_arena [OF assms(1)] f] assms(2) by (simp add: unat_gt_0)
  with vmm_free_ok [of m1 gs us a "unat sz" "[]" cpu] a show ?thesis by simp
qed

theorem vmm_alloc_free_witness:
  "\<exists>m m1 m2. vm_rep m [(0xC8000000, 0x36000000)] [] \<and> vmm_alloc 1 0x5000 m = Some (0xC8000000, m1) \<and>
    vmm_free 1 0xC8000000 m1 = Some m2 \<and> vm_rep m2 [(0xC8000000, 0x36000000)] []"
proof -
  from vmm_init_ok obtain m where m: "vm_rep m [(0xC8000000, 0x36000000)] []" by blast
  from vmm_alloc_some [OF m, of "0x5000" "0xC8000000" "[(0xC8005000, 0x35FFB000)]" 1] obtain a m1 where
    a: "vmm_alloc 1 0x5000 m = Some (a, m1)" "unat a = 0xC8000000" by auto
  then have "a = 0xC8000000" by (simp add: word_unat_eq_iff)
  with vmm_alloc_free [OF m _ _ a(1)] a(1) m show ?thesis by auto
qed

text \<open>C17. No fragmentation remains when everything is freed: after any run of a client at whose end it
  holds nothing, an allocation of the whole kernel heap succeeds.\<close>

theorem vmm_coalesces:
  assumes "list_all vm_op_ok ops" and "vmm_init vmm_static = Some (0, m)" and "vm_run cpu ops [] m = Some ([], m')"
  shows "\<exists>m2. vmm_alloc cpu KHEAPSZ m' = Some (KHEAPBASE, m2)"
proof -
  from vmm_init_ok assms(2) have m: "vm_rep m [(0xC8000000, 0x36000000)] (nat_regions [])" by auto
  from vm_run_rep [OF this assms(1), of cpu] assms(3) obtain fs where r: "vm_rep m' fs []" by auto
  have "fs = [(0xC8000000, 0x36000000)]" using arena_all_free [OF vm_rep_arena [OF r]] by simp
  with r vmm_alloc_some [of m' fs "[]" KHEAPSZ "0xC8000000" "[]" cpu] obtain a m2 where
    "vmm_alloc cpu KHEAPSZ m' = Some (a, m2)" "unat a = 0xC8000000" by auto
  then show ?thesis by (auto simp: word_unat_eq_iff)
qed

theorem vmm_coalesces_witness:
  "\<exists>m m1 m2. vmm_init vmm_static = Some (0, m) \<and> vm_run 1 [VAlloc 0x3000, VFree 0] [] m = Some ([], m1) \<and>
    vmm_alloc 1 KHEAPSZ m1 = Some (KHEAPBASE, m2)"
proof -
  from vmm_init_ok obtain m where m: "vmm_init vmm_static = Some (0, m)" "vm_rep m [(0xC8000000, 0x36000000)] []" by blast
  from vmm_alloc_some [OF m(2), of "0x3000" "0xC8000000" "[(0xC8003000, 0x35FFD000)]" 1] obtain a m1 where
    a: "vmm_alloc 1 0x3000 m = Some (a, m1)" "unat a = 0xC8000000"
      "vm_rep m1 [(0xC8003000, 0x35FFD000)] [(unat a, 0x3000)]" by auto
  from vmm_free_ok [of m1 "[(0xC8003000, 0x35FFD000)]" "[]" a "0x3000" "[]" 1] a(3) obtain m2 where
    "vmm_free 1 a m1 = Some m2" by auto
  with a have r: "vm_run 1 [VAlloc 0x3000, VFree 0] [] m = Some ([], m2)" by (auto split: if_splits)
  from vmm_coalesces [OF _ m(1) r] r m(1) show ?thesis by auto
qed

end
