(* ===== verification/Mmap.thy ===== *)
theory Mmap
  imports Linked_List Spinlock
begin

text \<open>
  Address spaces (\<^verbatim>\<open>kernel/mm/mmap/mmap.c\<close>, \<^verbatim>\<open>kernel/include/mm/mmap.h\<close>): a map is a list of regions in
  address order. The regions and the maps live in two heaps. The results of \<^verbatim>\<open>kmalloc\<close> are taken from
  the list \<open>a_kmalloc\<close>, so that a sequence of operations draws its allocations in order, and the calls
  that act on page tables and frames are recorded in \<open>a_log\<close>. An out parameter is a component of the
  result; the two functions that some caller passes a \<^verbatim>\<open>NULL\<close> out pointer take the flag \<open>out\<close>.
\<close>

section \<open>Data\<close>

abbreviation mmap_limit :: u32 where "mmap_limit \<equiv> 0xBFFFFFFF"
abbreviation PAGESIZE :: u32 where "PAGESIZE \<equiv> 0x1000"

abbreviation MMAP_USER :: u32 where "MMAP_USER \<equiv> 1"
abbreviation MAP_PRIVATE :: u32 where "MAP_PRIVATE \<equiv> 0x1"
abbreviation MAP_SHARED :: u32 where "MAP_SHARED \<equiv> 0x2"
abbreviation MAP_DONTEXPAND :: u32 where "MAP_DONTEXPAND \<equiv> 0x4"
abbreviation MAP_ZERO :: u32 where "MAP_ZERO \<equiv> 0x10"
abbreviation MAP_STACK :: u32 where "MAP_STACK \<equiv> 0x100"
abbreviation MAP_FIXED :: u32 where "MAP_FIXED \<equiv> 0x1000"
abbreviation PROT_READ :: u32 where "PROT_READ \<equiv> 1"
abbreviation PROT_WRITE :: u32 where "PROT_WRITE \<equiv> 2"
abbreviation PROT_EXEC :: u32 where "PROT_EXEC \<equiv> 4"
abbreviation VM_EXEC :: u32 where "VM_EXEC \<equiv> 1"
abbreviation VM_WRITE :: u32 where "VM_WRITE \<equiv> 2"
abbreviation VM_READ :: u32 where "VM_READ \<equiv> 4"
abbreviation VM_ZERO :: u32 where "VM_ZERO \<equiv> 8"
abbreviation VM_SHARED :: u32 where "VM_SHARED \<equiv> 0x10"
abbreviation VM_GROWSDOWN :: u32 where "VM_GROWSDOWN \<equiv> 0x100"
abbreviation VM_DONTEXPAND :: u32 where "VM_DONTEXPAND \<equiv> 0x200"
abbreviation VM_R :: u32 where "VM_R \<equiv> 1"
abbreviation VM_X :: u32 where "VM_X \<equiv> 1"
abbreviation VM_W :: u32 where "VM_W \<equiv> 2"
abbreviation VM_U :: u32 where "VM_U \<equiv> 4"

record vmr =
  v_refs :: int
  v_flags :: u32
  v_vflags :: u32
  v_priv :: ptr
  v_file :: ptr
  v_filesz :: u32
  v_file_pos :: u32
  v_mmap :: ptr
  v_vmops :: ptr
  v_paddr :: u32
  v_start :: u32
  v_end :: u32
  v_prev :: ptr
  v_next :: ptr

record mmap =
  mm_flags :: u32
  mm_refs :: int
  mm_priv :: ptr
  mm_arg :: ptr
  mm_env :: ptr
  mm_heap :: ptr
  mm_brk :: u32
  mm_pgdir :: u32
  mm_limit :: u32
  mm_guard_len :: u32
  mm_used_space :: u32
  vmr_head :: ptr
  vmr_tail :: ptr
  mm_lock :: spinlock

text \<open>The calls of the paging code and of the frame allocator, in order.\<close>

datatype pg_call =
    paging_unmap_mapped u32 u32
  | paging_proc_unmap u32
  | paging_lazycopy u32 u32
  | pmman_free u32

record amem =
  a_vmrs :: "vmr heap"
  a_maps :: "mmap heap"
  a_kmalloc :: "ptr list"
  a_log :: "pg_call list"

definition zero_vmr :: vmr where
  "zero_vmr = \<lparr>v_refs = 0, v_flags = 0, v_vflags = 0, v_priv = NULL, v_file = NULL, v_filesz = 0, v_file_pos = 0,
    v_mmap = NULL, v_vmops = NULL, v_paddr = 0, v_start = 0, v_end = 0, v_prev = NULL, v_next = NULL\<rparr>"

definition zero_mmap :: "spinlock \<Rightarrow> mmap" where
  "zero_mmap lk = \<lparr>mm_flags = 0, mm_refs = 0, mm_priv = NULL, mm_arg = NULL, mm_env = NULL, mm_heap = NULL,
    mm_brk = 0, mm_pgdir = 0, mm_limit = 0, mm_guard_len = 0, mm_used_space = 0, vmr_head = NULL, vmr_tail = NULL,
    mm_lock = lk\<rparr>"

definition has :: "u32 \<Rightarrow> u32 \<Rightarrow> bool" where
  "has flags b \<longleftrightarrow> flags AND b \<noteq> 0"

definition vmr_size :: "vmr \<Rightarrow> u32" where
  "vmr_size v = v_end v - v_start v + 1"

definition vmr_upper_bound :: "vmr \<Rightarrow> u32" where
  "vmr_upper_bound v = v_end v + 1"

definition vmr_lower_bound :: "vmr \<Rightarrow> u32" where
  "vmr_lower_bound v = v_start v - 1"

definition isaligned :: "u32 \<Rightarrow> bool" where
  "isaligned p \<longleftrightarrow> p AND 0xFFF = 0"

definition valid_addr :: "u32 \<Rightarrow> bool" where
  "valid_addr a \<longleftrightarrow> a \<le> mmap_limit"

definition set_vmr :: "ptr \<Rightarrow> (vmr \<Rightarrow> vmr) \<Rightarrow> amem \<Rightarrow> amem option" where
  "set_vmr p f m = do { h \<leftarrow> modify (a_vmrs m) p f; Some (m\<lparr>a_vmrs := h\<rparr>) }"

definition set_map :: "ptr \<Rightarrow> (mmap \<Rightarrow> mmap) \<Rightarrow> amem \<Rightarrow> amem option" where
  "set_map p f m = do { h \<leftarrow> modify (a_maps m) p f; Some (m\<lparr>a_maps := h\<rparr>) }"

definition take_kmalloc :: "amem \<Rightarrow> ptr \<times> amem" where
  "take_kmalloc m = (fst_or NULL (a_kmalloc m), m\<lparr>a_kmalloc := tl (a_kmalloc m)\<rparr>)"

definition logged :: "pg_call \<Rightarrow> amem \<Rightarrow> amem" where
  "logged c m = m\<lparr>a_log := a_log m @ [c]\<rparr>"


section \<open>Regions\<close>

definition vmr_alloc :: "amem \<Rightarrow> int \<times> ptr \<times> amem" where
  "vmr_alloc m =
    (let (r, m) = take_kmalloc m in
     if r = NULL then (- ENOMEM, NULL, m) else (0, r, m\<lparr>a_vmrs := (a_vmrs m)(r \<mapsto> zero_vmr)\<rparr>))"

definition vmr_free :: "ptr \<Rightarrow> amem \<Rightarrow> amem option" where
  "vmr_free r m =
    (if r = NULL then Some m
     else do {
       v \<leftarrow> deref (a_vmrs m) r;
       Some (if v_refs v \<le> 0 then m\<lparr>a_vmrs := (a_vmrs m)(r := None)\<rparr> else m)
     })"

definition vmr_can_split :: "ptr \<Rightarrow> u32 \<Rightarrow> amem \<Rightarrow> bool option" where
  "vmr_can_split r addr m =
    (if r = NULL then Some False
     else do { v \<leftarrow> deref (a_vmrs m) r; Some (v_start v < addr \<and> addr < v_end v) })"

definition vmr_copy :: "ptr \<Rightarrow> ptr \<Rightarrow> amem \<Rightarrow> (int \<times> amem) option" where
  "vmr_copy rdst rsrc m =
    (if rdst = NULL \<or> rsrc = NULL then Some (- EINVAL, m)
     else do {
       d \<leftarrow> deref (a_vmrs m) rdst;
       s \<leftarrow> deref (a_vmrs m) rsrc;
       if v_mmap d \<noteq> NULL \<and> v_mmap d = v_mmap s then Some (- EINVAL, m)
       else do {
         m \<leftarrow> set_vmr rdst (\<lambda>_. s\<lparr>v_refs := 0, v_mmap := NULL, v_priv := NULL, v_next := NULL, v_prev := NULL\<rparr>) m;
         Some (0, m)
       }
     })"

definition vmr_clone :: "ptr \<Rightarrow> amem \<Rightarrow> (int \<times> ptr \<times> amem) option" where
  "vmr_clone src m =
    (if src = NULL then Some (- EINVAL, NULL, m)
     else do {
       let (err, clone, m) = vmr_alloc m;
       if err \<noteq> 0 then Some (err, NULL, m)
       else do {
         (err, m) \<leftarrow> vmr_copy clone src m;
         if err \<noteq> 0 then do { m \<leftarrow> vmr_free clone m; Some (err, NULL, m) }
         else Some (0, clone, m)
       }
     })"


section \<open>Lookup\<close>

definition mmap_assert_locked :: "ptr \<Rightarrow> ptr \<Rightarrow> amem \<Rightarrow> mmap option" where
  "mmap_assert_locked cpu mp m = do {
     kassert (mp \<noteq> NULL);
     a \<leftarrow> deref (a_maps m) mp;
     spin_assert_lock cpu (mm_lock a);
     Some a
   }"

definition mmap_contains :: "ptr \<Rightarrow> ptr \<Rightarrow> ptr \<Rightarrow> amem \<Rightarrow> int option" where
  "mmap_contains cpu mp r m =
    (if mp = NULL \<or> r = NULL then Some (- EINVAL)
     else do {
       a \<leftarrow> mmap_assert_locked cpu mp m;
       x \<leftarrow> find_node v_next (a_vmrs m) (\<lambda>p _. p = r) (vmr_head a);
       Some (if x \<noteq> NULL then 1 else 0)
     })"

definition mmap_find :: "ptr \<Rightarrow> ptr \<Rightarrow> u32 \<Rightarrow> amem \<Rightarrow> ptr option" where
  "mmap_find cpu mp addr m =
    (if mp = NULL then Some NULL
     else do {
       a \<leftarrow> mmap_assert_locked cpu mp m;
       find_node v_next (a_vmrs m) (\<lambda>_ v. addr \<ge> v_start v \<and> addr \<le> v_end v) (vmr_head a)
     })"

definition mmap_find_exact :: "ptr \<Rightarrow> ptr \<Rightarrow> u32 \<Rightarrow> u32 \<Rightarrow> amem \<Rightarrow> ptr option" where
  "mmap_find_exact cpu mp start end m =
    (if mp = NULL then Some NULL
     else do {
       mmap_assert_locked cpu mp m;
       r \<leftarrow> mmap_find cpu mp start m;
       if r = NULL then Some NULL
       else do { v \<leftarrow> deref (a_vmrs m) r; Some (if start \<noteq> v_start v \<or> end \<noteq> v_end v then NULL else r) }
     })"

text \<open>The region found, and the next region or the previous one.\<close>

definition mmap_find_vmr_next :: "ptr \<Rightarrow> ptr \<Rightarrow> u32 \<Rightarrow> amem \<Rightarrow> (ptr \<times> ptr) option" where
  "mmap_find_vmr_next cpu mp addr m =
    (if mp = NULL then Some (NULL, NULL)
     else do {
       a \<leftarrow> mmap_assert_locked cpu mp m;
       r \<leftarrow> mmap_find cpu mp addr m;
       if r \<noteq> NULL then do { v \<leftarrow> deref (a_vmrs m) r; Some (r, v_next v) }
       else do {
         x \<leftarrow> find_node v_next (a_vmrs m) (\<lambda>_ v. addr < v_start v) (vmr_head a);
         Some (NULL, x)
       }
     })"

definition mmap_find_vmr_prev :: "ptr \<Rightarrow> ptr \<Rightarrow> u32 \<Rightarrow> amem \<Rightarrow> (ptr \<times> ptr) option" where
  "mmap_find_vmr_prev cpu mp addr m =
    (if mp = NULL then Some (NULL, NULL)
     else do {
       a \<leftarrow> mmap_assert_locked cpu mp m;
       r \<leftarrow> mmap_find cpu mp addr m;
       if r \<noteq> NULL then do { v \<leftarrow> deref (a_vmrs m) r; Some (r, v_prev v) }
       else do {
         x \<leftarrow> find_node v_prev (a_vmrs m) (\<lambda>_ v. v_end v < addr) (vmr_tail a);
         Some (NULL, x)
       }
     })"

definition mmap_find_vmr_overlap :: "ptr \<Rightarrow> ptr \<Rightarrow> u32 \<Rightarrow> u32 \<Rightarrow> amem \<Rightarrow> ptr option" where
  "mmap_find_vmr_overlap cpu mp start end m =
    (if mp = NULL then Some NULL
     else do {
       mmap_assert_locked cpu mp m;
       r \<leftarrow> mmap_find cpu mp start m;
       if r = NULL then Some NULL
       else do { v \<leftarrow> deref (a_vmrs m) r; Some (if end \<le> v_end v then r else NULL) }
     })"

definition mmap_holesize :: "ptr \<Rightarrow> ptr \<Rightarrow> u32 \<Rightarrow> amem \<Rightarrow> (int \<times> u32) option" where
  "mmap_holesize cpu mp addr m =
    (if mp = NULL then Some (- EINVAL, 0)
     else do {
       a \<leftarrow> mmap_assert_locked cpu mp m;
       if addr > mm_limit a then Some (- EINVAL, 0)
       else do {
         r \<leftarrow> mmap_find cpu mp addr m;
         if r \<noteq> NULL then Some (- EINVAL, 0)
         else do {
           (_, next) \<leftarrow> mmap_find_vmr_next cpu mp addr m;
           if next = NULL then Some (0, (mm_limit a + 1) - addr)
           else do { v \<leftarrow> deref (a_vmrs m) next; Some (0, v_start v - addr) }
         }
       }
     })"


section \<open>Mapping a region\<close>

text \<open>The loop that looks for an overlap, and the loop that looks for the place in the list.\<close>

partial_function (option) mapin_check :: "ptr \<Rightarrow> ptr \<Rightarrow> u32 \<Rightarrow> u32 \<Rightarrow> amem \<Rightarrow> int option" where
  "mapin_check cpu mp addr end m =
    (if addr \<le> end then do {
       x \<leftarrow> mmap_find cpu mp addr m;
       if x \<noteq> NULL then Some (- EEXIST)
       else do {
         (_, holesz) \<leftarrow> mmap_holesize cpu mp addr m;
         mapin_check cpu mp (addr + holesz) end m
       }
     }
     else Some 0)"

partial_function (option) mapin_scan :: "vmr heap \<Rightarrow> u32 \<Rightarrow> ptr \<Rightarrow> ptr \<Rightarrow> (ptr \<times> ptr) option" where
  "mapin_scan h start left right =
    (if right = NULL then Some (left, right)
     else do {
       v \<leftarrow> deref h right;
       if v_start v < start
       then mapin_scan h start (if vmr_upper_bound v \<le> start then right else left) (v_next v)
       else Some (left, right)
     })"

abbreviation incr_refs :: "vmr \<Rightarrow> vmr" where "incr_refs v \<equiv> v\<lparr>v_refs := v_refs v + 1\<rparr>"
abbreviation decr_refs :: "vmr \<Rightarrow> vmr" where "decr_refs v \<equiv> v\<lparr>v_refs := v_refs v - 1\<rparr>"

definition mapin_first :: "ptr \<Rightarrow> ptr \<Rightarrow> amem \<Rightarrow> amem option" where
  "mapin_first mp r m = do {
     m \<leftarrow> set_map mp (\<lambda>a. a\<lparr>vmr_head := r, vmr_tail := r\<rparr>) m;
     m \<leftarrow> set_vmr r incr_refs m;
     set_vmr r incr_refs m
   }"

definition mapin_left :: "ptr \<Rightarrow> ptr \<Rightarrow> ptr \<Rightarrow> amem \<Rightarrow> amem option" where
  "mapin_left mp r left m = do {
     m \<leftarrow> set_vmr r (\<lambda>v. v\<lparr>v_prev := left\<rparr>) m;
     l \<leftarrow> deref (a_vmrs m) left;
     m \<leftarrow> (if v_next l = NULL then set_vmr left incr_refs m else Some m);
     m \<leftarrow> set_vmr r (\<lambda>v. v\<lparr>v_next := v_next l\<rparr>) m;
     m \<leftarrow> (if v_next l \<noteq> NULL then do {
             m \<leftarrow> set_vmr (v_next l) (\<lambda>v. v\<lparr>v_prev := r\<rparr>) m;
             set_vmr r incr_refs m
           }
           else do {
             a \<leftarrow> deref (a_maps m) mp;
             m \<leftarrow> set_vmr (vmr_tail a) decr_refs m;
             m \<leftarrow> set_map mp (\<lambda>a. a\<lparr>vmr_tail := r\<rparr>) m;
             set_vmr r incr_refs m
           });
     m \<leftarrow> set_vmr left (\<lambda>v. v\<lparr>v_next := r\<rparr>) m;
     set_vmr r incr_refs m
   }"

definition mapin_right :: "ptr \<Rightarrow> ptr \<Rightarrow> ptr \<Rightarrow> amem \<Rightarrow> amem option" where
  "mapin_right mp r right m = do {
     m \<leftarrow> set_vmr r (\<lambda>v. v\<lparr>v_next := right\<rparr>) m;
     q \<leftarrow> deref (a_vmrs m) right;
     m \<leftarrow> (if v_prev q = NULL then set_vmr right incr_refs m else Some m);
     m \<leftarrow> set_vmr r (\<lambda>v. v\<lparr>v_prev := v_prev q\<rparr>) m;
     m \<leftarrow> (if v_prev q \<noteq> NULL then do {
             m \<leftarrow> set_vmr (v_prev q) (\<lambda>v. v\<lparr>v_next := r\<rparr>) m;
             set_vmr r incr_refs m
           }
           else do {
             a \<leftarrow> deref (a_maps m) mp;
             m \<leftarrow> set_vmr (vmr_head a) decr_refs m;
             m \<leftarrow> set_map mp (\<lambda>a. a\<lparr>vmr_head := r\<rparr>) m;
             set_vmr r incr_refs m
           });
     m \<leftarrow> set_vmr right (\<lambda>v. v\<lparr>v_prev := r\<rparr>) m;
     set_vmr r incr_refs m
   }"

definition mapin_link :: "ptr \<Rightarrow> ptr \<Rightarrow> amem \<Rightarrow> amem option" where
  "mapin_link mp r m = do {
     m \<leftarrow> set_vmr r (\<lambda>v. v\<lparr>v_next := NULL, v_prev := NULL\<rparr>) m;
     a \<leftarrow> deref (a_maps m) mp;
     v \<leftarrow> deref (a_vmrs m) r;
     if vmr_head a = NULL then mapin_first mp r m
     else do {
       (left, right) \<leftarrow> mapin_scan (a_vmrs m) (v_start v) NULL (vmr_head a);
       left \<leftarrow> (if left = NULL then Some NULL
               else do { l \<leftarrow> deref (a_vmrs m) left; Some (if v_start l > v_start v then NULL else left) });
       if left \<noteq> NULL then mapin_left mp r left m
       else if right \<noteq> NULL then mapin_right mp r right m
       else Some m
     }
   }"

definition mmap_mapin :: "ptr \<Rightarrow> ptr \<Rightarrow> ptr \<Rightarrow> amem \<Rightarrow> (int \<times> amem) option" where
  "mmap_mapin cpu mp r m =
    (if mp = NULL \<or> r = NULL then Some (- EINVAL, m)
     else do {
       a \<leftarrow> mmap_assert_locked cpu mp m;
       v \<leftarrow> deref (a_vmrs m) r;
       if vmr_size v = 0 then Some (- EINVAL, m)
       else if v_end v > mmap_limit then Some (- EINVAL, m)
       else do {
         c \<leftarrow> mmap_contains cpu mp r m;
         if c \<noteq> 0 then Some (- EEXIST, m)
         else do {
           e \<leftarrow> mapin_check cpu mp (v_start v) (v_end v) m;
           if e \<noteq> 0 then Some (e, m)
           else do {
             m \<leftarrow> mapin_link mp r m;
             m \<leftarrow> set_vmr r (\<lambda>v. v\<lparr>v_mmap := mp\<rparr>) m;
             v \<leftarrow> deref (a_vmrs m) r;
             m \<leftarrow> set_map mp (\<lambda>a. a\<lparr>mm_refs := mm_refs a + 1, mm_used_space := mm_used_space a + vmr_size v\<rparr>) m;
             Some (0, m)
           }
         }
       }
     })"


section \<open>Removal\<close>

definition remove_links :: "ptr \<Rightarrow> amem \<Rightarrow> amem option" where
  "remove_links r m = do {
     v \<leftarrow> deref (a_vmrs m) r;
     m \<leftarrow> (if v_prev v \<noteq> NULL then do {
             m \<leftarrow> set_vmr (v_prev v) (\<lambda>x. x\<lparr>v_next := v_next v\<rparr>) m;
             set_vmr r decr_refs m
           }
           else Some m);
     v \<leftarrow> deref (a_vmrs m) r;
     if v_next v \<noteq> NULL then do {
       m \<leftarrow> set_vmr (v_next v) (\<lambda>x. x\<lparr>v_prev := v_prev v\<rparr>) m;
       set_vmr r decr_refs m
     }
     else Some m
   }"

definition remove_head :: "ptr \<Rightarrow> ptr \<Rightarrow> amem \<Rightarrow> amem option" where
  "remove_head mp r m = do {
     a \<leftarrow> deref (a_maps m) mp;
     if vmr_head a = r then do {
       v \<leftarrow> deref (a_vmrs m) r;
       m \<leftarrow> set_map mp (\<lambda>a. a\<lparr>vmr_head := v_next v\<rparr>) m;
       if v_next v \<noteq> NULL then do {
         m \<leftarrow> set_vmr (v_next v) (\<lambda>x. x\<lparr>v_prev := NULL\<rparr>) m;
         x \<leftarrow> deref (a_vmrs m) (v_next v);
         if v_next x = NULL then set_vmr (v_next v) decr_refs m else Some m
       }
       else Some m
     }
     else Some m
   }"

definition remove_tail :: "ptr \<Rightarrow> ptr \<Rightarrow> amem \<Rightarrow> amem option" where
  "remove_tail mp r m = do {
     a \<leftarrow> deref (a_maps m) mp;
     if vmr_tail a = r then do {
       v \<leftarrow> deref (a_vmrs m) r;
       m \<leftarrow> set_map mp (\<lambda>a. a\<lparr>vmr_tail := v_prev v\<rparr>) m;
       if v_prev v \<noteq> NULL then do {
         m \<leftarrow> set_vmr (v_prev v) (\<lambda>x. x\<lparr>v_next := NULL\<rparr>) m;
         x \<leftarrow> deref (a_vmrs m) (v_prev v);
         if v_prev x = NULL then set_vmr (v_prev v) decr_refs m else Some m
       }
       else Some m
     }
     else Some m
   }"

definition mmap_remove :: "ptr \<Rightarrow> ptr \<Rightarrow> ptr \<Rightarrow> amem \<Rightarrow> (int \<times> amem) option" where
  "mmap_remove cpu mp r m =
    (if mp = NULL \<or> r = NULL then Some (- EINVAL, m)
     else do {
       mmap_assert_locked cpu mp m;
       c \<leftarrow> mmap_contains cpu mp r m;
       if c = 0 then Some (- ENOENT, m)
       else do {
         m \<leftarrow> remove_links r m;
         m \<leftarrow> remove_head mp r m;
         m \<leftarrow> remove_tail mp r m;
         m \<leftarrow> set_vmr r (\<lambda>v. v\<lparr>v_refs := v_refs v - 1, v_mmap := NULL\<rparr>) m;
         m \<leftarrow> set_map mp (\<lambda>a. a\<lparr>mm_refs := mm_refs a - 1\<rparr>) m;
         v \<leftarrow> deref (a_vmrs m) r;
         m \<leftarrow> vmr_free r (logged (paging_unmap_mapped (v_start v) (vmr_size v)) m);
         Some (0, m)
       }
     })"

definition vmr_split :: "ptr \<Rightarrow> ptr \<Rightarrow> u32 \<Rightarrow> bool \<Rightarrow> amem \<Rightarrow> (int \<times> ptr \<times> amem) option" where
  "vmr_split cpu r addr out m = do {
     c \<leftarrow> vmr_can_split r addr m;
     if r = NULL \<or> \<not> c then Some (- EINVAL, NULL, m)
     else do {
       kassert out;
       let (err, new, m) = vmr_alloc m;
       if err \<noteq> 0 then Some (err, NULL, m)
       else do {
         v \<leftarrow> deref (a_vmrs m) r;
         m \<leftarrow> set_vmr new (\<lambda>n. n\<lparr>v_end := v_end v, v_start := addr, v_file := v_file v, v_flags := v_flags v,
           v_vflags := v_vflags v,
           v_file_pos := (if v_file v \<noteq> NULL then v_file_pos n + (addr - v_start v) else v_file_pos n)\<rparr>) m;
         m \<leftarrow> set_vmr r (\<lambda>v. v\<lparr>v_end := addr - 1\<rparr>) m;
         (err, m) \<leftarrow> mmap_mapin cpu (v_mmap v) new m;
         if err \<noteq> 0 then do { m \<leftarrow> vmr_free new m; Some (err, NULL, m) }
         else Some (0, new, m)
       }
     }
   }"

partial_function (option) unmap_loop :: "ptr \<Rightarrow> ptr \<Rightarrow> u32 \<Rightarrow> u32 \<Rightarrow> amem \<Rightarrow> amem option" where
  "unmap_loop cpu mp start len m =
    (if len = 0 then Some m
     else do {
       let end = start + len - 1;
       r \<leftarrow> mmap_find_exact cpu mp start end m;
       if r \<noteq> NULL then do {
         (_, m) \<leftarrow> mmap_remove cpu mp r m;
         unmap_loop cpu mp (start + (end - start)) (len - (end - start)) m
       }
       else do {
         r \<leftarrow> mmap_find cpu mp start m;
         if r \<noteq> NULL then do {
           v \<leftarrow> deref (a_vmrs m) r;
           if v_start v = start then
             (if vmr_size v > len then do {
                m \<leftarrow> set_vmr r (\<lambda>v. v\<lparr>v_start := v_start v + len\<rparr>) m;
                unmap_loop cpu mp start 0 m
              }
              else if vmr_size v < len then do {
                (_, m) \<leftarrow> mmap_remove cpu mp r m;
                unmap_loop cpu mp (vmr_upper_bound v) (len - vmr_size v) m
              }
              else unmap_loop cpu mp start len m)
           else if v_end v = start then do {
             m \<leftarrow> set_vmr r (\<lambda>v. v\<lparr>v_end := v_end v - 1\<rparr>) m;
             unmap_loop cpu mp start len m
           }
           else do {
             (_, _, m) \<leftarrow> vmr_split cpu r start False m;
             unmap_loop cpu mp start len m
           }
         }
         else do {
           (_, holesz) \<leftarrow> mmap_holesize cpu mp start m;
           if holesz = 0 then Some m
           else do {
             let holesz = (if holesz > len then len else holesz);
             unmap_loop cpu mp (start + holesz) (len - holesz) m
           }
         }
       }
     })"

definition mmap_unmap :: "ptr \<Rightarrow> ptr \<Rightarrow> u32 \<Rightarrow> u32 \<Rightarrow> amem \<Rightarrow> (int \<times> amem) option" where
  "mmap_unmap cpu mp start len m =
    (if mp = NULL \<or> len = 0 then Some (- EINVAL, m)
     else do {
       mmap_assert_locked cpu mp m;
       if \<not> valid_addr (start + len - 1) then Some (- EINVAL, m)
       else do { m \<leftarrow> unmap_loop cpu mp start len m; Some (0, m) }
     })"

definition mmap_forced_mapin :: "ptr \<Rightarrow> ptr \<Rightarrow> ptr \<Rightarrow> amem \<Rightarrow> (int \<times> amem) option" where
  "mmap_forced_mapin cpu mp r m =
    (if mp = NULL \<or> r = NULL then Some (- EINVAL, m)
     else do {
       mmap_assert_locked cpu mp m;
       v \<leftarrow> deref (a_vmrs m) r;
       (err, m) \<leftarrow> mmap_unmap cpu mp (v_start v) (vmr_size v) m;
       if err \<noteq> 0 then Some (err, m) else mmap_mapin cpu mp r m
     })"


section \<open>Holes\<close>

text \<open>The searches for a hole of \<open>sz\<close> bytes, upwards and downwards, from the region \<open>tmp\<close> on.\<close>

partial_function (option) hole_up :: "ptr \<Rightarrow> ptr \<Rightarrow> u32 \<Rightarrow> amem \<Rightarrow> ptr \<Rightarrow> u32 option option" where
  "hole_up cpu mp sz m tmp =
    (if tmp = NULL then Some None
     else do {
       v \<leftarrow> deref (a_vmrs m) tmp;
       if v_next v \<noteq> NULL then do {
         n \<leftarrow> deref (a_vmrs m) (v_next v);
         if v_start n - vmr_upper_bound v \<ge> sz then Some (Some (vmr_upper_bound v))
         else hole_up cpu mp sz m (v_next v)
       }
       else do {
         (_, holesz) \<leftarrow> mmap_holesize cpu mp (vmr_upper_bound v) m;
         Some (if holesz \<ge> sz then Some (vmr_upper_bound v) else None)
       }
     })"

partial_function (option) hole_down :: "u32 \<Rightarrow> amem \<Rightarrow> ptr \<Rightarrow> u32 option option" where
  "hole_down sz m tmp =
    (if tmp = NULL then Some None
     else do {
       v \<leftarrow> deref (a_vmrs m) tmp;
       if v_prev v \<noteq> NULL then do {
         q \<leftarrow> deref (a_vmrs m) (v_prev v);
         if v_start v - vmr_upper_bound q \<ge> sz then Some (Some (v_start v - sz))
         else hole_down sz m (v_prev v)
       }
       else if vmr_lower_bound v > 0 \<and> v_start v \<ge> sz then Some (Some (v_start v - sz))
       else hole_down sz m (v_prev v)
     })"

definition mmap_find_hole :: "ptr \<Rightarrow> ptr \<Rightarrow> u32 \<Rightarrow> int \<Rightarrow> amem \<Rightarrow> (int \<times> u32) option" where
  "mmap_find_hole cpu mp sz whence m =
    (if mp = NULL \<or> sz = 0 then Some (- EINVAL, 0)
     else do {
       a \<leftarrow> mmap_assert_locked cpu mp m;
       if whence = 0 then do {
         (_, holesz) \<leftarrow> mmap_holesize cpu mp 0 m;
         if holesz \<ge> sz then Some (0, 0)
         else do {
           h \<leftarrow> hole_up cpu mp sz m (vmr_head a);
           Some (case h of Some addr \<Rightarrow> (0, addr) | None \<Rightarrow> (- ENOMEM, 0))
         }
       }
       else if whence = 1 then do {
         (_, holesz) \<leftarrow> mmap_holesize cpu mp ((mm_limit a + 1) - sz) m;
         if holesz \<ge> sz then Some (0, (mm_limit a + 1) - sz)
         else do {
           h \<leftarrow> hole_down sz m (vmr_tail a);
           Some (case h of Some addr \<Rightarrow> (0, addr) | None \<Rightarrow> (- ENOMEM, 0))
         }
       }
       else Some (- ENOMEM, 0)
     })"

text \<open>The two halves of \<^verbatim>\<open>mmap_find_holeat\<close> before it falls back to \<^verbatim>\<open>mmap_find_hole\<close>.\<close>

definition holeat_start :: "ptr \<Rightarrow> ptr \<Rightarrow> u32 \<Rightarrow> u32 \<Rightarrow> ptr \<Rightarrow> amem \<Rightarrow> u32 option option" where
  "holeat_start cpu mp addr sz near m = do {
     a \<leftarrow> deref (a_maps m) mp;
     (_, holesz) \<leftarrow> mmap_holesize cpu mp addr m;
     if holesz \<ge> sz then Some (Some addr)
     else do {
       let near = (if near \<noteq> NULL then near else vmr_head a);
       below \<leftarrow> (if near = NULL then Some None
                else do {
                  v \<leftarrow> deref (a_vmrs m) near;
                  if v_prev v = NULL then Some None
                  else do {
                    q \<leftarrow> deref (a_vmrs m) (v_prev v);
                    Some (if v_start v - vmr_upper_bound q \<ge> sz then Some (vmr_upper_bound q) else None)
                  }
                });
       case below of Some r \<Rightarrow> Some (Some r) | None \<Rightarrow> hole_up cpu mp sz m near
     }
   }"

definition holeat_end :: "ptr \<Rightarrow> ptr \<Rightarrow> u32 \<Rightarrow> ptr \<Rightarrow> amem \<Rightarrow> u32 option option" where
  "holeat_end cpu mp sz near m = do {
     a \<leftarrow> deref (a_maps m) mp;
     let near = (if near \<noteq> NULL then near else vmr_tail a);
     above \<leftarrow> (if near = NULL then do {
                (_, holesz) \<leftarrow> mmap_holesize cpu mp ((mm_limit a + 1) - sz) m;
                Some (if holesz \<ge> sz then Some ((mm_limit a + 1) - sz) else None)
              }
              else do {
                v \<leftarrow> deref (a_vmrs m) near;
                if v_next v \<noteq> NULL then do {
                  n \<leftarrow> deref (a_vmrs m) (v_next v);
                  Some (if v_start n - vmr_upper_bound v \<ge> sz then Some (v_start n - sz) else None)
                }
                else do {
                  (_, holesz) \<leftarrow> mmap_holesize cpu mp (vmr_upper_bound v) m;
                  Some (if holesz > sz then Some (vmr_upper_bound v + holesz - sz)
                        else if holesz = sz then Some (vmr_upper_bound v) else None)
                }
              });
     case above of Some r \<Rightarrow> Some (Some r) | None \<Rightarrow> hole_down sz m near
   }"

definition mmap_find_holeat :: "ptr \<Rightarrow> ptr \<Rightarrow> u32 \<Rightarrow> u32 \<Rightarrow> int \<Rightarrow> amem \<Rightarrow> (int \<times> u32) option" where
  "mmap_find_holeat cpu mp addr sz whence m =
    (if mp = NULL \<or> sz = 0 then Some (- EINVAL, 0)
     else do {
       mmap_assert_locked cpu mp m;
       near \<leftarrow> (if addr = 0 then Some NULL
               else if whence = 0 then map_option snd (mmap_find_vmr_next cpu mp addr m)
               else if whence = 1 then map_option snd (mmap_find_vmr_prev cpu mp addr m)
               else Some NULL);
       h \<leftarrow> (if whence = 0 then holeat_start cpu mp addr sz near m
             else if whence = 1 then holeat_end cpu mp sz near m
             else Some None);
       case h of Some r \<Rightarrow> Some (0, r) | None \<Rightarrow> mmap_find_hole cpu mp sz whence m
     })"


section \<open>Operations on an address space\<close>

definition region_flags :: "u32 \<Rightarrow> u32 \<Rightarrow> u32" where
  "region_flags prot flags =
    (if has prot PROT_EXEC then VM_EXEC else 0) OR (if has prot PROT_READ then VM_READ else 0) OR
    (if has prot PROT_WRITE then VM_WRITE else 0) OR (if has flags MAP_ZERO then VM_ZERO else 0) OR
    (if has flags MAP_SHARED then VM_SHARED else 0) OR (if has flags MAP_STACK then VM_GROWSDOWN else 0) OR
    (if has flags MAP_DONTEXPAND then VM_DONTEXPAND else 0)"

definition region_vflags :: "u32 \<Rightarrow> u32 \<Rightarrow> u32" where
  "region_vflags flags mmflags =
    (if has flags VM_READ then VM_R else 0) OR (if has flags VM_WRITE then VM_W else 0) OR
    (if has flags VM_EXEC then VM_X else 0) OR (if has mmflags MMAP_USER then VM_U else 0)"

definition map_args_error :: "u32 \<Rightarrow> u32 \<Rightarrow> u32 \<Rightarrow> u32 \<Rightarrow> int" where
  "map_args_error addr len prot flags =
    (if has flags MAP_FIXED \<and> \<not> isaligned addr then - EINVAL
     else if has flags MAP_FIXED \<and> \<not> valid_addr addr then - EINVAL
     else if has flags MAP_STACK \<and> (\<not> isaligned addr \<or> \<not> isaligned len) then - EINVAL
     else if has flags MAP_PRIVATE \<and> has flags MAP_SHARED \<or> \<not> has flags MAP_PRIVATE \<and> \<not> has flags MAP_SHARED
     then - EINVAL
     else if has flags MAP_STACK \<and> \<not> (has prot PROT_READ \<and> has prot PROT_WRITE) then - EINVAL
     else if has prot PROT_WRITE \<and> has prot PROT_EXEC then - EACCES
     else 0)"

definition mmap_map_region ::
    "ptr \<Rightarrow> ptr \<Rightarrow> u32 \<Rightarrow> u32 \<Rightarrow> u32 \<Rightarrow> u32 \<Rightarrow> bool \<Rightarrow> amem \<Rightarrow> (int \<times> ptr \<times> amem) option" where
  "mmap_map_region cpu mp addr len prot flags out m =
    (if mp = NULL \<or> \<not> has flags MAP_FIXED \<and> \<not> out \<or> len = 0 then Some (- EINVAL, NULL, m)
     else do {
       a \<leftarrow> mmap_assert_locked cpu mp m;
       let err = map_args_error addr len prot flags;
       if err \<noteq> 0 then Some (err, NULL, m)
       else do {
         let len = (if has flags MAP_STACK then len + mm_guard_len a else len);
         let whence = (if has flags MAP_STACK then 1 else 0);
         (err, addr) \<leftarrow> (if has flags MAP_FIXED then Some (0, addr)
                        else mmap_find_holeat cpu mp addr len whence m);
         if err \<noteq> 0 then Some (err, NULL, m)
         else do {
           let (err, r, m) = vmr_alloc m;
           if err \<noteq> 0 then Some (err, NULL, m)
           else do {
             m \<leftarrow> set_vmr r (\<lambda>v. v\<lparr>v_start := addr, v_end := addr + len - 1,
               v_flags := v_flags v OR region_flags prot flags,
               v_vflags := v_vflags v OR region_vflags (v_flags v OR region_flags prot flags) (mm_flags a)\<rparr>) m;
             (err, m) \<leftarrow> (if has flags MAP_FIXED then mmap_forced_mapin cpu mp r m else mmap_mapin cpu mp r m);
             if err \<noteq> 0 then do { m \<leftarrow> vmr_free r m; Some (err, NULL, m) }
             else Some (0, r, m)
           }
         }
       }
     })"

definition mmap_alloc_vmr :: "ptr \<Rightarrow> ptr \<Rightarrow> u32 \<Rightarrow> u32 \<Rightarrow> u32 \<Rightarrow> amem \<Rightarrow> (int \<times> ptr \<times> amem) option" where
  "mmap_alloc_vmr cpu mp sz prot flags m =
    (if mp = NULL then Some (- EINVAL, NULL, m)
     else do {
       mmap_assert_locked cpu mp m;
       if has flags MAP_FIXED then Some (- EINVAL, NULL, m)
       else mmap_map_region cpu mp 0 sz prot flags True m
     })"

definition mmap_alloc_stack :: "ptr \<Rightarrow> ptr \<Rightarrow> u32 \<Rightarrow> amem \<Rightarrow> (int \<times> ptr \<times> amem) option" where
  "mmap_alloc_stack cpu mp sz m =
    (if mp = NULL then Some (- EINVAL, NULL, m)
     else do {
       mmap_assert_locked cpu mp m;
       mmap_map_region cpu mp 0 sz (PROT_READ OR PROT_WRITE) (MAP_STACK OR MAP_PRIVATE) True m
     })"

text \<open>Sizes are of the signed type \<^verbatim>\<open>long\<close>; a sum that does not fit is undefined.\<close>

definition mmap_vmr_expand :: "ptr \<Rightarrow> ptr \<Rightarrow> ptr \<Rightarrow> int \<Rightarrow> amem \<Rightarrow> (int \<times> amem) option" where
  "mmap_vmr_expand cpu mp r incr m =
    (if mp = NULL \<or> r = NULL \<or> incr = 0 then Some (- EINVAL, m)
     else do {
       mmap_assert_locked cpu mp m;
       v \<leftarrow> deref (a_vmrs m) r;
       if has (v_flags v) VM_DONTEXPAND then Some (- EINVAL, m)
       else do {
         let oldsz = sint (vmr_size v);
         let newsz = oldsz + incr;
         kassert (- (2 ^ 31) \<le> newsz \<and> newsz < 2 ^ 31);
         if newsz > oldsz then do {
           let hole_addr = (if has (v_flags v) VM_GROWSDOWN then v_start v - word_of_int incr else vmr_upper_bound v);
           (err, holesz) \<leftarrow> mmap_holesize cpu mp hole_addr m;
           if err \<noteq> 0 then Some (err, m)
           else if holesz \<ge> word_of_int incr then do {
             m \<leftarrow> set_vmr r (\<lambda>v. if has (v_flags v) VM_GROWSDOWN then v\<lparr>v_start := hole_addr\<rparr>
                               else v\<lparr>v_end := v_start v + word_of_int newsz - 1\<rparr>) m;
             Some (0, m)
           }
           else Some (- ENOMEM, m)
         }
         else if newsz < 0 then Some (- EINVAL, m)
         else if newsz = 0 then mmap_remove cpu mp r m
         else do {
           m \<leftarrow> set_vmr r (\<lambda>v. if has (v_flags v) VM_GROWSDOWN then v\<lparr>v_start := v_start v + word_of_int (oldsz - newsz)\<rparr>
                             else v\<lparr>v_end := v_end v - word_of_int (oldsz - newsz)\<rparr>) m;
           Some (0, m)
         }
       }
     })"

text \<open>\<^verbatim>\<open>mmap_protect\<close>: the three ways to cut the region, then the new protection.\<close>

definition protect_front :: "ptr \<Rightarrow> ptr \<Rightarrow> ptr \<Rightarrow> ptr \<Rightarrow> u32 \<Rightarrow> amem \<Rightarrow> (int \<times> amem) option" where
  "protect_front cpu mp r split0 end m = do {
     m \<leftarrow> set_vmr r (\<lambda>v. v\<lparr>v_end := end\<rparr>) m;
     m \<leftarrow> set_vmr split0 (\<lambda>v. v\<lparr>v_start := end + 1\<rparr>) m;
     (err, m) \<leftarrow> mmap_mapin cpu mp split0 m;
     if err \<noteq> 0 then do {
       s \<leftarrow> deref (a_vmrs m) split0;
       m \<leftarrow> set_vmr r (\<lambda>v. v\<lparr>v_end := v_end s\<rparr>) m;
       m \<leftarrow> vmr_free split0 m;
       Some (err, m)
     }
     else Some (0, m)
   }"

definition protect_back :: "ptr \<Rightarrow> ptr \<Rightarrow> ptr \<Rightarrow> ptr \<Rightarrow> u32 \<Rightarrow> amem \<Rightarrow> (int \<times> amem) option" where
  "protect_back cpu mp r split0 addr m = do {
     m \<leftarrow> set_vmr r (\<lambda>v. v\<lparr>v_start := addr\<rparr>) m;
     m \<leftarrow> set_vmr split0 (\<lambda>v. v\<lparr>v_end := addr - 1\<rparr>) m;
     (err, m) \<leftarrow> mmap_mapin cpu mp split0 m;
     if err \<noteq> 0 then do {
       s \<leftarrow> deref (a_vmrs m) split0;
       m \<leftarrow> set_vmr r (\<lambda>v. v\<lparr>v_start := v_start s\<rparr>) m;
       m \<leftarrow> vmr_free split0 m;
       Some (err, m)
     }
     else Some (0, m)
   }"

definition protect_middle :: "ptr \<Rightarrow> ptr \<Rightarrow> ptr \<Rightarrow> ptr \<Rightarrow> vmr \<Rightarrow> u32 \<Rightarrow> u32 \<Rightarrow> amem \<Rightarrow> (int \<times> amem) option" where
  "protect_middle cpu mp r split0 tmp addr end m = do {
     let (err, split1, m) = vmr_alloc m;
     if err \<noteq> 0 then do { m \<leftarrow> vmr_free split0 m; Some (err, m) }
     else do {
       v \<leftarrow> deref (a_vmrs m) r;
       m \<leftarrow> set_vmr split1 (\<lambda>_. v) m;
       m \<leftarrow> set_vmr split0 (\<lambda>s. s\<lparr>v_refs := 0\<rparr>) m;
       m \<leftarrow> set_vmr split1 (\<lambda>s. s\<lparr>v_next := NULL, v_prev := NULL\<rparr>) m;
       m \<leftarrow> set_vmr r (\<lambda>v. v\<lparr>v_start := addr\<rparr>) m;
       m \<leftarrow> set_vmr split0 (\<lambda>s. s\<lparr>v_end := addr - 1\<rparr>) m;
       m \<leftarrow> set_vmr r (\<lambda>v. v\<lparr>v_end := end\<rparr>) m;
       m \<leftarrow> set_vmr split1 (\<lambda>s. s\<lparr>v_start := end + 1\<rparr>) m;
       (err, m) \<leftarrow> mmap_mapin cpu mp split0 m;
       if err \<noteq> 0 then do {
         m \<leftarrow> set_vmr r (\<lambda>_. tmp) m;
         m \<leftarrow> vmr_free split0 m;
         m \<leftarrow> vmr_free split1 m;
         Some (err, m)
       }
       else do {
         (err, m) \<leftarrow> mmap_mapin cpu mp split1 m;
         if err \<noteq> 0 then do {
           m \<leftarrow> set_vmr r (\<lambda>_. tmp) m;
           (_, m) \<leftarrow> mmap_remove cpu mp split0 m;
           m \<leftarrow> vmr_free split0 m;
           m \<leftarrow> vmr_free split1 m;
           Some (err, m)
         }
         else Some (0, m)
       }
     }
   }"

text \<open>The cut: all three ways, or none when the range is the whole region.\<close>

definition protect_cut :: "ptr \<Rightarrow> ptr \<Rightarrow> ptr \<Rightarrow> vmr \<Rightarrow> u32 \<Rightarrow> u32 \<Rightarrow> amem \<Rightarrow> (int \<times> amem) option" where
  "protect_cut cpu mp r v addr len m =
    (if len < vmr_size v then do {
       let (err, split0, m) = vmr_alloc m;
       if err \<noteq> 0 then Some (err, m)
       else do {
         m \<leftarrow> set_vmr split0 (\<lambda>_. v\<lparr>v_refs := 0, v_next := NULL, v_prev := NULL\<rparr>) m;
         if v_start v = addr then protect_front cpu mp r split0 (addr + len - 1) m
         else if v_end v = addr + len - 1 then protect_back cpu mp r split0 addr m
         else protect_middle cpu mp r split0 v addr (addr + len - 1) m
       }
     }
     else Some (0, m))"

definition region_prot :: "u32 \<Rightarrow> u32" where
  "region_prot flags = (if has flags VM_READ then PROT_READ else 0) OR (if has flags VM_WRITE then PROT_WRITE else 0) OR
    (if has flags VM_EXEC then PROT_EXEC else 0)"

definition reprotect :: "u32 \<Rightarrow> u32 \<Rightarrow> u32" where
  "reprotect prot flags =
    (flags AND NOT VM_EXEC AND NOT VM_WRITE AND NOT VM_READ) OR (if has prot PROT_READ then VM_READ else 0) OR
    (if has prot PROT_EXEC then VM_EXEC else 0) OR (if has prot PROT_WRITE then VM_WRITE else 0)"

definition mmap_protect :: "ptr \<Rightarrow> ptr \<Rightarrow> u32 \<Rightarrow> u32 \<Rightarrow> u32 \<Rightarrow> amem \<Rightarrow> (int \<times> amem) option" where
  "mmap_protect cpu mp addr len prot m =
    (let end = addr + len - 1 in
     if mp = NULL \<or> len = 0 then Some (- EINVAL, m)
     else do {
       mmap_assert_locked cpu mp m;
       if \<not> isaligned addr \<or> \<not> isaligned len then Some (- EINVAL, m)
       else if \<not> valid_addr addr then Some (- ENOMEM, m)
       else do {
         r \<leftarrow> mmap_find_vmr_overlap cpu mp addr end m;
         if r = NULL then Some (- ENOMEM, m)
         else do {
           v \<leftarrow> deref (a_vmrs m) r;
           let forge_prot = region_prot (v_flags v);
           if has (v_flags v) VM_GROWSDOWN then Some (- EACCES, m)
           else if forge_prot = prot then Some (0, m)
           else if has prot PROT_WRITE \<and> has prot PROT_EXEC then Some (- EACCES, m)
           else if has prot PROT_WRITE \<and> has forge_prot PROT_EXEC then Some (- EACCES, m)
           else if has prot PROT_EXEC \<and> has forge_prot PROT_WRITE then Some (- EACCES, m)
           else do {
             (err, m) \<leftarrow> protect_cut cpu mp r v addr len m;
             if err \<noteq> 0 then Some (err, m)
             else do {
               m \<leftarrow> set_vmr r (\<lambda>v. v\<lparr>v_flags := reprotect prot (v_flags v)\<rparr>) m;
               Some (0, m)
             }
           }
         }
       }
     })"

definition mmap_clean :: "ptr \<Rightarrow> ptr \<Rightarrow> amem \<Rightarrow> (int \<times> amem) option" where
  "mmap_clean cpu mp m =
    (if mp = NULL then Some (- EINVAL, m)
     else do {
       a \<leftarrow> mmap_assert_locked cpu mp m;
       (err, m) \<leftarrow> mmap_unmap cpu mp 0 (mm_limit a + 1) m;
       if err \<noteq> 0 then Some (err, m)
       else do {
         a \<leftarrow> deref (a_maps m) mp;
         m \<leftarrow> set_map mp (\<lambda>_. (zero_mmap (mm_lock a))\<lparr>mm_pgdir := mm_pgdir a, mm_flags := MMAP_USER,
           mm_guard_len := PAGESIZE, mm_limit := mmap_limit\<rparr>) (logged (paging_proc_unmap (mm_pgdir a)) m);
         Some (0, m)
       }
     })"

definition mmap_init :: "ptr \<Rightarrow> ptr \<Rightarrow> amem \<Rightarrow> (int \<times> amem) option" where
  "mmap_init cpu mp m =
    (if mp = NULL then Some (- EINVAL, m)
     else do {
       mmap_assert_locked cpu mp m;
       (err, m) \<leftarrow> mmap_clean cpu mp m;
       if err \<noteq> 0 then Some (err, m)
       else do {
         (err, _, m) \<leftarrow> mmap_map_region cpu mp 0 0x1000000 0 (MAP_FIXED OR MAP_PRIVATE OR MAP_DONTEXPAND) False m;
         Some (err, m)
       }
     })"

definition mmap_lock :: "ptr \<Rightarrow> ptr \<Rightarrow> amem \<Rightarrow> amem option" where
  "mmap_lock cpu mp m = do {
     kassert (mp \<noteq> NULL);
     a \<leftarrow> deref (a_maps m) mp;
     lk \<leftarrow> lk_acquire cpu (mm_lock a);
     set_map mp (\<lambda>a. a\<lparr>mm_lock := lk\<rparr>) m
   }"

definition mmap_unlock :: "ptr \<Rightarrow> ptr \<Rightarrow> amem \<Rightarrow> amem option" where
  "mmap_unlock cpu mp m = do {
     kassert (mp \<noteq> NULL);
     a \<leftarrow> deref (a_maps m) mp;
     lk \<leftarrow> lk_release cpu (mm_lock a);
     set_map mp (\<lambda>a. a\<lparr>mm_lock := lk\<rparr>) m
   }"

text \<open>\<open>lkerr\<close> and \<open>pgdir\<close> are the results of \<^verbatim>\<open>spinlock_init\<close> and of \<^verbatim>\<open>paging_getpgdir\<close>.\<close>

definition mmap_alloc :: "ptr \<Rightarrow> int \<Rightarrow> u32 \<Rightarrow> amem \<Rightarrow> (int \<times> ptr \<times> amem) option" where
  "mmap_alloc cpu lkerr pgdir m =
    (if lkerr \<noteq> 0 then Some (lkerr, NULL, m)
     else if pgdir = 0 then Some (- ENOMEM, NULL, m)
     else do {
       let (mp, m) = take_kmalloc m;
       if mp = NULL then Some (- ENOMEM, NULL, logged (pmman_free pgdir) m)
       else do {
         let m = m\<lparr>a_maps := (a_maps m)(mp \<mapsto> (zero_mmap spin_unlocked)\<lparr>mm_pgdir := pgdir, mm_flags := MMAP_USER,
           mm_guard_len := PAGESIZE, mm_limit := mmap_limit\<rparr>)\<rparr>;
         m \<leftarrow> mmap_lock cpu mp m;
         (_, m) \<leftarrow> mmap_init cpu mp m;
         m \<leftarrow> mmap_unlock cpu mp m;
         Some (0, mp, m)
       }
     })"

definition mmap_free :: "ptr \<Rightarrow> ptr \<Rightarrow> amem \<Rightarrow> amem option" where
  "mmap_free cpu mp m =
    (if mp = NULL then Some m
     else do {
       a \<leftarrow> deref (a_maps m) mp;
       let (locked, lk) = lk_try cpu (mm_lock a);
       m \<leftarrow> set_map mp (\<lambda>a. a\<lparr>mm_lock := lk\<rparr>) m;
       (_, m) \<leftarrow> mmap_clean cpu mp m;
       a \<leftarrow> deref (a_maps m) mp;
       let m = (if mm_refs a \<le> 0
                then (if mm_pgdir a \<noteq> 0 then logged (pmman_free (mm_pgdir a)) m else m)\<lparr>a_maps := (a_maps m)(mp := None)\<rparr>
                else m);
       if locked then mmap_unlock cpu mp m else Some m
     })"

partial_function (option) copy_loop :: "ptr \<Rightarrow> ptr \<Rightarrow> ptr \<Rightarrow> amem \<Rightarrow> (int \<times> amem) option" where
  "copy_loop cpu dst tmp m =
    (if tmp = NULL then Some (0, m)
     else do {
       (err, r, m) \<leftarrow> vmr_clone tmp m;
       if err \<noteq> 0 then Some (err, m)
       else do {
         (err, m) \<leftarrow> mmap_mapin cpu dst r m;
         if err \<noteq> 0 then do { m \<leftarrow> vmr_free r m; Some (err, m) }
         else do { t \<leftarrow> deref (a_vmrs m) tmp; copy_loop cpu dst (v_next t) m }
       }
     })"

text \<open>The region of \<open>dst\<close> at the place of a designated region of the source.\<close>

definition copy_region :: "ptr \<Rightarrow> ptr \<Rightarrow> ptr \<Rightarrow> amem \<Rightarrow> ptr option" where
  "copy_region cpu dst p m =
    (if p = NULL then Some NULL else do { v \<leftarrow> deref (a_vmrs m) p; mmap_find cpu dst (v_start v) m })"

definition mmap_copy :: "ptr \<Rightarrow> int \<Rightarrow> ptr \<Rightarrow> ptr \<Rightarrow> amem \<Rightarrow> (int \<times> amem) option" where
  "mmap_copy cpu lazyerr dst src m =
    (if dst = NULL \<or> src = NULL then Some (- EINVAL, m)
     else do {
       s \<leftarrow> mmap_assert_locked cpu src m;
       mmap_assert_locked cpu dst m;
       m \<leftarrow> set_map dst (\<lambda>d. d\<lparr>mm_flags := mm_flags s, mm_guard_len := mm_guard_len s, mm_limit := mm_limit s,
         mm_refs := 0, mm_priv := NULL, mm_used_space := 0, vmr_head := NULL, vmr_tail := NULL, mm_heap := NULL,
         mm_arg := NULL, mm_env := NULL\<rparr>) m;
       s \<leftarrow> deref (a_maps m) src;
       (err, m) \<leftarrow> copy_loop cpu dst (vmr_head s) m;
       if err \<noteq> 0 then Some (err, m)
       else do {
         s \<leftarrow> deref (a_maps m) src;
         arg \<leftarrow> copy_region cpu dst (mm_arg s) m;
         m \<leftarrow> set_map dst (\<lambda>d. d\<lparr>mm_arg := arg\<rparr>) m;
         env \<leftarrow> copy_region cpu dst (mm_env s) m;
         m \<leftarrow> set_map dst (\<lambda>d. d\<lparr>mm_env := env\<rparr>) m;
         heap \<leftarrow> copy_region cpu dst (mm_heap s) m;
         m \<leftarrow> set_map dst (\<lambda>d. d\<lparr>mm_heap := heap\<rparr>) m;
         d \<leftarrow> deref (a_maps m) dst;
         Some (lazyerr, logged (paging_lazycopy (mm_pgdir d) (mm_pgdir s)) m)
       }
     })"

definition mmap_clone :: "ptr \<Rightarrow> int \<Rightarrow> u32 \<Rightarrow> int \<Rightarrow> ptr \<Rightarrow> amem \<Rightarrow> (int \<times> ptr \<times> amem) option" where
  "mmap_clone cpu lkerr pgdir lazyerr mp m =
    (if mp = NULL then Some (- EINVAL, NULL, m)
     else do {
       mmap_assert_locked cpu mp m;
       (err, clone, m) \<leftarrow> mmap_alloc cpu lkerr pgdir m;
       if err \<noteq> 0 then Some (err, NULL, m)
       else do {
         m \<leftarrow> mmap_lock cpu clone m;
         (err, m) \<leftarrow> mmap_copy cpu lazyerr clone mp m;
         if err \<noteq> 0 then do { m \<leftarrow> mmap_free cpu clone m; Some (err, NULL, m) }
         else do { m \<leftarrow> mmap_unlock cpu clone m; Some (0, clone, m) }
       }
     })"

end
