(* ===== verification/Mmap_Space.thy ===== *)
theory Mmap_Space
  imports Mmap
begin

text \<open>
  Address spaces as partial functions from addresses to protection flags. The list of regions of a
  map is abstracted to its spans (start, end, flags), which are in address order and disjoint; \<open>space\<close>
  is the function they denote. The lookups and \<^verbatim>\<open>mmap_mapin\<close> are related
  to that function.
\<close>

section \<open>Spans\<close>

record span =
  sp_start :: u32
  sp_end :: u32
  sp_flags :: u32

definition inside :: "u32 \<Rightarrow> span \<Rightarrow> bool" where
  "inside a s \<longleftrightarrow> sp_start s \<le> a \<and> a \<le> sp_end s"

definition span_ok :: "span \<Rightarrow> bool" where
  "span_ok s \<longleftrightarrow> sp_start s \<le> sp_end s \<and> sp_end s \<le> mmap_limit"

definition before :: "span \<Rightarrow> span \<Rightarrow> bool" where
  "before s t \<longleftrightarrow> sp_end s < sp_start t"

definition spans_ok :: "span list \<Rightarrow> bool" where
  "spans_ok ss \<longleftrightarrow> (\<forall>s \<in> set ss. span_ok s) \<and> sorted_wrt before ss"

definition space :: "span list \<Rightarrow> u32 \<Rightarrow> u32 option" where
  "space ss a = map_option sp_flags (find (inside a) ss)"

lemma spans_ok_simps [simp]:
  "spans_ok []"
  "spans_ok (s # ss) \<longleftrightarrow> span_ok s \<and> (\<forall>t \<in> set ss. before s t) \<and> spans_ok ss"
  by (auto simp: spans_ok_def)

lemma spans_ok_append:
  "spans_ok (as @ bs) \<longleftrightarrow> spans_ok as \<and> spans_ok bs \<and> (\<forall>s \<in> set as. \<forall>t \<in> set bs. before s t)"
  by (auto simp: spans_ok_def sorted_wrt_append)

lemma spans_okD: "spans_ok ss \<Longrightarrow> s \<in> set ss \<Longrightarrow> span_ok s"
  by (simp add: spans_ok_def)

lemma before_disjoint: "before s t \<Longrightarrow> inside a s \<Longrightarrow> \<not> inside a t"
  by (auto simp: before_def inside_def)

lemma before_trans: "before s t \<Longrightarrow> span_ok t \<Longrightarrow> before t u \<Longrightarrow> before s u"
  by (auto simp: before_def span_ok_def)

lemma space_None: "space ss a = None \<longleftrightarrow> (\<forall>s \<in> set ss. \<not> inside a s)"
  by (auto simp: space_def find_None_iff)

lemma space_Nil [simp]: "space [] = Map.empty"
  by (rule ext) (simp add: space_def)

lemma space_insert:
  assumes "spans_ok (as @ s # bs)"
  shows "space (as @ s # bs) a = (if inside a s then Some (sp_flags s) else space (as @ bs) a)"
proof (cases "inside a s")
  case True
  then have "\<forall>t \<in> set as. \<not> inside a t" using assms before_disjoint by (auto simp: spans_ok_append)
  then have "find (inside a) (as @ s # bs) = Some s"
    using True by (induction as) auto
  with True show ?thesis by (simp add: space_def)
next
  case False
  then have "find (inside a) (as @ s # bs) = find (inside a) (as @ bs)" by (induction as) auto
  with False show ?thesis by (simp add: space_def)
qed

lemma space_None_insert:
  "spans_ok (as @ s # bs) \<Longrightarrow> inside a s \<Longrightarrow> space (as @ bs) a = None"
  using before_disjoint by (fastforce simp: space_None spans_ok_append)

lemma space_Some:
  assumes "space ss a = Some f"
  obtains as s bs where "ss = as @ s # bs" "inside a s" "sp_flags s = f"
proof -
  from assms obtain s where "find (inside a) ss = Some s" "sp_flags s = f" by (auto simp: space_def)
  then have "inside a s" "s \<in> set ss" by (auto simp: find_Some_iff)
  then obtain as bs where "ss = as @ s # bs" by (meson split_list)
  with that show thesis using \<open>inside a s\<close> \<open>sp_flags s = f\<close> by blast
qed

text \<open>An address outside the space separates the spans below it from those above it.\<close>

lemma spans_split:
  assumes "spans_ok ss" and "space ss a = None"
  obtains as bs where "ss = as @ bs" "\<forall>s \<in> set as. sp_end s < a" "\<forall>s \<in> set bs. a < sp_start s"
proof -
  have n: "sp_end s < a \<or> a < sp_start s" if "s \<in> set ss" for s
    using assms(2) that by (auto simp: space_None inside_def)
  let ?as = "takeWhile (\<lambda>s. sp_end s < a) ss" and ?bs = "dropWhile (\<lambda>s. sp_end s < a) ss"
  have "a < sp_start s" if "s \<in> set ?bs" for s
  proof (cases ?bs)
    case Nil
    with that show ?thesis by simp
  next
    case (Cons t ts)
    then have "\<not> sp_end t < a" "t \<in> set ss" by (metis hd_dropWhile list.distinct(1) list.sel(1), metis list.set_intros(1) set_dropWhileD)
    then have t: "a < sp_start t" "span_ok t" using n assms(1) by (auto dest: spans_okD)
    have "spans_ok (t # ts)" using assms(1) Cons by (metis spans_ok_append takeWhile_dropWhile_id)
    then have "s = t \<or> before t s" using that Cons by auto
    with t show ?thesis by (auto simp: before_def span_ok_def)
  qed
  then show thesis using that [of ?as ?bs] by (auto dest: set_takeWhileD)
qed

text \<open>The end of the hole below the spans \<open>bs\<close>.\<close>

definition hole_end :: "span list \<Rightarrow> u32" where
  "hole_end bs = (if bs = [] then mmap_limit + 1 else sp_start (hd bs))"

lemma hole_free:
  assumes "spans_ok (as @ bs)" and "\<forall>s \<in> set as. sp_end s < a" and "a \<le> x" and "x < hole_end bs"
  shows "space (as @ bs) x = None"
proof -
  have "\<not> inside x s" if "s \<in> set as" for s using that assms(2,3) by (auto simp: inside_def)
  moreover have "\<not> inside x s" if "s \<in> set bs" for s
  proof -
    from that obtain t ts where bs: "bs = t # ts" by (cases bs) auto
    with that assms(1) have "s = t \<or> before t s" "span_ok t" by (auto simp: spans_ok_append)
    with assms(4) bs show ?thesis by (auto simp: hole_end_def inside_def before_def span_ok_def)
  qed
  ultimately show ?thesis by (auto simp: space_None)
qed


section \<open>Representation\<close>

abbreviation rlist :: "vmr heap \<Rightarrow> ptr list \<Rightarrow> bool" where
  "rlist \<equiv> dlist v_next v_prev"

definition vspan :: "vmr \<Rightarrow> span" where
  "vspan v = \<lparr>sp_start = v_start v, sp_end = v_end v, sp_flags = v_flags v\<rparr>"

abbreviation span_of :: "amem \<Rightarrow> ptr \<Rightarrow> span" where
  "span_of m x \<equiv> vspan (the (a_vmrs m x))"

lemma vspan_simps [simp]:
  "sp_start (vspan v) = v_start v" "sp_end (vspan v) = v_end v" "sp_flags (vspan v) = v_flags v"
  by (simp_all add: vspan_def)

definition mm_shape :: "ptr \<Rightarrow> amem \<Rightarrow> ptr \<Rightarrow> mmap \<Rightarrow> ptr list \<Rightarrow> bool" where
  "mm_shape cpu m mp a xs \<longleftrightarrow> mp \<noteq> NULL \<and> a_maps m mp = Some a \<and> spin_holding cpu (mm_lock a) \<and>
    mm_limit a = mmap_limit \<and> rlist (a_vmrs m) xs \<and> vmr_head a = fst_or NULL xs \<and> vmr_tail a = lst_or NULL xs"

definition mm_rep :: "ptr \<Rightarrow> amem \<Rightarrow> ptr \<Rightarrow> ptr list \<Rightarrow> span list \<Rightarrow> bool" where
  "mm_rep cpu m mp xs ss \<longleftrightarrow> (\<exists>a. mm_shape cpu m mp a xs) \<and> map (span_of m) xs = ss \<and> spans_ok ss"

lemma mm_shapeD:
  assumes "mm_shape cpu m mp a xs"
  shows "mmap_assert_locked cpu mp m = Some a" "mp \<noteq> NULL" "vmr_head a = fst_or NULL xs" "vmr_tail a = lst_or NULL xs"
    "mm_limit a = mmap_limit" "a_maps m mp = Some a"
  using assms by (simp_all add: mm_shape_def mmap_assert_locked_def spin_assert_lock_def deref_nn)

lemma mm_rep_locked: "mm_rep cpu m mp xs ss \<Longrightarrow> mp \<noteq> NULL \<and> (\<exists>a. mmap_assert_locked cpu mp m = Some a)"
  using mm_shapeD by (fastforce simp: mm_rep_def)

lemma mm_shape_live:
  "mm_shape cpu m mp a xs \<Longrightarrow> x \<in> set xs \<Longrightarrow> x \<noteq> NULL \<and> (\<exists>v. a_vmrs m x = Some v)"
  using dlist_live [of v_next v_prev "a_vmrs m" xs x] dlist_not_NULL [of v_next v_prev "a_vmrs m" xs]
  by (auto simp: mm_shape_def)

lemma mm_rep_live: "mm_rep cpu m mp xs ss \<Longrightarrow> x \<in> set xs \<Longrightarrow> x \<noteq> NULL \<and> (\<exists>v. a_vmrs m x = Some v)"
  using mm_shape_live by (fastforce simp: mm_rep_def)

lemma inside_span: "inside a (span_of m x) \<longleftrightarrow> v_start (the (a_vmrs m x)) \<le> a \<and> a \<le> v_end (the (a_vmrs m x))"
  by (simp add: inside_def)


section \<open>Lookups\<close>

lemma mmap_find_None:
  assumes "mm_rep cpu m mp xs ss" and "space ss a = None"
  shows "mmap_find cpu mp a m = Some NULL"
proof -
  from assms(1) obtain q where q: "mm_shape cpu m mp q xs" "map (span_of m) xs = ss" by (auto simp: mm_rep_def)
  have "\<forall>x \<in> set xs. \<not> inside a (span_of m x)" using assms(2) q(2) by (auto simp: space_None)
  then have "find_node v_next (a_vmrs m) (\<lambda>_ v. a \<ge> v_start v \<and> a \<le> v_end v) (fst_or NULL xs) = Some NULL"
    using q(1) by (intro find_node_None [of v_next v_prev]) (auto simp: mm_shape_def inside_span)
  with mm_shapeD [OF q(1)] show ?thesis by (simp add: mmap_find_def)
qed

lemma mmap_find_Some:
  assumes "mm_rep cpu m mp (as @ x # bs) ss" and "inside a (span_of m x)"
  shows "mmap_find cpu mp a m = Some x"
proof -
  from assms(1) obtain q where q: "mm_shape cpu m mp q (as @ x # bs)" "spans_ok (map (span_of m) (as @ x # bs))"
    by (auto simp: mm_rep_def)
  have "\<not> inside a (span_of m y)" if "y \<in> set as" for y
    using before_disjoint [of "span_of m y" "span_of m x" a] q(2) that assms(2) by (auto simp: spans_ok_append)
  then have "find_node v_next (a_vmrs m) (\<lambda>_ v. a \<ge> v_start v \<and> a \<le> v_end v) (fst_or NULL (as @ x # bs)) = Some x"
    using q(1) assms(2) by (intro find_node_Some [of v_next v_prev]) (auto simp: mm_shape_def inside_span)
  with mm_shapeD [OF q(1)] show ?thesis by (simp add: mmap_find_def)
qed

text \<open>\<^verbatim>\<open>mmap_find\<close> decides whether an address is in the space.\<close>

lemma mmap_find_space:
  assumes "mm_rep cpu m mp xs ss"
  obtains "space ss a = None" "mmap_find cpu mp a m = Some NULL"
  | as x bs where "xs = as @ x # bs" "inside a (span_of m x)" "mmap_find cpu mp a m = Some x" "x \<noteq> NULL"
      "space ss a = Some (sp_flags (span_of m x))"
proof (cases "space ss a")
  case None
  then show thesis using that(1) mmap_find_None [OF assms] by blast
next
  case (Some f)
  then obtain us s ws where s: "ss = us @ s # ws" "inside a s" "sp_flags s = f" by (rule space_Some)
  have "map (span_of m) xs = us @ s # ws" using assms s(1) by (simp add: mm_rep_def)
  then obtain as x bs where x: "xs = as @ x # bs" "span_of m x = s" by (auto simp: map_eq_append_conv map_eq_Cons_conv)
  have "mmap_find cpu mp a m = Some x" using mmap_find_Some assms x s(2) by blast
  then show thesis using that(2) [of as x bs] x s Some mm_rep_live [OF assms, of x] by auto
qed

lemma mmap_next_hole:
  assumes "mm_rep cpu m mp (as @ bs) ss" and "\<forall>x \<in> set as. v_end (the (a_vmrs m x)) < a"
    and "\<forall>x \<in> set bs. a < v_start (the (a_vmrs m x))"
  shows "mmap_find_vmr_next cpu mp a m = Some (NULL, fst_or NULL bs)"
proof -
  from assms(1) obtain q where q: "mm_shape cpu m mp q (as @ bs)" "ss = map (span_of m) (as @ bs)" "spans_ok ss"
    by (auto simp: mm_rep_def)
  have "space ss a = None"
    using assms(2,3) q(2) by (fastforce simp: space_None inside_span)
  from mmap_find_None [OF assms(1) this] have f: "mmap_find cpu mp a m = Some NULL" .
  have "dropWhile (\<lambda>x. \<not> a < v_start (the (a_vmrs m x))) (as @ bs) = bs"
  proof -
    have "\<not> a < v_start (the (a_vmrs m x))" if "x \<in> set as" for x
      using that assms(2) spans_okD [OF q(3), of "span_of m x"] q(2) by (fastforce simp: span_ok_def)
    moreover have "bs = [] \<or> a < v_start (the (a_vmrs m (hd bs)))" using assms(3) by (cases bs) auto
    ultimately show ?thesis by (induction as) (auto simp: dropWhile_eq_self_iff)
  qed
  then have "find_node v_next (a_vmrs m) (\<lambda>_ v. a < v_start v) (vmr_head q) = Some (fst_or NULL bs)"
    using find_node_dseg [of v_next v_prev "a_vmrs m" NULL "as @ bs" "\<lambda>_ v. a < v_start v"] q(1)
    by (simp add: mm_shape_def dlist_def)
  with f mm_shapeD [OF q(1)] show ?thesis by (simp add: mmap_find_vmr_next_def)
qed

text \<open>\<^verbatim>\<open>mmap_holesize\<close> measures the hole from an address on.\<close>

lemma mmap_holesize_hole:
  assumes "mm_rep cpu m mp xs ss" and "ss = us @ ws" and "\<forall>s \<in> set us. sp_end s < a" and "\<forall>s \<in> set ws. a < sp_start s"
    and "a \<le> mmap_limit"
  shows "mmap_holesize cpu mp a m = Some (0, hole_end ws - a)"
proof -
  from assms(1) obtain q where q: "mm_shape cpu m mp q xs" "map (span_of m) xs = ss" by (auto simp: mm_rep_def)
  from q(2) assms(2) obtain as bs where x: "xs = as @ bs" "us = map (span_of m) as" "ws = map (span_of m) bs"
    by (auto simp: map_eq_append_conv)
  have "space ss a = None" using assms(2-4) by (fastforce simp: space_None inside_def)
  from mmap_find_None [OF assms(1) this] have f: "mmap_find cpu mp a m = Some NULL" .
  have n: "mmap_find_vmr_next cpu mp a m = Some (NULL, fst_or NULL bs)"
    using mmap_next_hole [of cpu m mp as bs ss a] assms(1,3,4) x by (auto simp:)
  show ?thesis
  proof (cases bs)
    case Nil
    then show ?thesis using f n mm_shapeD [OF q(1)] assms(5) x(3) by (simp add: mmap_holesize_def hole_end_def)
  next
    case (Cons b cs)
    with mm_shape_live [OF q(1), of b] x(1) obtain v where "a_vmrs m b = Some v" "b \<noteq> NULL" by auto
    then show ?thesis using Cons f n mm_shapeD [OF q(1)] assms(5) x(3) by (simp add: mmap_holesize_def hole_end_def deref_nn)
  qed
qed


section \<open>Mapping a region\<close>

text \<open>The overlap check takes at most two rounds.\<close>

lemma mapin_check_stop: "\<not> s \<le> e \<Longrightarrow> mapin_check cpu mp s e m = Some 0"
  by (subst mapin_check.simps) simp

lemma mapin_check_ok:
  assumes "mm_rep cpu m mp xs ss" and "s \<le> e" and "e \<le> mmap_limit"
  shows "mapin_check cpu mp s e m = Some (if \<exists>a. s \<le> a \<and> a \<le> e \<and> space ss a \<noteq> None then - EEXIST else 0)"
proof (cases rule: mmap_find_space [OF assms(1), of s])
  case 1
  have ok: "spans_ok ss" using assms(1) by (simp add: mm_rep_def)
  from 1(1) obtain us ws where sp: "ss = us @ ws" "\<forall>t \<in> set us. sp_end t < s" "\<forall>t \<in> set ws. s < sp_start t"
    by (rule spans_split [OF ok])
  have h: "mmap_holesize cpu mp s m = Some (0, hole_end ws - s)"
    using mmap_holesize_hole [OF assms(1) sp] assms(2,3) by simp
  have step: "mapin_check cpu mp s e m = mapin_check cpu mp (hole_end ws) e m"
    using 1(2) h assms(2) by (subst mapin_check.simps) simp
  have free: "space ss a = None" if "s \<le> a" "a < hole_end ws" for a
    using hole_free [of us ws s a] ok sp that by simp
  show ?thesis
  proof (cases "hole_end ws \<le> e")
    case False
    then have "\<not> (\<exists>a. s \<le> a \<and> a \<le> e \<and> space ss a \<noteq> None)" using free by force
    with step mapin_check_stop [OF False] show ?thesis by simp
  next
    case True
    then have "ws \<noteq> []" using order_trans [OF True assms(3)] by (auto simp: hole_end_def)
    then obtain t ts where ws: "ws = t # ts" by (cases ws) auto
    then have t: "hole_end ws = sp_start t" "inside (sp_start t) t" "s < sp_start t"
      using ok sp by (auto simp: hole_end_def inside_def spans_ok_append span_ok_def)
    then have sm: "space ss (hole_end ws) \<noteq> None" using sp(1) ws by (auto simp: space_None)
    from mmap_find_space [OF assms(1), of "hole_end ws"] sm obtain x where
      "mmap_find cpu mp (hole_end ws) m = Some x" "x \<noteq> NULL" by metis
    then have "mapin_check cpu mp (hole_end ws) e m = Some (- EEXIST)"
      using True by (subst mapin_check.simps) simp
    moreover have "s \<le> hole_end ws" using t by simp
    ultimately show ?thesis using step sm True by (auto simp: Let_def)
  qed
next
  case (2 as x bs)
  then show ?thesis using assms(2) by (subst mapin_check.simps) auto
qed

lemma mapin_scan_ok:
  assumes "dseg v_next v_prev h p (as @ bs) NULL"
    and "\<forall>x \<in> set as. v_start (the (h x)) < s \<and> vmr_upper_bound (the (h x)) \<le> s"
    and "\<forall>x \<in> set bs. \<not> v_start (the (h x)) < s"
  shows "mapin_scan h s l (fst_or NULL (as @ bs)) = Some (lst_or l as, fst_or NULL bs)"
  using assms
proof (induction as arbitrary: p l)
  case Nil
  show ?case
  proof (cases bs)
    case Nil
    then show ?thesis by (subst mapin_scan.simps) simp
  next
    case (Cons b cs)
    with Nil.prems obtain n where "h b = Some n" "b \<noteq> NULL" by auto
    with Cons Nil.prems(3) show ?thesis by (subst mapin_scan.simps) (simp add: deref_nn)
  qed
next
  case (Cons x as)
  then obtain n where n: "h x = Some n" "x \<noteq> NULL" "v_next n = fst_or NULL (as @ bs)"
    "dseg v_next v_prev h x (as @ bs) NULL" by auto
  with Cons.IH [OF n(4), of x] Cons.prems show ?case by (subst mapin_scan.simps) (simp add: deref_nn)
qed

lemma set_vmr_Some:
  "p \<noteq> NULL \<Longrightarrow> a_vmrs m p = Some v \<Longrightarrow> set_vmr p f m = Some (m\<lparr>a_vmrs := (a_vmrs m)(p \<mapsto> f v)\<rparr>)"
  by (simp add: set_vmr_def exec_simps)

lemma set_map_Some:
  "p \<noteq> NULL \<Longrightarrow> a_maps m p = Some a \<Longrightarrow> set_map p f m = Some (m\<lparr>a_maps := (a_maps m)(p \<mapsto> f a)\<rparr>)"
  by (simp add: set_map_def exec_simps)

lemmas mm_exec = set_vmr_Some set_map_Some deref_nn

text \<open>The state after the region \<open>r\<close> was linked between \<open>as\<close> and \<open>bs\<close>: its count grows by two, the
  counts of its neighbours stay.\<close>

definition linked_in :: "amem \<Rightarrow> ptr \<Rightarrow> mmap \<Rightarrow> ptr \<Rightarrow> vmr \<Rightarrow> ptr list \<Rightarrow> ptr list \<Rightarrow> amem" where
  "linked_in m mp a r v as bs =
    (let h = a_vmrs m;
         h1 = (if as = [] then h else h(lst_or NULL as \<mapsto> (the (h (lst_or NULL as)))\<lparr>v_next := r\<rparr>));
         h2 = (if bs = [] then h1 else h1(fst_or NULL bs \<mapsto> (the (h (fst_or NULL bs)))\<lparr>v_prev := r\<rparr>))
     in m\<lparr>a_vmrs := h2(r \<mapsto> v\<lparr>v_refs := 2 + v_refs v, v_prev := lst_or NULL as, v_next := fst_or NULL bs\<rparr>),
          a_maps := (a_maps m)(mp \<mapsto> a\<lparr>vmr_head := fst_or r as, vmr_tail := lst_or r bs\<rparr>)\<rparr>)"

lemma vmr_order:
  "v\<lparr>v_next := a, v_prev := b\<rparr> = v\<lparr>v_prev := b, v_next := a\<rparr>"
  "v\<lparr>v_next := a, v_refs := k\<rparr> = v\<lparr>v_refs := k, v_next := a\<rparr>"
  "v\<lparr>v_prev := b, v_refs := k\<rparr> = v\<lparr>v_refs := k, v_prev := b\<rparr>"
  "m\<lparr>a_maps := q, a_vmrs := h\<rparr> = m\<lparr>a_vmrs := h, a_maps := q\<rparr>"
  by simp_all

lemma fun_upd_Some_same: "h x = Some v \<Longrightarrow> h(x \<mapsto> v) = h"
  by auto


lemma mapin_first_exec:
  assumes "mm_shape cpu m mp a []" and "r \<noteq> NULL" and "a_vmrs m r = Some v" and "v_next v = NULL" and "v_prev v = NULL"
  shows "mapin_first mp r m = Some (linked_in m mp a r v [] [])"
proof -
  have "v\<lparr>v_refs := k, v_prev := NULL, v_next := NULL\<rparr> = v\<lparr>v_refs := k\<rparr>" for k using assms(4,5) by simp
  with mm_shapeD [OF assms(1)] assms(2-3) show ?thesis
    by (simp add: mapin_first_def mm_exec linked_in_def Let_def vmr_order)
qed

lemma mapin_left_exec:
  assumes "mm_shape cpu m mp a (as @ bs)" and "as \<noteq> []" and "r \<noteq> NULL" and "r \<notin> set (as @ bs)"
    and "a_vmrs m r = Some v" and "v_next v = NULL" and "v_prev v = NULL"
  shows "mapin_left mp r (lst_or NULL as) m = Some (linked_in m mp a r v as bs)"
proof -
  note d = mm_shapeD [OF assms(1)]
  have l: "rlist (a_vmrs m) (as @ bs)" using assms(1) by (simp add: mm_shape_def)
  from assms(2) obtain as' y where as: "as = as' @ [y]" by (cases as rule: rev_cases) auto
  show ?thesis
  proof (cases bs)
    case Nil
    then obtain k where k: "a_vmrs m y = Some k" "y \<noteq> NULL" "v_next k = NULL" "y \<noteq> r"
      using l as assms(4) by (auto simp: dlist_def)
    have t: "vmr_tail a = y" "vmr_head a = fst_or y as'" using d as Nil by simp_all
    have a: "a\<lparr>vmr_head := fst_or y as', vmr_tail := r\<rparr> = a\<lparr>vmr_tail := r\<rparr>" using t by simp
    from k t(1) assms(3,5-7) d(2,6) Nil as show ?thesis
      by (simp add: mapin_left_def mm_exec linked_in_def Let_def vmr_order fun_upd_twist a)
  next
    case (Cons z bs')
    then obtain k j where k: "a_vmrs m y = Some k" "y \<noteq> NULL" "v_next k = z" "y \<noteq> r"
      and j: "a_vmrs m z = Some j" "z \<noteq> NULL" "z \<noteq> r" "z \<noteq> y"
      using l as assms(4) by (auto simp: dlist_def)
    have t: "vmr_tail a = lst_or r bs" "vmr_head a = fst_or r as"
      using d as Cons by (simp_all add: lst_or_append)
    then have a: "a\<lparr>vmr_head := fst_or y as', vmr_tail := lst_or z bs'\<rparr> = a" using as Cons by simp
    from k j a assms(3,5-7) d(2,6) Cons as show ?thesis
      by (simp add: mapin_left_def mm_exec linked_in_def Let_def vmr_order fun_upd_twist fun_upd_Some_same)
  qed
qed

lemma mapin_right_exec:
  assumes "mm_shape cpu m mp a bs" and "bs \<noteq> []" and "r \<noteq> NULL" and "r \<notin> set bs"
    and "a_vmrs m r = Some v" and "v_next v = NULL" and "v_prev v = NULL"
  shows "mapin_right mp r (fst_or NULL bs) m = Some (linked_in m mp a r v [] bs)"
proof -
  note d = mm_shapeD [OF assms(1)]
  have l: "rlist (a_vmrs m) bs" using assms(1) by (simp add: mm_shape_def)
  from assms(2) obtain z bs' where bs: "bs = z # bs'" by (cases bs) auto
  then obtain j where j: "a_vmrs m z = Some j" "z \<noteq> NULL" "v_prev j = NULL" "z \<noteq> r"
    using l assms(4) by (auto simp: dlist_def)
  have t: "vmr_head a = z" "vmr_tail a = lst_or z bs'" using d bs by simp_all
  then have a: "a\<lparr>vmr_head := r, vmr_tail := lst_or z bs'\<rparr> = a\<lparr>vmr_head := r\<rparr>" by simp
  from t(1) j assms(3,5-7) d(2,6) bs show ?thesis
    by (simp add: mapin_right_def mm_exec linked_in_def Let_def vmr_order fun_upd_twist a)
qed


text \<open>What the operations keep: the regions outside \<open>X\<close>, the other maps, and of every region its span.\<close>

definition mm_keep :: "ptr set \<Rightarrow> ptr \<Rightarrow> amem \<Rightarrow> amem \<Rightarrow> bool" where
  "mm_keep X mp m m' \<longleftrightarrow> (\<forall>x. x \<notin> X \<longrightarrow> a_vmrs m' x = a_vmrs m x) \<and> (\<forall>q. q \<noteq> mp \<longrightarrow> a_maps m' q = a_maps m q) \<and>
    a_kmalloc m' = a_kmalloc m"

lemma mm_keep_refl [simp]: "mm_keep X mp m m"
  by (simp add: mm_keep_def)

lemma mm_keep_trans: "mm_keep X mp m m1 \<Longrightarrow> mm_keep X mp m1 m2 \<Longrightarrow> mm_keep X mp m m2"
  by (simp add: mm_keep_def)

lemma mm_keep_mono: "mm_keep X mp m m' \<Longrightarrow> X \<subseteq> Y \<Longrightarrow> mm_keep Y mp m m'"
  by (auto simp: mm_keep_def)

lemma linked_in_ok:
  assumes "mm_shape cpu m mp a (as @ bs)" and "r \<noteq> NULL" and "r \<notin> set (as @ bs)" and "a_vmrs m r = Some v"
  shows "\<exists>a'. mm_shape cpu (linked_in m mp a r v as bs) mp a' (as @ r # bs)"
    and "\<forall>x \<in> set (as @ r # bs). span_of (linked_in m mp a r v as bs) x = span_of m x"
    and "mm_keep (set (as @ r # bs)) mp m (linked_in m mp a r v as bs)"
proof -
  let ?m = "linked_in m mp a r v as bs"
  have l: "rlist (a_vmrs m) (as @ bs)" using assms(1) by (simp add: mm_shape_def)
  have ends: "as \<noteq> [] \<Longrightarrow> lst_or NULL as \<in> set as" "bs \<noteq> [] \<Longrightarrow> fst_or NULL bs \<in> set bs"
    by (rule lst_or_in, simp, rule fst_or_in, simp)
  have live: "\<exists>k. a_vmrs m x = Some k" if "x \<in> set (as @ bs)" for x
    using that dlist_live [OF l] by blast
  show "\<forall>x \<in> set (as @ r # bs). span_of ?m x = span_of m x"
    using ends live [of "lst_or NULL as"] live [of "fst_or NULL bs"] assms(3,4)
    by (auto simp: linked_in_def Let_def vspan_def)
  show "mm_keep (set (as @ r # bs)) mp m ?m"
    using ends by (auto simp: mm_keep_def linked_in_def Let_def)
  have "rlist (a_vmrs ?m) (as @ r # bs)"
    using l assms(2-4) by (cases as rule: rev_cases; cases bs) (auto simp: dlist_def linked_in_def Let_def)
  then show "\<exists>a'. mm_shape cpu ?m mp a' (as @ r # bs)"
    using assms(1) by (auto simp: mm_shape_def linked_in_def Let_def lst_or_append)
qed


lemma mm_shape_vmr_upd:
  "x \<notin> set xs \<Longrightarrow> mm_shape cpu (m\<lparr>a_vmrs := (a_vmrs m)(x := w)\<rparr>) mp a xs = mm_shape cpu m mp a xs"
  by (simp add: mm_shape_def dlist_upd)

lemma mapin_link_ok:
  assumes sh: "mm_shape cpu m mp a (as @ bs)" and r: "r \<noteq> NULL" "r \<notin> set (as @ bs)" "a_vmrs m r = Some v"
    and below: "\<forall>x \<in> set as. v_start (the (a_vmrs m x)) < v_start v \<and> vmr_upper_bound (the (a_vmrs m x)) \<le> v_start v"
    and above: "\<forall>x \<in> set bs. \<not> v_start (the (a_vmrs m x)) < v_start v"
  shows "\<exists>m' v'. mapin_link mp r m = Some m' \<and> (\<exists>a'. mm_shape cpu m' mp a' (as @ r # bs)) \<and>
    (\<forall>x \<in> set (as @ r # bs). span_of m' x = span_of m x) \<and> mm_keep (set (as @ r # bs)) mp m m' \<and>
    a_vmrs m' r = Some v' \<and> v_refs v' = v_refs v + 2"
proof -
  let ?v = "v\<lparr>v_next := NULL, v_prev := NULL\<rparr>"
  let ?m = "m\<lparr>a_vmrs := (a_vmrs m)(r \<mapsto> ?v)\<rparr>"
  have sh': "mm_shape cpu ?m mp a (as @ bs)" using sh r(2) mm_shape_vmr_upd by blast
  note d = mm_shapeD [OF sh']
  have seg: "dseg v_next v_prev (a_vmrs ?m) NULL (as @ bs) NULL" using sh' by (simp add: mm_shape_def dlist_def)
  have at: "the (a_vmrs ?m x) = the (a_vmrs m x)" if "x \<in> set (as @ bs)" for x using that r(2) by auto
  have scan: "mapin_scan (a_vmrs ?m) (v_start v) NULL (vmr_head a) = Some (lst_or NULL as, fst_or NULL bs)"
    unfolding d(3) using below above at r(2) by (intro mapin_scan_ok [OF seg]) (auto simp del: fun_upd_apply)
  have nn: "NULL \<notin> set (as @ bs)" using dseg_not_NULL [OF seg] .
  let ?l = "linked_in ?m mp a r ?v as bs"
  have "mapin_link mp r m = Some ?l"
  proof (cases "as @ bs = []")
    case True
    then have "mapin_first mp r ?m = Some ?l" using mapin_first_exec [of cpu ?m mp a r ?v] sh' r(1) by simp
    with True d r show ?thesis by (simp add: mapin_link_def mm_exec)
  next
    case False
    then have head: "vmr_head a \<noteq> NULL" unfolding d(3) using fst_or_eq_default [OF nn] by blast
    show ?thesis
    proof (cases "as = []")
      case True
      then have "mapin_right mp r (fst_or NULL bs) ?m = Some ?l"
        using mapin_right_exec [of cpu ?m mp a bs r ?v] sh' False r by simp
      moreover have "fst_or NULL bs \<noteq> NULL" using True False nn by (simp add: fst_or_eq_default)
      ultimately show ?thesis
        using True head d r scan by (simp add: mapin_link_def mm_exec del: fun_upd_apply) (simp add: mm_exec)
    next
      case False
      then have l: "mapin_left mp r (lst_or NULL as) ?m = Some ?l"
        using mapin_left_exec [of cpu ?m mp a as bs r ?v] sh' r by simp
      have y: "lst_or NULL as \<in> set as" using False by (rule lst_or_in)
      then have y0: "lst_or NULL as \<noteq> NULL" using nn by auto
      from mm_shape_live [OF sh', of "lst_or NULL as"] y obtain k where
        k: "a_vmrs ?m (lst_or NULL as) = Some k" by auto
      have "\<not> v_start v < v_start k"
        using below y k at [of "lst_or NULL as"] by (metis Un_iff not_less_iff_gr_or_eq option.sel set_append)
      with k y0 head d r scan l show ?thesis
        by (simp add: mapin_link_def mm_exec del: fun_upd_apply) (simp add: mm_exec)
    qed
  qed
  moreover note li = linked_in_ok [OF sh' r(1,2), of ?v]
  have "\<forall>x \<in> set (as @ r # bs). span_of ?l x = span_of m x"
    using li(2) at r(3) by (auto simp: vspan_def)
  moreover have "mm_keep (set (as @ r # bs)) mp m ?l"
    using li(3) by (auto simp: mm_keep_def)
  moreover have "a_vmrs ?l r = Some (?v\<lparr>v_refs := 2 + v_refs v, v_prev := lst_or NULL as, v_next := fst_or NULL bs\<rparr>)"
    by (simp add: linked_in_def Let_def)
  ultimately show ?thesis using li(1) by (intro exI [of _ ?l]) simp
qed


text \<open>\<^verbatim>\<open>mmap_mapin\<close> of a region that does not overlap, and of one that does.\<close>

lemma mm_contains:
  assumes "mm_shape cpu m mp a xs" and "r \<noteq> NULL"
  shows "mmap_contains cpu mp r m = Some (if r \<in> set xs then 1 else 0)"
proof -
  note d = mm_shapeD [OF assms(1)]
  have l: "rlist (a_vmrs m) xs" using assms(1) by (simp add: mm_shape_def)
  show ?thesis
  proof (cases "r \<in> set xs")
    case True
    then obtain as bs where xs: "xs = as @ r # bs" by (meson split_list)
    with l have "r \<notin> set as" by (auto simp: dlist_def)
    then have "find_node v_next (a_vmrs m) (\<lambda>p _. p = r) (fst_or NULL xs) = Some r"
      using l unfolding xs by (intro find_node_Some [of v_next v_prev]) auto
    with True d assms(2) show ?thesis by (simp add: mmap_contains_def)
  next
    case False
    then have "find_node v_next (a_vmrs m) (\<lambda>p _. p = r) (fst_or NULL xs) = Some NULL"
      using l by (intro find_node_None [of v_next v_prev]) auto
    with False d assms(2) show ?thesis by (simp add: mmap_contains_def)
  qed
qed

lemma span_size_nz:
  assumes "s \<le> e" and "e \<le> (0xBFFFFFFF :: u32)"
  shows "e - s + 1 \<noteq> 0"
proof
  assume "e - s + 1 = 0"
  then have "s = e + 1" by (simp add: algebra_simps)
  then have "unat s = unat e + 1" using assms(2) by (simp add: word_le_nat_alt unat_word_ariths)
  with assms(1) show False by (simp add: word_le_nat_alt)
qed

lemma mapin_sep:
  assumes "spans_ok ss" and "span_ok s" and "\<forall>a. inside a s \<longrightarrow> space ss a = None"
  obtains us ws where "ss = us @ ws" "\<forall>t \<in> set us. before t s" "\<forall>t \<in> set ws. before s t"
proof -
  have "inside (sp_start s) s" using assms(2) by (simp add: inside_def span_ok_def)
  then have "space ss (sp_start s) = None" using assms(3) by blast
  then obtain us ws where w: "ss = us @ ws" "\<forall>t \<in> set us. sp_end t < sp_start s" "\<forall>t \<in> set ws. sp_start s < sp_start t"
    by (rule spans_split [OF assms(1)])
  have "before s t" if "t \<in> set ws" for t
  proof (rule ccontr)
    assume "\<not> before s t"
    then have "inside (sp_start t) s" using w(3) that by (auto simp: before_def inside_def)
    then have "\<not> inside (sp_start t) t" using assms(3) w(1) that by (auto simp: space_None)
    moreover have "span_ok t" using assms(1) w(1) that by (auto dest: spans_okD)
    ultimately show False by (auto simp: inside_def span_ok_def)
  qed
  with w that show thesis by (auto simp: before_def)
qed

lemma before_upper:
  assumes "before t s" and "span_ok t"
  shows "sp_start t < sp_start s" and "sp_end t + 1 \<le> sp_start s"
proof -
  show "sp_start t < sp_start s" using assms by (auto simp: before_def span_ok_def)
  have "unat (sp_end t) < unat (sp_start s)" using assms(1) by (simp add: before_def word_less_nat_alt)
  then have "unat (sp_end t + 1) \<le> unat (sp_start s)" using mod_less_eq_dividend [of "unat (sp_end t) + 1" "2 ^ 32"] by (simp add: unat_word_ariths)
  then show "sp_end t + 1 \<le> sp_start s" by (simp add: word_le_nat_alt)
qed

lemma mm_rep_upd_other:
  assumes "mm_rep cpu m mp xs ss" and "x \<notin> set xs"
  shows "mm_rep cpu (m\<lparr>a_vmrs := (a_vmrs m)(x := w)\<rparr>) mp xs ss"
proof -
  have "map (span_of (m\<lparr>a_vmrs := (a_vmrs m)(x := w)\<rparr>)) xs = map (span_of m) xs"
    using assms(2) by (intro map_cong) auto
  with assms show ?thesis by (auto simp: mm_rep_def mm_shape_vmr_upd)
qed

text \<open>Changes that leave links, spans and lock alone.\<close>

lemma mm_rep_payload:
  assumes "mm_rep cpu m mp xs ss" and "a_maps m mp = Some a" and "a_maps m' = (a_maps m)(mp \<mapsto> a')"
    and "vmr_head a' = vmr_head a" "vmr_tail a' = vmr_tail a" "mm_lock a' = mm_lock a" "mm_limit a' = mm_limit a"
    and "a_vmrs m' = (a_vmrs m)(x \<mapsto> v')" and "a_vmrs m x = Some v"
    and "v_next v' = v_next v" "v_prev v' = v_prev v" "vspan v' = vspan v"
  shows "mm_rep cpu m' mp xs ss"
proof -
  from assms(1,2) have sh: "mm_shape cpu m mp a xs" "map (span_of m) xs = ss" "spans_ok ss"
    by (auto simp: mm_rep_def mm_shape_def)
  have l: "map_option v_next (a_vmrs m' y) = map_option v_next (a_vmrs m y) \<and>
      map_option v_prev (a_vmrs m' y) = map_option v_prev (a_vmrs m y)" for y
    using assms(8-11) by simp
  then have "rlist (a_vmrs m') xs = rlist (a_vmrs m) xs" by (intro dlist_links) auto
  then have "mm_shape cpu m' mp a' xs" using sh(1) assms(3-7) by (simp add: mm_shape_def)
  moreover have "span_of m' = span_of m" using assms(8,9,12) by (auto simp: fun_eq_iff)
  ultimately show ?thesis using sh(2,3) by (auto simp: mm_rep_def)
qed


lemma mmap_mapin_ok:
  assumes rep: "mm_rep cpu m mp xs ss" and r: "r \<noteq> NULL" "r \<notin> set xs" "a_vmrs m r = Some v"
    and ok: "span_ok (vspan v)" and free: "\<forall>a. inside a (vspan v) \<longrightarrow> space ss a = None"
  shows "\<exists>m' as bs v'. mmap_mapin cpu mp r m = Some (0, m') \<and> xs = as @ bs \<and>
    mm_rep cpu m' mp (as @ r # bs) (map (span_of m) (as @ r # bs)) \<and> mm_keep (set (r # xs)) mp m m' \<and>
    a_vmrs m' r = Some v' \<and> v_refs v' = v_refs v + 2"
proof -
  from rep obtain a where sh: "mm_shape cpu m mp a xs" and ss: "map (span_of m) xs = ss" "spans_ok ss"
    by (auto simp: mm_rep_def)
  note d = mm_shapeD [OF sh]
  from mapin_sep [OF ss(2) ok free] obtain us ws where
    w: "ss = us @ ws" "\<forall>t \<in> set us. before t (vspan v)" "\<forall>t \<in> set ws. before (vspan v) t" .
  from ss(1) w(1) obtain as bs where x: "xs = as @ bs" "us = map (span_of m) as" "ws = map (span_of m) bs"
    by (auto simp: map_eq_append_conv)
  have "\<forall>x \<in> set as. v_start (the (a_vmrs m x)) < v_start v \<and> vmr_upper_bound (the (a_vmrs m x)) \<le> v_start v"
  proof
    fix x assume "x \<in> set as"
    then have "before (span_of m x) (vspan v)" "span_ok (span_of m x)" using w(1,2) x spans_okD [OF ss(2), of "span_of m x"] by auto
    from before_upper [OF this] show "v_start (the (a_vmrs m x)) < v_start v \<and> vmr_upper_bound (the (a_vmrs m x)) \<le> v_start v"
      by (simp add: vmr_upper_bound_def)
  qed
  moreover have "\<forall>x \<in> set bs. \<not> v_start (the (a_vmrs m x)) < v_start v"
    using w(3) x(3) ok by (fastforce simp: before_def span_ok_def)
  ultimately obtain m1 v1 a1 where m1: "mapin_link mp r m = Some m1" "mm_shape cpu m1 mp a1 (as @ r # bs)"
    "\<forall>x \<in> set (as @ r # bs). span_of m1 x = span_of m x" "mm_keep (set (as @ r # bs)) mp m m1"
    "a_vmrs m1 r = Some v1" "v_refs v1 = v_refs v + 2"
    using mapin_link_ok [of cpu m mp a as bs r v] sh x(1) r by auto
  have sv: "span_of m r = vspan v" using r(3) by simp
  have sok: "spans_ok (map (span_of m) (as @ r # bs))"
    using ss(2) w x sv ok by (auto simp: spans_ok_append)
  have rep1: "mm_rep cpu m1 mp (as @ r # bs) (map (span_of m) (as @ r # bs))"
  proof -
    have "map (span_of m1) (as @ r # bs) = map (span_of m) (as @ r # bs)" using m1(3) by (intro map_cong) auto
    with m1(2) sok show ?thesis unfolding mm_rep_def by auto
  qed
  note d1 = mm_shapeD [OF m1(2)]
  let ?v2 = "v1\<lparr>v_mmap := mp\<rparr>"
  let ?a2 = "a1\<lparr>mm_refs := mm_refs a1 + 1, mm_used_space := mm_used_space a1 + vmr_size ?v2\<rparr>"
  let ?m2 = "m1\<lparr>a_vmrs := (a_vmrs m1)(r \<mapsto> ?v2), a_maps := (a_maps m1)(mp \<mapsto> ?a2)\<rparr>"
  have rep2: "mm_rep cpu ?m2 mp (as @ r # bs) (map (span_of m) (as @ r # bs))"
    by (rule mm_rep_payload [OF rep1 d1(6), of _ ?a2 r ?v2 v1]) (simp_all add: m1(5) vspan_def)
  have "vmr_size v \<noteq> 0" "\<not> v_end v > mmap_limit"
    using ok span_size_nz by (auto simp: span_ok_def vmr_size_def)
  moreover have "mapin_check cpu mp (v_start v) (v_end v) m = Some 0"
    using mapin_check_ok [OF rep, of "v_start v" "v_end v"] ok free by (auto simp: span_ok_def inside_def)
  moreover have "mmap_contains cpu mp r m = Some 0" using mm_contains [OF sh r(1)] r(2) by simp
  ultimately have "mmap_mapin cpu mp r m = Some (0, ?m2)"
    using d(1,2) r m1(1,5) d1(2,6) by (simp add: mmap_mapin_def mm_exec)
  moreover have "mm_keep (set (r # xs)) mp m ?m2" using m1(4) x(1) by (auto simp: mm_keep_def)
  ultimately show ?thesis using x(1) rep2 m1(6) by (intro exI [of _ ?m2] exI [of _ as] exI [of _ bs] exI [of _ ?v2]) simp
qed

lemma mmap_mapin_exist:
  assumes rep: "mm_rep cpu m mp xs ss" and r: "r \<noteq> NULL" "r \<notin> set xs" "a_vmrs m r = Some v"
    and ok: "span_ok (vspan v)" and over: "inside a (vspan v)" "space ss a \<noteq> None"
  shows "mmap_mapin cpu mp r m = Some (- EEXIST, m)"
proof -
  from rep obtain q where sh: "mm_shape cpu m mp q xs" by (auto simp: mm_rep_def)
  have "mapin_check cpu mp (v_start v) (v_end v) m = Some (- EEXIST)"
    using mapin_check_ok [OF rep, of "v_start v" "v_end v"] ok over by (auto simp: span_ok_def inside_def)
  moreover have "vmr_size v \<noteq> 0" "\<not> v_end v > mmap_limit"
    using ok span_size_nz by (auto simp: span_ok_def vmr_size_def)
  ultimately show ?thesis
    using mm_shapeD [OF sh] mm_contains [OF sh r(1)] r by (simp add: mmap_mapin_def deref_nn)
qed

end
