(* ===== verification/Mmap_Unmap.thy ===== *)
theory Mmap_Unmap
  imports Mmap_Space
begin

text \<open>
  Removal of regions and unmapping of address ranges: \<^verbatim>\<open>mmap_remove\<close> takes a region out of the list and
  \<^verbatim>\<open>mmap_unmap\<close> restricts the address space to the addresses outside the range.
\<close>

section \<open>Removal\<close>

text \<open>The state before the region is freed: it is unlinked; a neighbour that stays alone loses one
  reference.\<close>

definition cut_out :: "amem \<Rightarrow> ptr \<Rightarrow> mmap \<Rightarrow> ptr \<Rightarrow> vmr \<Rightarrow> ptr list \<Rightarrow> ptr list \<Rightarrow> amem" where
  "cut_out m mp a r v as bs =
    (let h = a_vmrs m; k = (if length (as @ bs) = 1 then 1 else 0);
         h1 = (if as = [] then h else h(lst_or NULL as \<mapsto>
           (let y = the (h (lst_or NULL as)) in y\<lparr>v_next := fst_or NULL bs, v_refs := v_refs y - k\<rparr>)));
         h2 = (if bs = [] then h1 else h1(fst_or NULL bs \<mapsto>
           (let z = the (h (fst_or NULL bs)) in z\<lparr>v_prev := lst_or NULL as, v_refs := v_refs z - k\<rparr>)));
         n = (if as = [] then 0 else 1) + (if bs = [] then 0 else 1) + 1
     in m\<lparr>a_vmrs := h2(r \<mapsto> v\<lparr>v_refs := v_refs v - n, v_mmap := NULL\<rparr>),
          a_maps := (a_maps m)(mp \<mapsto> a\<lparr>vmr_head := fst_or NULL (as @ bs), vmr_tail := lst_or NULL (as @ bs),
            mm_refs := mm_refs a - 1\<rparr>)\<rparr>)"

lemma cut_out_ok:
  assumes "mm_shape cpu m mp a (as @ r # bs)" and "a_vmrs m r = Some v"
  shows "\<exists>a'. mm_shape cpu (cut_out m mp a r v as bs) mp a' (as @ bs)"
    and "\<forall>x \<in> set (as @ r # bs). span_of (cut_out m mp a r v as bs) x = span_of m x"
    and "mm_keep (set (as @ r # bs)) mp m (cut_out m mp a r v as bs)"
    and "a_log (cut_out m mp a r v as bs) = a_log m"
proof -
  let ?m = "cut_out m mp a r v as bs"
  have l: "rlist (a_vmrs m) (as @ r # bs)" using assms(1) by (simp add: mm_shape_def)
  have n: "r \<notin> set as" "r \<notin> set bs" using l by (auto simp: dlist_def)
  have ends: "as \<noteq> [] \<Longrightarrow> lst_or NULL as \<in> set as" "bs \<noteq> [] \<Longrightarrow> fst_or NULL bs \<in> set bs"
    by (rule lst_or_in, simp, rule fst_or_in, simp)
  have live: "\<exists>k. a_vmrs m x = Some k" if "x \<in> set (as @ r # bs)" for x
    using that dlist_live [OF l] by blast
  show "\<forall>x \<in> set (as @ r # bs). span_of ?m x = span_of m x"
    using ends live [of "lst_or NULL as"] live [of "fst_or NULL bs"] n assms(2)
    by (auto simp: cut_out_def Let_def vspan_def)
  show "mm_keep (set (as @ r # bs)) mp m ?m"
    using ends by (auto simp: mm_keep_def cut_out_def Let_def)
  show "a_log ?m = a_log m" by (simp add: cut_out_def Let_def)
  have "rlist (a_vmrs ?m) (as @ bs)"
    using l by (cases as rule: rev_cases; cases bs) (auto simp: dlist_def cut_out_def Let_def)
  then show "\<exists>a'. mm_shape cpu ?m mp a' (as @ bs)"
    using assms(1) by (auto simp: mm_shape_def cut_out_def Let_def)
qed

lemma logged_simps [simp]:
  "a_vmrs (logged c m) = a_vmrs m" "a_maps (logged c m) = a_maps m" "a_kmalloc (logged c m) = a_kmalloc m"
  "a_log (logged c m) = a_log m @ [c]"
  by (simp_all add: logged_def)

lemma vmr_size_upd [simp]:
  "vmr_size (v\<lparr>v_refs := k\<rparr>) = vmr_size v" "vmr_size (v\<lparr>v_mmap := q\<rparr>) = vmr_size v"
  by (simp_all add: vmr_size_def)

definition freed :: "ptr \<Rightarrow> amem \<Rightarrow> amem" where
  "freed r m = (if v_refs (the (a_vmrs m r)) \<le> 0 then m\<lparr>a_vmrs := (a_vmrs m)(r := None)\<rparr> else m)"

lemma vmr_free_freed: "r \<noteq> NULL \<Longrightarrow> a_vmrs m r \<noteq> None \<Longrightarrow> vmr_free r m = Some (freed r m)"
  by (auto simp: vmr_free_def freed_def deref_nn)

text \<open>The steps of \<^verbatim>\<open>mmap_remove\<close>, by the neighbours \<open>y\<close> and \<open>z\<close> of \<open>r\<close>.\<close>

lemma remove_links_exec:
  assumes "r \<noteq> NULL" and "a_vmrs m r = Some v"
    and "v_prev v \<noteq> NULL \<Longrightarrow> v_prev v \<noteq> r \<and> a_vmrs m (v_prev v) = Some k"
    and "v_next v \<noteq> NULL \<Longrightarrow> v_next v \<noteq> r \<and> v_next v \<noteq> v_prev v \<and> a_vmrs m (v_next v) = Some j"
  shows "remove_links r m = Some (m\<lparr>a_vmrs :=
    (let h1 = (if v_prev v = NULL then a_vmrs m else (a_vmrs m)(v_prev v \<mapsto> k\<lparr>v_next := v_next v\<rparr>));
         h2 = (if v_next v = NULL then h1 else h1(v_next v \<mapsto> j\<lparr>v_prev := v_prev v\<rparr>))
     in h2(r \<mapsto> v\<lparr>v_refs := v_refs v - (if v_prev v = NULL then 0 else 1) - (if v_next v = NULL then 0 else 1)\<rparr>))\<rparr>)"
proof (cases "v_prev v = NULL")
  case True
  show ?thesis
  proof (cases "v_next v = NULL")
    assume "v_next v = NULL"
    moreover have "(a_vmrs m)(r \<mapsto> v) = a_vmrs m" using assms(2) by auto
    ultimately show ?thesis using True assms(1,2) by (simp add: remove_links_def deref_nn)
  next
    assume n: "v_next v \<noteq> NULL"
    with True assms(1,2) assms(4) [OF n] show ?thesis by (simp add: remove_links_def mm_exec)
  qed
next
  case False
  note y = assms(3) [OF False]
  show ?thesis
  proof (cases "v_next v = NULL")
    case True
    with False y assms(1,2) show ?thesis by (simp add: remove_links_def mm_exec)
  next
    assume n: "v_next v \<noteq> NULL"
    from False n y assms(4) [OF n] assms(1,2) show ?thesis
      by (simp add: remove_links_def mm_exec fun_upd_twist)
  qed
qed

lemma remove_head_exec:
  assumes "mp \<noteq> NULL" and "a_maps m mp = Some a" and "r \<noteq> NULL" and "a_vmrs m r = Some v" and "v_next v = z"
    and "z \<noteq> NULL \<Longrightarrow> z \<noteq> r \<and> a_vmrs m z = Some j"
  shows "vmr_head a \<noteq> r \<Longrightarrow> remove_head mp r m = Some m"
    and "vmr_head a = r \<Longrightarrow> remove_head mp r m = Some (m\<lparr>a_maps := (a_maps m)(mp \<mapsto> a\<lparr>vmr_head := z\<rparr>), a_vmrs :=
      (if z = NULL then a_vmrs m else (a_vmrs m)(z \<mapsto> j\<lparr>v_prev := NULL,
        v_refs := (if v_next j = NULL then v_refs j - 1 else v_refs j)\<rparr>))\<rparr>)"
  using assms by (cases "z = NULL"; simp add: remove_head_def mm_exec)+

lemma remove_tail_exec:
  assumes "mp \<noteq> NULL" and "a_maps m mp = Some a" and "r \<noteq> NULL" and "a_vmrs m r = Some v" and "v_prev v = y"
    and "y \<noteq> NULL \<Longrightarrow> y \<noteq> r \<and> a_vmrs m y = Some k"
  shows "vmr_tail a \<noteq> r \<Longrightarrow> remove_tail mp r m = Some m"
    and "vmr_tail a = r \<Longrightarrow> remove_tail mp r m = Some (m\<lparr>a_maps := (a_maps m)(mp \<mapsto> a\<lparr>vmr_tail := y\<rparr>), a_vmrs :=
      (if y = NULL then a_vmrs m else (a_vmrs m)(y \<mapsto> k\<lparr>v_next := NULL,
        v_refs := (if v_prev k = NULL then v_refs k - 1 else v_refs k)\<rparr>))\<rparr>)"
  using assms by (cases "y = NULL"; simp add: remove_tail_def mm_exec)+

text \<open>The end of \<^verbatim>\<open>mmap_remove\<close>, from the state \<open>m3\<close> reached after the list was relinked.\<close>

lemma mmap_remove_rest:
  assumes "mm_shape cpu m mp a xs" and "r \<in> set xs" and "r \<noteq> NULL" and "remove_links r m = Some m1"
    and "remove_head mp r m1 = Some m2" and "remove_tail mp r m2 = Some m3"
    and "a_vmrs m3 r = Some v3" and "a_maps m3 mp = Some a3"
    and "m4 = m3\<lparr>a_vmrs := (a_vmrs m3)(r \<mapsto> v3\<lparr>v_refs := v_refs v3 - 1, v_mmap := NULL\<rparr>),
      a_maps := (a_maps m3)(mp \<mapsto> a3\<lparr>mm_refs := mm_refs a3 - 1\<rparr>)\<rparr>"
  shows "mmap_remove cpu mp r m = Some (0, freed r (logged (paging_unmap_mapped (v_start v3) (vmr_size v3)) m4))"
proof -
  note d = mm_shapeD [OF assms(1)]
  have "mmap_contains cpu mp r m = Some 1" using mm_contains [OF assms(1,3)] assms(2) by simp
  with d(1,2) assms(3-8) show ?thesis
    unfolding assms(9) by (simp add: mmap_remove_def mm_exec vmr_free_freed vmr_size_def)
qed

lemma mmap_remove_exec:
  assumes sh: "mm_shape cpu m mp a (as @ r # bs)" and v: "a_vmrs m r = Some v"
  shows "mmap_remove cpu mp r m =
    Some (0, freed r (logged (paging_unmap_mapped (v_start v) (vmr_size v)) (cut_out m mp a r v as bs)))"
proof -
  note d = mm_shapeD [OF sh]
  have l: "rlist (a_vmrs m) (as @ r # bs)" using sh by (simp add: mm_shape_def)
  have dist: "distinct (as @ r # bs)" "NULL \<notin> set (as @ r # bs)"
    using l dlist_not_NULL [OF l] by (auto simp: dlist_def)
  then have r: "r \<noteq> NULL" by simp
  have vn: "v_prev v = lst_or NULL as" "v_next v = fst_or NULL bs" using dlist_node [OF l] v by auto
  have prev: "\<exists>k. a_vmrs m y = Some k \<and> v_prev k = lst_or NULL as'" if "as = as' @ [y]" for as' y
    using dlist_node [of v_next v_prev "a_vmrs m" as' y "r # bs"] l that by auto
  have nxt: "\<exists>j. a_vmrs m z = Some j \<and> v_next j = fst_or NULL bs'" if "bs = z # bs'" for z bs'
    using dlist_node [of v_next v_prev "a_vmrs m" "as @ [r]" z bs'] l that by auto
  note rest = mmap_remove_rest [OF sh _ r]
  show ?thesis
  proof (cases as rule: rev_cases)
    case Nil
    show ?thesis
    proof (cases bs)
      case nbs: Nil
      then have e: "v_prev v = NULL" "v_next v = NULL" "vmr_head a = r" "vmr_tail a = r" using vn d(3,4) Nil by simp_all
      let ?m1 = "m\<lparr>a_vmrs := (a_vmrs m)(r \<mapsto> v)\<rparr>"
      let ?a2 = "a\<lparr>vmr_head := NULL\<rparr>"
      let ?m2 = "?m1\<lparr>a_maps := (a_maps m)(mp \<mapsto> ?a2)\<rparr>"
      let ?m3 = "?m1\<lparr>a_maps := (a_maps m)(mp \<mapsto> ?a2\<lparr>vmr_tail := NULL\<rparr>)\<rparr>"
      have 1: "remove_links r m = Some ?m1" using remove_links_exec [OF r v] e by simp
      have 2: "remove_head mp r ?m1 = Some ?m2"
        using remove_head_exec(2) [of mp ?m1 a r v NULL] d(2,6) r e by simp
      have 3: "remove_tail mp r ?m2 = Some ?m3"
        using remove_tail_exec(2) [of mp ?m2 ?a2 r v NULL] d(2,6) r e by simp
      show ?thesis
        using rest [OF _ 1 2 3, of v "?a2\<lparr>vmr_tail := NULL\<rparr>"] Nil nbs by (simp add: cut_out_def)
    next
      case (Cons z bs')
      with nxt obtain j where j: "a_vmrs m z = Some j" "v_next j = fst_or NULL bs'" by blast
      have z: "z \<noteq> NULL" "z \<noteq> r" "NULL \<notin> set bs'" "r \<notin> set bs'" using dist Cons by auto
      have "lst_or z bs' \<noteq> r" using z(2,4) lst_or_in [of bs' z] by (cases "bs' = []") auto
      then have e: "vmr_head a = r" "vmr_tail a = lst_or z bs'" "v_next j = NULL \<longleftrightarrow> bs' = []" "vmr_tail a \<noteq> r"
        "v_prev v = NULL" "v_next v = z"
        using d(3,4) Nil Cons j(2) z(3) vn by (simp_all add: fst_or_eq_default)
      let ?v = "v\<lparr>v_refs := v_refs v - 1\<rparr>"
      let ?j = "j\<lparr>v_prev := NULL\<rparr>"
      let ?m1 = "m\<lparr>a_vmrs := (a_vmrs m)(z \<mapsto> ?j, r \<mapsto> ?v)\<rparr>"
      let ?k = "?j\<lparr>v_refs := (if bs' = [] then v_refs j - 1 else v_refs j)\<rparr>"
      let ?a2 = "a\<lparr>vmr_head := z\<rparr>"
      let ?m2 = "m\<lparr>a_vmrs := (a_vmrs m)(z \<mapsto> ?k, r \<mapsto> ?v), a_maps := (a_maps m)(mp \<mapsto> ?a2)\<rparr>"
      have 1: "remove_links r m = Some ?m1" using remove_links_exec [OF r v, of undefined j] e j(1) z(1,2) by simp
      have 2: "remove_head mp r ?m1 = Some ?m2"
        using remove_head_exec(2) [of mp ?m1 a r ?v z ?j] d(2,6) r e z(1,2)
        by (cases "bs' = []") (simp_all add: vmr_order(4) fun_upd_twist)
      have 3: "remove_tail mp r ?m2 = Some ?m2"
        using remove_tail_exec(1) [of mp ?m2 ?a2 r ?v NULL] d(2,6) r e by simp
      have a: "a\<lparr>vmr_head := z, vmr_tail := lst_or z bs', mm_refs := i\<rparr> = a\<lparr>vmr_head := z, mm_refs := i\<rparr>" for i
        using e(2) by simp
      show ?thesis
        using rest [OF _ 1 2 3, of ?v ?a2] Nil Cons j(1) z(2) by (simp add: cut_out_def Let_def a)
    qed
  next
    case (snoc as' y)
    with prev obtain k where k: "a_vmrs m y = Some k" "v_prev k = lst_or NULL as'" by blast
    have y: "y \<noteq> NULL" "y \<noteq> r" "NULL \<notin> set as'" "r \<notin> set as'" using dist snoc by auto
    have "fst_or y as' \<noteq> r" using y(2,4) fst_or_in [of as' y] by (cases "as' = []") auto
    then have h: "vmr_head a \<noteq> r" "v_prev k = NULL \<longleftrightarrow> as' = []" "vmr_head a = fst_or y as'" "v_prev v = y"
      using d(3) snoc k(2) y(3) vn by (simp_all add: lst_or_eq_default)
    show ?thesis
    proof (cases bs)
      case Nil
      then have e: "vmr_tail a = r" "v_next v = NULL" using d(4) vn snoc by simp_all
      let ?v = "v\<lparr>v_refs := v_refs v - 1\<rparr>"
      let ?j = "k\<lparr>v_next := NULL\<rparr>"
      let ?m1 = "m\<lparr>a_vmrs := (a_vmrs m)(y \<mapsto> ?j, r \<mapsto> ?v)\<rparr>"
      let ?k = "?j\<lparr>v_refs := (if as' = [] then v_refs k - 1 else v_refs k)\<rparr>"
      let ?a2 = "a\<lparr>vmr_tail := y\<rparr>"
      let ?m2 = "m\<lparr>a_vmrs := (a_vmrs m)(y \<mapsto> ?k, r \<mapsto> ?v), a_maps := (a_maps m)(mp \<mapsto> ?a2)\<rparr>"
      have 1: "remove_links r m = Some ?m1" using remove_links_exec [OF r v, of k undefined] e h k(1) y(1,2) by simp
      have 2: "remove_head mp r ?m1 = Some ?m1"
        using remove_head_exec(1) [of mp ?m1 a r ?v NULL] d(2,6) r e h by simp
      have 3: "remove_tail mp r ?m1 = Some ?m2"
        using remove_tail_exec(2) [of mp ?m1 a r ?v y ?j] d(2,6) r e h y(1,2)
        by (cases "as' = []") (simp_all add: vmr_order(4) fun_upd_twist)
      have a: "a\<lparr>vmr_head := fst_or y as', vmr_tail := y, mm_refs := i\<rparr> = a\<lparr>vmr_tail := y, mm_refs := i\<rparr>" for i
        using h(3) by simp
      show ?thesis
        using rest [OF _ 1 2 3, of ?v ?a2] Nil snoc k(1) y(2) by (simp add: cut_out_def Let_def a)
    next
      case (Cons z bs')
      with nxt obtain j where j: "a_vmrs m z = Some j" by blast
      have z: "z \<noteq> NULL" "z \<noteq> r" "z \<noteq> y" "r \<notin> set bs'" using dist Cons snoc by auto
      have "lst_or z bs' \<noteq> r" using z(2,4) lst_or_in [of bs' z] by (cases "bs' = []") auto
      then have e: "vmr_tail a = lst_or z bs'" "vmr_tail a \<noteq> r" "v_next v = z"
        using d(4) Cons snoc vn by (simp_all add: lst_or_append)
      let ?v = "v\<lparr>v_refs := v_refs v - 1 - 1\<rparr>"
      let ?m1 = "m\<lparr>a_vmrs := (a_vmrs m)(y \<mapsto> k\<lparr>v_next := z\<rparr>, z \<mapsto> j\<lparr>v_prev := y\<rparr>, r \<mapsto> ?v)\<rparr>"
      have 1: "remove_links r m = Some ?m1"
        using remove_links_exec [OF r v, of k j] e h k(1) j y(1,2) z(1-3) by simp
      have 2: "remove_head mp r ?m1 = Some ?m1"
        using remove_head_exec(1) [of mp ?m1 a r ?v z "j\<lparr>v_prev := y\<rparr>"] d(2,6) r e h z(2) by simp
      have 3: "remove_tail mp r ?m1 = Some ?m1"
        using remove_tail_exec(1) [of mp ?m1 a r ?v y "k\<lparr>v_next := z\<rparr>"] d(2,6) r e h z(3) y(2) by simp
      have a: "a\<lparr>vmr_head := fst_or y as', vmr_tail := lst_or z bs', mm_refs := i\<rparr> = a\<lparr>mm_refs := i\<rparr>" for i
        using h(3) e(1) by simp
      have f: "lst_or NULL (as @ bs) = lst_or z bs'" using snoc Cons by (simp add: lst_or_append)
      show ?thesis
        using rest [OF _ 1 2 3, of ?v a] Cons snoc k(1) j z(3) d(6) f by (simp add: cut_out_def Let_def a)
    qed
  qed
qed


text \<open>\<^verbatim>\<open>mmap_remove\<close> takes the region out and leaves the others as they are.\<close>

lemma mmap_remove_ok:
  assumes rep: "mm_rep cpu m mp (as @ r # bs) ss"
  shows "\<exists>m'. mmap_remove cpu mp r m = Some (0, m') \<and>
    mm_rep cpu m' mp (as @ bs) (map (span_of m) (as @ bs)) \<and> mm_keep (set (as @ r # bs)) mp m m' \<and>
    a_log m' = a_log m @ [paging_unmap_mapped (v_start (the (a_vmrs m r))) (vmr_size (the (a_vmrs m r)))]"
proof -
  from rep obtain a where sh: "mm_shape cpu m mp a (as @ r # bs)" and ss: "spans_ok (map (span_of m) (as @ r # bs))"
    by (auto simp: mm_rep_def)
  from mm_shape_live [OF sh, of r] obtain v where v: "a_vmrs m r = Some v" by auto
  note co = cut_out_ok [OF sh v]
  let ?c = "cut_out m mp a r v as bs"
  let ?m = "freed r (logged (paging_unmap_mapped (v_start v) (vmr_size v)) ?c)"
  from co(1) obtain a' where a': "mm_shape cpu ?c mp a' (as @ bs)" by blast
  have rn: "r \<notin> set (as @ bs)" using sh by (auto simp: mm_shape_def dlist_def)
  have h: "a_vmrs ?m = (a_vmrs ?c)(r := None) \<or> a_vmrs ?m = a_vmrs ?c" "a_maps ?m = a_maps ?c"
    "a_kmalloc ?m = a_kmalloc ?c" "a_log ?m = a_log ?c @ [paging_unmap_mapped (v_start v) (vmr_size v)]"
    by (auto simp: freed_def)
  have "rlist (a_vmrs ?m) (as @ bs) = rlist (a_vmrs ?c) (as @ bs)" using h(1) rn by (auto simp: dlist_upd)
  then have "mm_shape cpu ?m mp a' (as @ bs)" using a' h(2) by (simp add: mm_shape_def)
  moreover have "span_of ?m x = span_of m x" if "x \<in> set (as @ bs)" for x
  proof -
    have "a_vmrs ?m x = a_vmrs ?c x" using h(1) rn that by auto
    then show ?thesis using co(2) that by auto
  qed
  then have "map (span_of ?m) (as @ bs) = map (span_of m) (as @ bs)" by (intro map_cong) auto
  moreover have "spans_ok (map (span_of m) (as @ bs))" using ss by (auto simp: spans_ok_append)
  ultimately have "mm_rep cpu ?m mp (as @ bs) (map (span_of m) (as @ bs))" unfolding mm_rep_def by blast
  moreover have "mm_keep (set (as @ r # bs)) mp m ?m" using co(3) h by (auto simp: mm_keep_def)
  ultimately show ?thesis using mmap_remove_exec [OF sh v] h(4) co(4) v by auto
qed


section \<open>Unmapping a range\<close>

definition in_range :: "u32 \<Rightarrow> u32 \<Rightarrow> u32 \<Rightarrow> bool" where
  "in_range start len a \<longleftrightarrow> start \<le> a \<and> unat a < unat start + unat len"

text \<open>The space without a range.\<close>

definition cut_space :: "u32 \<Rightarrow> u32 \<Rightarrow> (u32 \<Rightarrow> u32 option) \<Rightarrow> u32 \<Rightarrow> u32 option" where
  "cut_space start len f a = (if in_range start len a then None else f a)"

lemma mm_rep_respan:
  assumes "mm_rep cpu m mp (as @ r # bs) ss" and "a_vmrs m r = Some v" and "v_next v' = v_next v" and "v_prev v' = v_prev v"
    and "spans_ok (map (span_of m) as @ vspan v' # map (span_of m) bs)"
  shows "mm_rep cpu (m\<lparr>a_vmrs := (a_vmrs m)(r \<mapsto> v')\<rparr>) mp (as @ r # bs) (map (span_of m) as @ vspan v' # map (span_of m) bs)"
proof -
  let ?m = "m\<lparr>a_vmrs := (a_vmrs m)(r \<mapsto> v')\<rparr>"
  from assms(1) obtain a where sh: "mm_shape cpu m mp a (as @ r # bs)" by (auto simp: mm_rep_def)
  then have rn: "r \<notin> set as" "r \<notin> set bs" by (auto simp: mm_shape_def dlist_def)
  have "map_option v_next (a_vmrs ?m y) = map_option v_next (a_vmrs m y) \<and>
      map_option v_prev (a_vmrs ?m y) = map_option v_prev (a_vmrs m y)" for y
    using assms(2-4) by simp
  then have "rlist (a_vmrs ?m) (as @ r # bs) = rlist (a_vmrs m) (as @ r # bs)" by (intro dlist_links) auto
  then have "mm_shape cpu ?m mp a (as @ r # bs)" using sh by (simp add: mm_shape_def)
  moreover have "map (span_of ?m) as = map (span_of m) as" "map (span_of ?m) bs = map (span_of m) bs"
    using rn by (auto intro!: map_cong)
  ultimately show ?thesis using assms(5) by (auto simp: mm_rep_def)
qed

lemma mmap_find_exact_ok:
  assumes "mm_rep cpu m mp xs ss"
  shows "space ss a = None \<Longrightarrow> mmap_find_exact cpu mp a e m = Some NULL"
    and "xs = as @ x # bs \<Longrightarrow> inside a (span_of m x) \<Longrightarrow>
      mmap_find_exact cpu mp a e m = Some (if a = sp_start (span_of m x) \<and> e = sp_end (span_of m x) then x else NULL)"
proof -
  from mm_rep_locked [OF assms] obtain q where q: "mp \<noteq> NULL" "mmap_assert_locked cpu mp m = Some q" by blast
  show "mmap_find_exact cpu mp a e m = Some NULL" if "space ss a = None"
    using q mmap_find_None [OF assms that] by (simp add: mmap_find_exact_def)
  show "mmap_find_exact cpu mp a e m = Some (if a = sp_start (span_of m x) \<and> e = sp_end (span_of m x) then x else NULL)"
    if x: "xs = as @ x # bs" "inside a (span_of m x)"
  proof -
    from mm_rep_live [OF assms, of x] x(1) obtain v where v: "x \<noteq> NULL" "a_vmrs m x = Some v" by auto
    have "mmap_find cpu mp a m = Some x" using mmap_find_Some assms x by blast
    with q v show ?thesis by (auto simp: mmap_find_exact_def deref_nn)
  qed
qed

text \<open>Sizes as natural numbers.\<close>

lemma unat_vmr_size:
  assumes "span_ok (vspan v)"
  shows "unat (vmr_size v) = unat (v_end v) - unat (v_start v) + 1"
    and "unat (vmr_upper_bound v) = unat (v_end v) + 1"
proof -
  have b: "unat (v_start v) \<le> unat (v_end v)" "unat (v_end v) \<le> 0xBFFFFFFF"
    using assms by (auto simp: span_ok_def word_le_nat_alt)
  then have "unat (v_end v - v_start v) = unat (v_end v) - unat (v_start v)"
    by (simp add: unat_sub word_le_nat_alt)
  then show "unat (vmr_size v) = unat (v_end v) - unat (v_start v) + 1"
    unfolding vmr_size_def using b by (subst unat_add_less) simp_all
  show "unat (vmr_upper_bound v) = unat (v_end v) + 1"
    unfolding vmr_upper_bound_def using b by (subst unat_add_less) simp_all
qed

lemma unat_range_end:
  assumes "len \<noteq> 0" and "unat start + unat len \<le> 0xC0000000"
  shows "unat (start + len - 1 :: u32) = unat start + unat len - 1"
proof -
  have "0 < unat len" using assms(1) by (simp add: unat_gt_0)
  moreover have s: "unat (start + len) = unat start + unat len" using assms(2) by (intro unat_add_less) simp
  ultimately have "1 \<le> start + len" by (simp add: word_le_nat_alt)
  with s show ?thesis by (simp add: unat_sub)
qed

lemma unat_hole_end:
  assumes "spans_ok ws" shows "unat (hole_end ws) \<le> 0xC0000000"
proof (cases ws)
  case (Cons t ts)
  then have "sp_start t \<le> mmap_limit" using assms by (auto simp: span_ok_def)
  then show ?thesis using Cons by (simp add: hole_end_def word_le_nat_alt)
qed (simp add: hole_end_def)


text \<open>No span begins below \<open>start\<close> and reaches it. The loop keeps this.\<close>

definition clear_start :: "u32 \<Rightarrow> span list \<Rightarrow> bool" where
  "clear_start start ss \<longleftrightarrow> (\<forall>s \<in> set ss. \<not> (sp_start s < start \<and> start \<le> sp_end s))"

definition unmapped :: "ptr \<Rightarrow> ptr \<Rightarrow> u32 \<Rightarrow> u32 \<Rightarrow> amem \<Rightarrow> ptr list \<Rightarrow> span list \<Rightarrow> amem \<Rightarrow> bool" where
  "unmapped cpu mp start len m xs ss m' \<longleftrightarrow> (\<exists>xs' ss'. mm_rep cpu m' mp xs' ss' \<and>
    space ss' = cut_space start len (space ss) \<and> mm_keep (set xs) mp m m' \<and> set xs' \<subseteq> set xs)"

lemma cut_space_0 [simp]: "cut_space start 0 f = f"
  by (rule ext) (auto simp: cut_space_def in_range_def word_le_nat_alt)

text \<open>Composition of two steps.\<close>

lemma unmapped_step:
  assumes "unmapped cpu mp start' len' m1 xs1 ss1 m'" and "mm_keep (set xs) mp m m1" and "set xs1 \<subseteq> set xs"
    and "cut_space start' len' (space ss1) = cut_space start len (space ss)"
  shows "unmapped cpu mp start len m xs ss m'"
proof -
  from assms(1) obtain xs' ss' where x: "mm_rep cpu m' mp xs' ss'" "space ss' = cut_space start' len' (space ss1)"
    "mm_keep (set xs1) mp m1 m'" "set xs' \<subseteq> set xs1" by (auto simp: unmapped_def)
  have "mm_keep (set xs) mp m m'"
    using mm_keep_trans [OF assms(2) mm_keep_mono [OF x(3) assms(3)]] .
  with x assms(3,4) show ?thesis by (auto simp: unmapped_def)
qed

lemma space_removed:
  assumes "mm_rep cpu m mp (as @ x # bs) ss"
  shows "space (map (span_of m) (as @ bs)) a = (if inside a (span_of m x) then None else space ss a)"
proof -
  have ss: "ss = map (span_of m) as @ span_of m x # map (span_of m) bs" "spans_ok ss" using assms by (auto simp: mm_rep_def)
  then show ?thesis
    using space_insert [of "map (span_of m) as" "span_of m x" "map (span_of m) bs" a]
      space_None_insert [of "map (span_of m) as" "span_of m x" "map (span_of m) bs" a] by auto
qed

lemma clear_start_removed: "clear_start s (map f (as @ x # bs)) \<Longrightarrow> clear_start s (map f (as @ bs))"
  by (auto simp: clear_start_def)

lemma clear_start_unmapped: "space ss a = None \<Longrightarrow> clear_start a ss"
  by (fastforce simp: clear_start_def space_None inside_def)

lemma unmap_hole:
  assumes rep: "mm_rep cpu m mp xs ss" and free: "space ss start = None" and len: "len \<noteq> 0"
    and lim: "unat start + unat len \<le> 0xC0000000"
  obtains h where "h \<noteq> 0" and "h \<le> len" and "clear_start (start + h) ss"
    and "unmap_loop cpu mp start len m = unmap_loop cpu mp (start + h) (len - h) m"
    and "cut_space (start + h) (len - h) (space ss) = cut_space start len (space ss)"
proof -
  have ok: "spans_ok ss" using rep by (simp add: mm_rep_def)
  from free obtain us ws where w: "ss = us @ ws" "\<forall>s \<in> set us. sp_end s < start" "\<forall>s \<in> set ws. start < sp_start s"
    by (rule spans_split [OF ok])
  have pos: "0 < unat len" using len by (simp add: unat_gt_0)
  have slim: "start \<le> mmap_limit" using pos lim by (simp add: word_le_nat_alt)
  have okw: "spans_ok ws" using ok w(1) by (simp add: spans_ok_append)
  have lt: "start < hole_end ws"
    using w(3) slim by (cases ws) (auto simp: hole_end_def word_less_nat_alt word_le_nat_alt)
  have hu: "unat (hole_end ws - start) = unat (hole_end ws) - unat start" using lt by (simp add: unat_sub)
  define h where "h = (if hole_end ws - start > len then len else hole_end ws - start)"
  have h0: "hole_end ws - start \<noteq> 0" using lt by simp
  have h: "h \<noteq> 0" "h \<le> len" "h \<le> hole_end ws - start" using h0 len by (auto simp: h_def)
  have hs: "unat (start + h) = unat start + unat h"
    using h(2) lim by (intro unat_add_less) (simp add: word_le_nat_alt)
  have hl: "unat (len - h) = unat len - unat h" using h(2) by (simp add: unat_sub)
  have he: "unat start + unat h \<le> unat (hole_end ws)"
    using h(3) hu lt by (simp add: word_le_nat_alt word_less_nat_alt)
  have step: "unmap_loop cpu mp start len m = unmap_loop cpu mp (start + h) (len - h) m"
    using mmap_find_exact_ok(1) [OF rep free] mmap_find_None [OF rep free]
      mmap_holesize_hole [OF rep w slim] len h0
    by (subst unmap_loop.simps) (simp add: h_def)
  have "\<not> (sp_start s < start + h \<and> start + h \<le> sp_end s)" if "s \<in> set ss" for s
  proof (cases "s \<in> set us")
    case True
    then have "sp_end s < start" using w(2) by blast
    then show ?thesis using hs by (auto simp: word_le_nat_alt word_less_nat_alt)
  next
    case False
    then have "s \<in> set ws" using that w(1) by simp
    then obtain t ts where ws: "ws = t # ts" by (cases ws) auto
    then have "t = s \<or> before t s" "span_ok t" using okw \<open>s \<in> set ws\<close> by auto
    then have "hole_end ws \<le> sp_start s" using ws by (auto simp: hole_end_def before_def span_ok_def)
    then show ?thesis using he hs by (auto simp: word_le_nat_alt word_less_nat_alt)
  qed
  then have cl: "clear_start (start + h) ss" by (simp add: clear_start_def)
  have "cut_space (start + h) (len - h) (space ss) a = cut_space start len (space ss) a" for a
  proof (cases "start \<le> a \<and> a < start + h")
    case True
    then have "a < hole_end ws" using he hs by (simp add: word_less_nat_alt)
    then have "space ss a = None" using hole_free [of us ws start a] ok w True by simp
    then show ?thesis by (simp add: cut_space_def)
  next
    case False
    have "unat h \<le> unat len" using h(2) by (simp add: word_le_nat_alt)
    then have "in_range (start + h) (len - h) a = in_range start len a"
      using False hs hl by (auto simp: in_range_def word_le_nat_alt word_less_nat_alt)
    then show ?thesis by (simp add: cut_space_def)
  qed
  then show thesis using that [OF h(1,2) cl step] by blast
qed


text \<open>The steps at a region that begins at \<open>start\<close>.\<close>

lemma unmap_exact:
  assumes rep: "mm_rep cpu m mp (as @ x # bs) ss" and v: "a_vmrs m x = Some v" "v_start v = start" "v_end v = start + len - 1"
    and len: "len \<noteq> 0" and lim: "unat start + unat len \<le> 0xC0000000"
  obtains m1 where "mm_rep cpu m1 mp (as @ bs) (map (span_of m) (as @ bs))" and "mm_keep (set (as @ x # bs)) mp m m1"
    and "unmap_loop cpu mp start len m = unmap_loop cpu mp (start + len - 1) 1 m1"
    and "space (map (span_of m) (as @ bs)) (start + len - 1) = None"
    and "cut_space (start + len - 1) 1 (space (map (span_of m) (as @ bs))) = cut_space start len (space ss)"
proof -
  from mmap_remove_ok [OF rep] obtain m1 where m1: "mmap_remove cpu mp x m = Some (0, m1)"
    "mm_rep cpu m1 mp (as @ bs) (map (span_of m) (as @ bs))" "mm_keep (set (as @ x # bs)) mp m m1" by blast
  have x0: "x \<noteq> NULL" using mm_rep_live [OF rep, of x] by simp
  note eu = unat_range_end [OF len lim]
  have pos: "0 < unat len" using len by (simp add: unat_gt_0)
  have ins: "inside a (span_of m x) \<longleftrightarrow> in_range start len a" for a
    using v eu pos by (auto simp: inside_def in_range_def word_le_nat_alt)
  have "inside start (span_of m x)" using ins pos by (simp add: in_range_def)
  then have "mmap_find_exact cpu mp start (start + len - 1) m = Some x"
    using mmap_find_exact_ok(2) [OF rep refl] v by simp
  then have "unmap_loop cpu mp start len m = unmap_loop cpu mp (start + len - 1) 1 m1"
    using len x0 m1(1) by (subst unmap_loop.simps) (simp add: algebra_simps)
  moreover have "in_range start len (start + len - 1)" using eu pos by (simp add: in_range_def word_le_nat_alt)
  then have "space (map (span_of m) (as @ bs)) (start + len - 1) = None"
    using space_removed [OF rep, of "start + len - 1"] ins by simp
  moreover have "cut_space (start + len - 1) 1 (space (map (span_of m) (as @ bs))) a = cut_space start len (space ss) a" for a
  proof -
    have "in_range (start + len - 1) 1 a \<Longrightarrow> in_range start len a"
      using eu pos by (auto simp: in_range_def word_le_nat_alt)
    then show ?thesis using space_removed [OF rep, of a] ins [of a] by (auto simp: cut_space_def)
  qed
  ultimately show thesis using that m1(2,3) by blast
qed

lemma unmap_front:
  assumes rep: "mm_rep cpu m mp (as @ x # bs) ss" and v: "a_vmrs m x = Some v" "v_start v = start"
    and len: "len \<noteq> 0" and lim: "unat start + unat len \<le> 0xC0000000" and sz: "len < vmr_size v"
  obtains m1 ss1 where "unmap_loop cpu mp start len m = Some m1" and "mm_rep cpu m1 mp (as @ x # bs) ss1"
    and "mm_keep (set (as @ x # bs)) mp m m1" and "space ss1 = cut_space start len (space ss)"
proof -
  have ss: "ss = map (span_of m) as @ span_of m x # map (span_of m) bs" "spans_ok ss" using rep by (auto simp: mm_rep_def)
  have sv: "span_of m x = vspan v" using v(1) by simp
  have okv: "span_ok (vspan v)" using ss sv by (auto simp: spans_ok_append)
  have x0: "x \<noteq> NULL" using mm_rep_live [OF rep, of x] by simp
  have b: "unat start \<le> unat (v_end v)" "unat (v_end v) \<le> 0xBFFFFFFF"
    using okv v(2) by (auto simp: span_ok_def word_le_nat_alt)
  have su: "unat (start + len) = unat start + unat len" using lim by (intro unat_add_less) simp
  have le: "unat start + unat len \<le> unat (v_end v)"
    using sz unat_vmr_size(1) [OF okv] v(2) b by (simp add: word_less_nat_alt)
  let ?v = "v\<lparr>v_start := start + len\<rparr>"
  let ?m = "m\<lparr>a_vmrs := (a_vmrs m)(x \<mapsto> ?v)\<rparr>"
  let ?ss = "map (span_of m) as @ vspan ?v # map (span_of m) bs"
  have "spans_ok ?ss"
  proof -
    have "span_ok (vspan ?v)" using le b su by (simp add: span_ok_def word_le_nat_alt)
    moreover have "before s (vspan ?v)" if "before s (vspan v)" for s
      using that su v(2) by (simp add: before_def word_less_nat_alt)
    moreover have "before (vspan ?v) s = before (vspan v) s" for s by (simp add: before_def)
    ultimately show ?thesis using ss sv by (auto simp: spans_ok_append)
  qed
  note okn = this
  have rep1: "mm_rep cpu ?m mp (as @ x # bs) ?ss" using mm_rep_respan [OF rep v(1) _ _ okn] by simp
  have ins: "inside start (span_of m x)" using sv v(2) b by (simp add: inside_def word_le_nat_alt)
  have eu: "unat (start + len - 1) = unat start + unat len - 1" using unat_range_end [OF len lim] .
  have "v_end v \<noteq> start + len - 1" using le eu len by (auto simp: unat_gt_0 word_unat_eq_iff)
  then have fe: "mmap_find_exact cpu mp start (start + len - 1) m = Some NULL"
    using mmap_find_exact_ok(2) [OF rep refl ins] v by auto
  have f: "mmap_find cpu mp start m = Some x" using mmap_find_Some [OF rep ins] .
  have "unmap_loop cpu mp start 0 ?m = Some ?m" by (subst unmap_loop.simps) simp
  then have loop: "unmap_loop cpu mp start len m = Some ?m"
    using fe f x0 v len sz by (subst unmap_loop.simps) (simp add: mm_exec)
  have "space ?ss a = cut_space start len (space ss) a" for a
  proof -
    have "inside a (vspan ?v) \<longleftrightarrow> inside a (vspan v) \<and> \<not> in_range start len a"
      using su v(2) by (auto simp: inside_def in_range_def word_le_nat_alt)
    moreover have "in_range start len a \<Longrightarrow> inside a (vspan v)"
      using le v(2) by (auto simp: inside_def in_range_def word_le_nat_alt)
    ultimately show ?thesis
      using space_insert [OF okn, of a] space_insert [of "map (span_of m) as" "span_of m x" "map (span_of m) bs" a] ss sv
        space_None_insert [of "map (span_of m) as" "span_of m x" "map (span_of m) bs" a]
      by (auto simp: cut_space_def)
  qed
  moreover have "mm_keep (set (as @ x # bs)) mp m ?m" by (auto simp: mm_keep_def)
  ultimately show thesis using that loop rep1 by blast
qed

lemma unmap_whole:
  assumes rep: "mm_rep cpu m mp (as @ x # bs) ss" and v: "a_vmrs m x = Some v" "v_start v = start"
    and len: "len \<noteq> 0" and lim: "unat start + unat len \<le> 0xC0000000" and sz: "vmr_size v < len"
  obtains m1 where "mm_rep cpu m1 mp (as @ bs) (map (span_of m) (as @ bs))" and "mm_keep (set (as @ x # bs)) mp m m1"
    and "unmap_loop cpu mp start len m = unmap_loop cpu mp (vmr_upper_bound v) (len - vmr_size v) m1"
    and "cut_space (vmr_upper_bound v) (len - vmr_size v) (space (map (span_of m) (as @ bs))) = cut_space start len (space ss)"
    and "clear_start (vmr_upper_bound v) (map (span_of m) (as @ bs))"
    and "unat (vmr_upper_bound v) + unat (len - vmr_size v) = unat start + unat len"
proof -
  from mmap_remove_ok [OF rep] obtain m1 where m1: "mmap_remove cpu mp x m = Some (0, m1)"
    "mm_rep cpu m1 mp (as @ bs) (map (span_of m) (as @ bs))" "mm_keep (set (as @ x # bs)) mp m m1" by blast
  have ss: "ss = map (span_of m) as @ span_of m x # map (span_of m) bs" "spans_ok ss" using rep by (auto simp: mm_rep_def)
  have sv: "span_of m x = vspan v" using v(1) by simp
  have okv: "span_ok (vspan v)" using ss sv by (auto simp: spans_ok_append)
  have x0: "x \<noteq> NULL" using mm_rep_live [OF rep, of x] by simp
  have b: "unat start \<le> unat (v_end v)" "unat (v_end v) \<le> 0xBFFFFFFF"
    using okv v(2) by (auto simp: span_ok_def word_le_nat_alt)
  note sv2 = unat_vmr_size [OF okv]
  have lu: "unat (len - vmr_size v) = unat len - unat (vmr_size v)" using sz by (simp add: unat_sub)
  have eu: "unat (start + len - 1) = unat start + unat len - 1" using unat_range_end [OF len lim] .
  have szu: "unat (vmr_size v) < unat len" using sz by (simp add: word_less_nat_alt)
  have "v_end v \<noteq> start + len - 1"
  proof
    assume "v_end v = start + len - 1"
    then have "unat (v_end v) = unat start + unat len - 1" using eu by simp
    with sv2(1) szu v(2) b show False by simp
  qed
  then have fe: "mmap_find_exact cpu mp start (start + len - 1) m = Some NULL"
    using mmap_find_exact_ok(2) [OF rep refl, of start] v b by (auto simp: inside_def word_le_nat_alt)
  have ins: "inside start (span_of m x)" using sv v(2) b by (simp add: inside_def word_le_nat_alt)
  have f: "mmap_find cpu mp start m = Some x" using mmap_find_Some [OF rep ins] .
  have "\<not> len < vmr_size v" using sz by simp
  then have loop: "unmap_loop cpu mp start len m = unmap_loop cpu mp (vmr_upper_bound v) (len - vmr_size v) m1"
    using fe f x0 v len sz m1(1) by (subst unmap_loop.simps) (simp add: deref_nn)
  have sum: "unat (vmr_upper_bound v) + unat (len - vmr_size v) = unat start + unat len"
    using sv2 lu szu v(2) b by simp
  have "cut_space (vmr_upper_bound v) (len - vmr_size v) (space (map (span_of m) (as @ bs))) a = cut_space start len (space ss) a" for a
  proof -
    have "in_range start len a \<longleftrightarrow> inside a (span_of m x) \<or> in_range (vmr_upper_bound v) (len - vmr_size v) a"
      using sv sv2 sum v(2) b szu lu by (auto simp: in_range_def inside_def word_le_nat_alt)
    then show ?thesis using space_removed [OF rep, of a] by (auto simp: cut_space_def)
  qed
  moreover have "clear_start (vmr_upper_bound v) (map (span_of m) (as @ bs))"
  proof -
    have "\<not> (sp_start s < vmr_upper_bound v \<and> vmr_upper_bound v \<le> sp_end s)" if "s \<in> set (map (span_of m) (as @ bs))" for s
    proof -
      from that ss sv have "before s (vspan v) \<or> before (vspan v) s" by (auto simp: spans_ok_append)
      then show ?thesis using sv2(2) b v(2) by (auto simp: before_def word_le_nat_alt word_less_nat_alt)
    qed
    then show ?thesis by (simp add: clear_start_def)
  qed
  ultimately show thesis using that m1(2,3) loop sum by blast
qed


lemma unmap_loop_ok:
  assumes "mm_rep cpu m mp xs ss" and "clear_start start ss" and "unat start + unat len \<le> 0xC0000000"
  shows "\<exists>m'. unmap_loop cpu mp start len m = Some m' \<and> unmapped cpu mp start len m xs ss m'"
  using assms
proof (induction "2 * unat len + (if space ss start = None then 0 else 1 :: nat)" arbitrary: start len m xs ss rule: less_induct)
  case less
  note rep = less.prems(1) and cl = less.prems(2) and lim = less.prems(3)
  show ?case
  proof (cases "len = 0")
    case True
    then have "unmap_loop cpu mp start len m = Some m" by (subst unmap_loop.simps) simp
    with True rep show ?thesis by (auto simp: unmapped_def)
  next
    case len: False
    then have pos: "0 < unat len" by (simp add: unat_gt_0)
    show ?thesis
    proof (cases rule: mmap_find_space [OF rep, of start])
      case 1
      from unmap_hole [OF rep 1(1) len lim] obtain h where h: "h \<noteq> 0" "h \<le> len" "clear_start (start + h) ss"
        "unmap_loop cpu mp start len m = unmap_loop cpu mp (start + h) (len - h) m"
        "cut_space (start + h) (len - h) (space ss) = cut_space start len (space ss)" by metis
      have hp: "0 < unat h" "unat h \<le> unat len" using h(1,2) by (simp_all add: unat_gt_0 word_le_nat_alt)
      have hl: "unat (len - h) = unat len - unat h" using h(2) by (simp add: unat_sub)
      have hs: "unat (start + h) = unat start + unat h" using hp lim by (intro unat_add_less) simp
      have dec: "2 * unat (len - h) + (if space ss (start + h) = None then 0 else 1) <
          2 * unat len + (if space ss start = None then 0 else 1 :: nat)" using hp hl 1(1) by auto
      from less.hyps [OF dec rep h(3)] hp hl hs lim obtain m' where
        "unmap_loop cpu mp (start + h) (len - h) m = Some m'" "unmapped cpu mp (start + h) (len - h) m xs ss m'" by auto
      then show ?thesis using h(4) unmapped_step [OF _ mm_keep_refl subset_refl h(5)] by auto
    next
      case (2 as x bs)
      from mm_rep_live [OF rep, of x] 2(1) obtain v where v: "a_vmrs m x = Some v" by auto
      note rep' = rep [unfolded 2(1)]
      have "span_of m x \<in> set ss" using rep 2(1) by (auto simp: mm_rep_def)
      then have vs: "v_start v = start" using cl 2(2) v by (auto simp: clear_start_def inside_def)
      consider (exact) "v_end v = start + len - 1" | (front) "len < vmr_size v" | (whole) "vmr_size v < len"
      proof -
        have "vmr_size v = len \<Longrightarrow> v_end v = start + len - 1" using vs by (auto simp: vmr_size_def)
        then show thesis using that by (meson linorder_cases)
      qed
      then show ?thesis
      proof cases
        case exact
        from unmap_exact [OF rep' v vs exact len lim] obtain m1 where
          m1: "mm_rep cpu m1 mp (as @ bs) (map (span_of m) (as @ bs))" "mm_keep (set (as @ x # bs)) mp m m1"
            "unmap_loop cpu mp start len m = unmap_loop cpu mp (start + len - 1) 1 m1"
            "space (map (span_of m) (as @ bs)) (start + len - 1) = None"
            "cut_space (start + len - 1) 1 (space (map (span_of m) (as @ bs))) = cut_space start len (space ss)" by metis
        have "unat (start + len - 1) = unat start + unat len - 1" using unat_range_end [OF len lim] .
        moreover have dec: "2 * unat (1 :: u32) + (if space (map (span_of m) (as @ bs)) (start + len - 1) = None then 0 else 1) <
          2 * unat len + (if space ss start = None then 0 else 1 :: nat)" unfolding m1(4) using 2(5) pos by simp
        ultimately obtain m' where
          "unmap_loop cpu mp (start + len - 1) 1 m1 = Some m'"
          "unmapped cpu mp (start + len - 1) 1 m1 (as @ bs) (map (span_of m) (as @ bs)) m'"
          using less.hyps [OF _ m1(1) clear_start_unmapped [OF m1(4)], of 1] pos lim by auto
        moreover have "set (as @ bs) \<subseteq> set xs" using 2(1) by auto
        ultimately show ?thesis using m1(3) unmapped_step [OF _ _ _ m1(5), of cpu mp m1 "as @ bs" m' xs m] m1(2) 2(1) by auto
      next
        case front
        from unmap_front [OF rep' v vs len lim front] obtain m1 ss1 where
          "unmap_loop cpu mp start len m = Some m1" "mm_rep cpu m1 mp (as @ x # bs) ss1"
          "mm_keep (set (as @ x # bs)) mp m m1" "space ss1 = cut_space start len (space ss)" by metis
        then show ?thesis unfolding unmapped_def 2(1) by blast
      next
        case whole
        from unmap_whole [OF rep' v vs len lim whole] obtain m1 where
          m1: "mm_rep cpu m1 mp (as @ bs) (map (span_of m) (as @ bs))" "mm_keep (set (as @ x # bs)) mp m m1"
            "unmap_loop cpu mp start len m = unmap_loop cpu mp (vmr_upper_bound v) (len - vmr_size v) m1"
            "cut_space (vmr_upper_bound v) (len - vmr_size v) (space (map (span_of m) (as @ bs))) = cut_space start len (space ss)"
            "clear_start (vmr_upper_bound v) (map (span_of m) (as @ bs))"
            "unat (vmr_upper_bound v) + unat (len - vmr_size v) = unat start + unat len" by metis
        have "span_ok (vspan v)" using rep \<open>span_of m x \<in> set ss\<close> v by (auto simp: mm_rep_def dest: spans_okD)
        from unat_vmr_size(1) [OF this] have "0 < unat (vmr_size v)" by simp
        moreover have "unat (len - vmr_size v) = unat len - unat (vmr_size v)"
          using whole by (intro unat_sub) (simp add: word_le_nat_alt word_less_nat_alt)
        ultimately have "unat (len - vmr_size v) < unat len" using pos by simp
        then have dec: "2 * unat (len - vmr_size v) + (if space (map (span_of m) (as @ bs)) (vmr_upper_bound v) = None then 0 else 1) <
          2 * unat len + (if space ss start = None then 0 else 1 :: nat)" using 2(5) by auto
        from less.hyps [OF dec m1(1,5)] m1(6) lim obtain m' where
          "unmap_loop cpu mp (vmr_upper_bound v) (len - vmr_size v) m1 = Some m'"
          "unmapped cpu mp (vmr_upper_bound v) (len - vmr_size v) m1 (as @ bs) (map (span_of m) (as @ bs)) m'" by auto
        moreover have "set (as @ bs) \<subseteq> set xs" using 2(1) by auto
        ultimately show ?thesis using m1(3) unmapped_step [OF _ _ _ m1(4), of cpu mp m1 "as @ bs" m' xs m] m1(2) 2(1) by auto
      qed
    qed
  qed
qed


text \<open>A region that ends at \<open>start\<close> loses its last byte first.\<close>

lemma unmap_last_byte:
  assumes rep: "mm_rep cpu m mp (as @ x # bs) ss" and v: "a_vmrs m x = Some v" "v_end v = start" "v_start v < start"
    and len: "len \<noteq> 0"
  obtains m1 ss1 where "unmap_loop cpu mp start len m = unmap_loop cpu mp start len m1"
    and "mm_rep cpu m1 mp (as @ x # bs) ss1" and "mm_keep (set (as @ x # bs)) mp m m1" and "clear_start start ss1"
    and "cut_space start len (space ss1) = cut_space start len (space ss)"
proof -
  have ss: "ss = map (span_of m) as @ span_of m x # map (span_of m) bs" "spans_ok ss" using rep by (auto simp: mm_rep_def)
  have sv: "span_of m x = vspan v" using v(1) by simp
  have okv: "span_ok (vspan v)" using ss sv by (auto simp: spans_ok_append)
  have x0: "x \<noteq> NULL" using mm_rep_live [OF rep, of x] by simp
  have b: "unat (v_start v) < unat start" "unat start \<le> 0xBFFFFFFF"
    using okv v by (auto simp: span_ok_def word_le_nat_alt word_less_nat_alt)
  then have su: "unat (start - 1) = unat start - 1" by (intro unat_sub [THEN trans]) (simp_all add: word_le_nat_alt)
  let ?v = "v\<lparr>v_end := start - 1\<rparr>"
  let ?m = "m\<lparr>a_vmrs := (a_vmrs m)(x \<mapsto> ?v)\<rparr>"
  let ?ss = "map (span_of m) as @ vspan ?v # map (span_of m) bs"
  have okn: "spans_ok ?ss"
  proof -
    have "span_ok (vspan ?v)" using b su by (auto simp: span_ok_def word_le_nat_alt)
    moreover have "before (vspan ?v) s" if "before (vspan v) s" for s
      using that su v(2) by (simp add: before_def word_less_nat_alt)
    moreover have "before s (vspan ?v) = before s (vspan v)" for s by (simp add: before_def)
    ultimately show ?thesis using ss sv by (auto simp: spans_ok_append)
  qed
  have rep1: "mm_rep cpu ?m mp (as @ x # bs) ?ss" using mm_rep_respan [OF rep v(1) _ _ okn] by simp
  have ins: "inside start (span_of m x)" using sv v by (simp add: inside_def)
  have fe: "mmap_find_exact cpu mp start (start + len - 1) m = Some NULL"
    using mmap_find_exact_ok(2) [OF rep refl ins] v by auto
  have f: "mmap_find cpu mp start m = Some x" using mmap_find_Some [OF rep ins] .
  have "v_start v \<noteq> start" using v by auto
  then have loop: "unmap_loop cpu mp start len m = unmap_loop cpu mp start len ?m"
    by (subst unmap_loop.simps) (use fe f x0 v len in \<open>simp add: mm_exec\<close>)
  have cl: "clear_start start ?ss"
  proof -
    have "\<not> (sp_start s < start \<and> start \<le> sp_end s)" if "s \<in> set ?ss" for s
    proof -
      from that consider "s = vspan ?v" | "before s (vspan v)" | "before (vspan v) s"
        using ss sv by (auto simp: spans_ok_append)
      then show ?thesis using su b v(2) by cases (auto simp: before_def word_le_nat_alt word_less_nat_alt)
    qed
    then show ?thesis by (simp add: clear_start_def)
  qed
  have "cut_space start len (space ?ss) a = cut_space start len (space ss) a" for a
  proof (cases "in_range start len a")
    case False
    have "0 < unat len" using len by (simp add: unat_gt_0)
    with False have "a \<noteq> start" by (auto simp: in_range_def)
    then have "unat a \<noteq> unat start" by (simp add: word_unat_eq_iff)
    then have "inside a (vspan ?v) = inside a (vspan v)" using su b v(2) by (auto simp: inside_def word_le_nat_alt)
    then show ?thesis
      using space_insert [OF okn, of a] space_insert [of "map (span_of m) as" "span_of m x" "map (span_of m) bs" a] ss sv
      by (auto simp: cut_space_def)
  qed (simp add: cut_space_def)
  moreover have "mm_keep (set (as @ x # bs)) mp m ?m" by (auto simp: mm_keep_def)
  ultimately show thesis using that loop rep1 cl by blast
qed

text \<open>The condition under which \<^verbatim>\<open>mmap_unmap\<close> works: no region contains \<open>start\<close> strictly inside.\<close>

definition splits :: "u32 \<Rightarrow> span list \<Rightarrow> bool" where
  "splits start ss \<longleftrightarrow> (\<exists>s \<in> set ss. sp_start s < start \<and> start < sp_end s)"

lemma mmap_unmap_loop:
  assumes "mm_rep cpu m mp xs ss" and "len \<noteq> 0" and "unat start + unat len \<le> 0xC0000000"
  shows "mmap_unmap cpu mp start len m = map_option (Pair 0) (unmap_loop cpu mp start len m)"
proof -
  have "0 < unat len" using assms(2) by (simp add: unat_gt_0)
  then have "valid_addr (start + len - 1)"
    using unat_range_end [OF assms(2,3)] assms(3) by (simp add: valid_addr_def word_le_nat_alt)
  with mm_rep_locked [OF assms(1)] assms(2) show ?thesis
    by (cases "unmap_loop cpu mp start len m") (auto simp: mmap_unmap_def)
qed

lemma mmap_unmap_ok:
  assumes rep: "mm_rep cpu m mp xs ss" and len: "len \<noteq> 0" and lim: "unat start + unat len \<le> 0xC0000000"
    and ns: "\<not> splits start ss"
  shows "\<exists>m'. mmap_unmap cpu mp start len m = Some (0, m') \<and> unmapped cpu mp start len m xs ss m'"
proof (cases "clear_start start ss")
  case True
  from unmap_loop_ok [OF rep True lim] mmap_unmap_loop [OF rep len lim] show ?thesis by auto
next
  case False
  then obtain s where s: "s \<in> set ss" "sp_start s < start" "start \<le> sp_end s" by (auto simp: clear_start_def)
  then have e: "sp_end s = start" using ns by (auto simp: splits_def)
  from s(1) rep obtain x where x: "x \<in> set xs" "span_of m x = s" by (auto simp: mm_rep_def)
  then obtain as bs where xs: "xs = as @ x # bs" by (meson split_list)
  from mm_rep_live [OF rep x(1)] obtain v where v: "a_vmrs m x = Some v" by blast
  have "v_end v = start" "v_start v < start" using x(2) v e s(2) by auto
  from unmap_last_byte [OF rep [unfolded xs] v this len] obtain m1 ss1 where
    m1: "unmap_loop cpu mp start len m = unmap_loop cpu mp start len m1" "mm_rep cpu m1 mp (as @ x # bs) ss1"
      "mm_keep (set (as @ x # bs)) mp m m1" "clear_start start ss1"
      "cut_space start len (space ss1) = cut_space start len (space ss)" by metis
  from unmap_loop_ok [OF m1(2,4) lim] obtain m' where
    m': "unmap_loop cpu mp start len m1 = Some m'" "unmapped cpu mp start len m1 (as @ x # bs) ss1 m'" by blast
  have "unmapped cpu mp start len m xs ss m'"
    unfolding xs by (rule unmapped_step [OF m'(2) m1(3) subset_refl m1(5)])
  then show ?thesis using m1(1) m'(1) mmap_unmap_loop [OF rep len lim] by simp
qed

lemma mmap_unmap_crash:
  assumes rep: "mm_rep cpu m mp xs ss" and len: "len \<noteq> 0" and lim: "unat start + unat len \<le> 0xC0000000"
    and sp: "splits start ss"
  shows "mmap_unmap cpu mp start len m = None"
proof -
  from sp obtain s where s: "s \<in> set ss" "sp_start s < start" "start < sp_end s" by (auto simp: splits_def)
  from s(1) rep obtain x where x: "x \<in> set xs" "span_of m x = s" by (auto simp: mm_rep_def)
  then obtain as bs where xs: "xs = as @ x # bs" by (meson split_list)
  from mm_rep_live [OF rep x(1)] obtain v where v: "a_vmrs m x = Some v" "x \<noteq> NULL" by blast
  have vs: "v_start v < start" "start < v_end v" using x(2) v(1) s by auto
  have ins: "inside start (span_of m x)" using v(1) vs by (auto simp: inside_def)
  have "mmap_find_exact cpu mp start (start + len - 1) m = Some NULL"
    using mmap_find_exact_ok(2) [OF rep xs ins] v(1) vs by auto
  moreover have "mmap_find cpu mp start m = Some x" using mmap_find_Some rep ins unfolding xs by blast
  moreover have "vmr_split cpu x start False m = None"
    using v vs by (simp add: vmr_split_def vmr_can_split_def deref_nn)
  moreover have "v_start v \<noteq> start" "v_end v \<noteq> start" using vs by auto
  ultimately have "unmap_loop cpu mp start len m = None"
    using len v by (subst unmap_loop.simps) (simp add: deref_nn)
  then show ?thesis using mmap_unmap_loop [OF rep len lim] by simp
qed

end
