(* ===== verification/Mmap_Hole.thy ===== *)
theory Mmap_Hole
  imports Mmap_Unmap
begin

text \<open>
  The searches for a hole of an address space. The two list walks are equal to functions on the spans of
  the space, and what they find is free: \<open>fits ss sz a\<close> says that the \<open>sz\<close> bytes from \<open>a\<close> on are below the
  limit and not mapped. The search from the bottom is a first fit.
\<close>

definition fits :: "span list \<Rightarrow> u32 \<Rightarrow> u32 \<Rightarrow> bool" where
  "fits ss sz a \<longleftrightarrow> unat a + unat sz \<le> 0xC0000000 \<and> (\<forall>x. in_range a sz x \<longrightarrow> space ss x = None)"

lemma unat_limit: "unat mmap_limit = 0xBFFFFFFF" "unat (mmap_limit + 1) = 0xC0000000"
  by simp_all

lemma unat_hole_end_le: "spans_ok ss \<Longrightarrow> unat (hole_end ss) \<le> 0xC0000000"
  by (cases ss) (auto simp: hole_end_def span_ok_def word_le_nat_alt)

lemma fits_between:
  assumes "spans_ok (as @ bs)" and "\<forall>s \<in> set as. sp_end s < a" and "unat a + unat sz \<le> unat (hole_end bs)"
  shows "fits (as @ bs) sz a"
proof -
  have "unat (hole_end bs) \<le> 0xC0000000" using assms(1) unat_hole_end_le by (simp add: spans_ok_append)
  moreover have "space (as @ bs) x = None" if "in_range a sz x" for x
    by (rule hole_free [OF assms(1,2)]) (use that assms(3) in \<open>auto simp: in_range_def word_less_nat_alt\<close>)
  ultimately show ?thesis using assms(3) by (simp add: fits_def)
qed

lemma fits_above:
  assumes "fits ss sz b" and "t \<in> set ss" and "span_ok t" and "sz \<noteq> 0" and "unat (sp_start t) < unat b + unat sz"
  shows "sp_end t < b"
proof (rule ccontr)
  assume n: "\<not> sp_end t < b"
  have z: "0 < unat sz" using assms(4) by (simp add: unat_gt_0)
  have "\<not> inside x t" if "in_range b sz x" for x
    using assms(1,2) that by (auto simp: fits_def space_None)
  moreover have "in_range b sz (if b \<le> sp_start t then sp_start t else b)"
    using assms(5) z by (auto simp: in_range_def)
  ultimately show False using n assms(3) by (cases "b \<le> sp_start t") (fastforce simp: inside_def span_ok_def)+
qed

section \<open>The walks on spans\<close>

fun up_hole :: "u32 \<Rightarrow> span list \<Rightarrow> u32 option" where
  "up_hole sz [] = None"
| "up_hole sz [s] = (if mmap_limit - sp_end s \<ge> sz then Some (sp_end s + 1) else None)"
| "up_hole sz (s # t # ss) = (if sp_start t - (sp_end s + 1) \<ge> sz then Some (sp_end s + 1) else up_hole sz (t # ss))"

text \<open>The downward walk sees the spans in descending order.\<close>

fun down_hole :: "u32 \<Rightarrow> span list \<Rightarrow> u32 option" where
  "down_hole sz [] = None"
| "down_hole sz [s] = (if sp_start s - 1 > 0 \<and> sp_start s \<ge> sz then Some (sp_start s - sz) else None)"
| "down_hole sz (s # t # ss) = (if sp_start s - (sp_end t + 1) \<ge> sz then Some (sp_start s - sz) else down_hole sz (t # ss))"

lemma unat_end1: "span_ok s \<Longrightarrow> unat (sp_end s + 1) = unat (sp_end s) + 1"
  by (intro unat_add_lem [THEN iffD1, THEN trans]) (auto simp: span_ok_def word_le_nat_alt)

lemma unat_gap:
  assumes "before s t" and "span_ok s"
  shows "unat (sp_start t - (sp_end s + 1)) = unat (sp_start t) - (unat (sp_end s) + 1)"
  using assms unat_end1 [OF assms(2)] by (subst unat_sub) (auto simp: before_def word_le_nat_alt word_less_nat_alt)

lemma up_hole_fits:
  assumes "spans_ok (as @ s # bs)" and "sz \<noteq> 0"
  shows "case up_hole sz (s # bs) of
      Some a \<Rightarrow> fits (as @ s # bs) sz a \<and> (\<forall>b. sp_end s < b \<and> fits (as @ s # bs) sz b \<longrightarrow> a \<le> b)
    | None \<Rightarrow> (\<forall>b. sp_end s < b \<longrightarrow> \<not> fits (as @ s # bs) sz b)"
  using assms
proof (induction bs arbitrary: as s)
  case Nil
  then have s: "span_ok s" "\<forall>t \<in> set (as @ [s]). sp_end t < sp_end s + 1"
    using unat_end1 [of s] by (fastforce simp: spans_ok_append before_def span_ok_def word_less_nat_alt word_le_nat_alt)+
  have u: "unat (mmap_limit - sp_end s) = 0xBFFFFFFF - unat (sp_end s)"
    using s(1) by (subst unat_sub) (auto simp: span_ok_def)
  show ?case
  proof (cases "mmap_limit - sp_end s \<ge> sz")
    case True
    then have "fits (as @ [s]) sz (sp_end s + 1)"
      using fits_between [of "as @ [s]" "[]" "sp_end s + 1" sz] Nil.prems(1) s u unat_end1 [OF s(1)]
      by (auto simp: hole_end_def word_le_nat_alt span_ok_def)
    with True show ?thesis using s(1) by (auto simp: inc_le)
  next
    case False
    then show ?thesis using u by (auto simp: fits_def word_le_nat_alt word_less_nat_alt)
  qed
next
  case (Cons t bs)
  then have st: "span_ok s" "span_ok t" "before s t" "\<forall>r \<in> set (as @ [s]). sp_end r < sp_end s + 1"
    using unat_end1 [of s] by (fastforce simp: spans_ok_append before_def span_ok_def word_less_nat_alt word_le_nat_alt)+
  note u = unat_gap [OF st(3,1)]
  show ?case
  proof (cases "sp_start t - (sp_end s + 1) \<ge> sz")
    case True
    have "unat (sp_end s + 1) + unat sz \<le> unat (sp_start t)"
      using True u st(3) unat_end1 [OF st(1)] Cons.prems(2) by (auto simp: word_le_nat_alt before_def word_less_nat_alt)
    then have "fits (as @ s # t # bs) sz (sp_end s + 1)"
      using fits_between [of "as @ [s]" "t # bs" "sp_end s + 1" sz] Cons.prems(1) st by (simp add: hole_end_def)
    with True show ?thesis by (auto simp: inc_le)
  next
    case False
    have up: "sp_end t < b" if "sp_end s < b" "fits (as @ s # t # bs) sz b" for b
      using that(1) False u st(3) Cons.prems(2)
      by (intro fits_above [OF that(2) _ st(2)]) (auto simp: word_le_nat_alt before_def word_less_nat_alt)
    have w: "case up_hole sz (t # bs) of
        Some a \<Rightarrow> fits (as @ s # t # bs) sz a \<and> (\<forall>b. sp_end t < b \<and> fits (as @ s # t # bs) sz b \<longrightarrow> a \<le> b)
      | None \<Rightarrow> (\<forall>b. sp_end t < b \<longrightarrow> \<not> fits (as @ s # t # bs) sz b)"
      by (rule Cons.IH [of "as @ [s]" t, unfolded append_assoc append_Cons append_Nil, OF Cons.prems])
    have e: "up_hole sz (s # t # bs) = up_hole sz (t # bs)" using False by simp
    show ?thesis
    proof (cases "up_hole sz (t # bs)")
      case None
      with w up show ?thesis unfolding e by auto
    next
      case (Some a)
      with w up show ?thesis unfolding e by auto
    qed
  qed
qed

lemma fits_below:
  assumes "spans_ok (as @ s # bs)" and "\<forall>t \<in> set as. unat (sp_end t) + unat sz < unat (sp_start s)"
    and "unat sz \<le> unat (sp_start s)"
  shows "fits (as @ s # bs) sz (sp_start s - sz)"
proof (rule fits_between [OF assms(1)])
  have u: "unat (sp_start s - sz) = unat (sp_start s) - unat sz"
    using assms(3) by (intro unat_sub) (simp add: word_le_nat_alt)
  show "unat (sp_start s - sz) + unat sz \<le> unat (hole_end (s # bs))" using u assms(3) by (simp add: hole_end_def)
  show "\<forall>t \<in> set as. sp_end t < sp_start s - sz" using u assms(2) by (fastforce simp: word_less_nat_alt)
qed

lemma down_hole_fits:
  assumes "spans_ok (rev as @ bs)" and "down_hole sz as = Some a" and "sz \<noteq> 0"
  shows "fits (rev as @ bs) sz a"
  using assms
proof (induction sz as arbitrary: bs rule: down_hole.induct)
  case (2 sz s)
  then show ?case using fits_below [of "[]" s bs sz] by (auto simp: word_le_nat_alt split: if_splits)
next
  case (3 sz s t as)
  have st: "span_ok t" "before t s" "\<forall>r \<in> set (rev as). before r t" using "3.prems"(1) by (auto simp: spans_ok_append)
  show ?case
  proof (cases "sp_start s - (sp_end t + 1) \<ge> sz")
    case True
    then have k: "unat (sp_end t) + unat sz < unat (sp_start s)"
      using unat_gap [OF st(2,1)] st(2) "3.prems"(3) by (auto simp: word_le_nat_alt word_less_nat_alt before_def)
    then have "\<forall>r \<in> set (rev as @ [t]). unat (sp_end r) + unat sz < unat (sp_start s)"
      using st(1,3) by (fastforce simp: before_def span_ok_def word_le_nat_alt word_less_nat_alt)
    then show ?thesis using fits_below [of "rev as @ [t]" s bs sz] True k "3.prems" by simp
  next
    case False
    with "3.prems" show ?thesis using "3.IH" [of "s # bs"] by simp
  qed
qed simp


section \<open>The walks of the code\<close>

lemma mm_rep_node:
  assumes "mm_rep cpu m mp (as @ x # bs) ss"
  obtains v where "a_vmrs m x = Some v" "x \<noteq> NULL" "v_prev v = lst_or NULL as" "v_next v = fst_or NULL bs"
  using assms dlist_node [of v_next v_prev "a_vmrs m" as x bs] mm_rep_live [OF assms, of x]
  by (auto simp: mm_rep_def mm_shape_def)

lemma mmap_holesize_top:
  assumes rep: "mm_rep cpu m mp (as @ [x]) ss"
  shows "\<exists>err. mmap_holesize cpu mp (sp_end (span_of m x) + 1) m = Some (err, mmap_limit - sp_end (span_of m x))"
proof -
  have ss: "ss = map (span_of m) as @ [span_of m x]" "spans_ok ss" using rep by (auto simp: mm_rep_def)
  then have ok: "span_ok (span_of m x)" by (auto simp: spans_ok_append)
  have u: "unat (sp_end (span_of m x) + 1) = unat (sp_end (span_of m x)) + 1" by (rule unat_end1 [OF ok])
  show ?thesis
  proof (cases "sp_end (span_of m x) = mmap_limit")
    case True
    obtain a where "mm_shape cpu m mp a (as @ [x])" using rep by (auto simp: mm_rep_def)
    from mm_shapeD [OF this] True show ?thesis by (simp add: mmap_holesize_def)
  next
    case False
    then have lt: "sp_end (span_of m x) < mmap_limit" using ok by (auto simp: span_ok_def)
    have "\<forall>s \<in> set ss. sp_end s < sp_end (span_of m x) + 1"
      using ss u ok by (fastforce simp: spans_ok_append before_def span_ok_def word_less_nat_alt word_le_nat_alt)
    then have "mmap_holesize cpu mp (sp_end (span_of m x) + 1) m = Some (0, hole_end [] - (sp_end (span_of m x) + 1))"
      using lt u by (intro mmap_holesize_hole [OF rep, of ss]) (auto simp: word_le_nat_alt word_less_nat_alt)
    moreover have "hole_end [] - (sp_end (span_of m x) + 1) = mmap_limit - sp_end (span_of m x)"
      by (simp add: hole_end_def)
    ultimately show ?thesis by metis
  qed
qed

lemma hole_up_walk:
  assumes "mm_rep cpu m mp (as @ bs) ss"
  shows "hole_up cpu mp sz m (fst_or NULL bs) = Some (up_hole sz (map (span_of m) bs))"
  using assms
proof (induction bs arbitrary: as)
  case Nil
  show ?case by (subst hole_up.simps) simp
next
  case (Cons x bs)
  from mm_rep_node [OF Cons.prems] obtain v where v: "a_vmrs m x = Some v" "x \<noteq> NULL" "v_next v = fst_or NULL bs" by auto
  show ?case
  proof (cases bs)
    case Nil
    from mmap_holesize_top [of cpu m mp as x ss] Cons.prems Nil obtain err where
      "mmap_holesize cpu mp (v_end v + 1) m = Some (err, mmap_limit - v_end v)" using v(1) by auto
    then show ?thesis using Nil v by (subst hole_up.simps) (simp add: deref_nn vmr_upper_bound_def)
  next
    case (Cons y cs)
    with Cons.prems have "mm_rep cpu m mp ((as @ [x]) @ y # cs) ss" by simp
    from mm_rep_node [OF this] obtain w where w: "a_vmrs m y = Some w" "y \<noteq> NULL" by auto
    show ?thesis using Cons.IH [of "as @ [x]"] Cons.prems Cons v w
      by (subst hole_up.simps) (auto simp: deref_nn vmr_upper_bound_def)
  qed
qed

lemma hole_down_walk:
  assumes "mm_rep cpu m mp (rev as @ bs) ss"
  shows "hole_down sz m (fst_or NULL as) = Some (down_hole sz (map (span_of m) as))"
  using assms
proof (induction as arbitrary: bs)
  case Nil
  show ?case by (subst hole_down.simps) simp
next
  case (Cons x as)
  from mm_rep_node [of cpu m mp "rev as" x bs ss] Cons.prems obtain v where
    v: "a_vmrs m x = Some v" "x \<noteq> NULL" "v_prev v = fst_or NULL as" by (auto simp: fst_or_rev)
  show ?case
  proof (cases as)
    case Nil
    have "hole_down sz m NULL = Some None" by (subst hole_down.simps) simp
    then show ?thesis using Nil v by (subst hole_down.simps) (simp add: deref_nn vmr_lower_bound_def)
  next
    case (Cons y cs)
    with Cons.prems have "mm_rep cpu m mp (rev cs @ y # x # bs) ss" by simp
    from mm_rep_node [OF this] obtain w where w: "a_vmrs m y = Some w" "y \<noteq> NULL" by auto
    show ?thesis using Cons.IH [of "x # bs"] Cons.prems Cons v w
      by (subst hole_down.simps) (auto simp: deref_nn vmr_upper_bound_def)
  qed
qed


section \<open>Finding a hole\<close>

lemma mmap_holesize_fits:
  assumes rep: "mm_rep cpu m mp xs ss" and "sz \<noteq> 0"
  shows "\<exists>err h. mmap_holesize cpu mp a m = Some (err, h) \<and> (h \<ge> sz \<longleftrightarrow> fits ss sz a)"
proof (cases "a \<le> mmap_limit \<and> space ss a = None")
  case True
  have ok: "spans_ok ss" using rep by (simp add: mm_rep_def)
  with True obtain us ws where s: "ss = us @ ws" "\<forall>s \<in> set us. sp_end s < a" "\<forall>s \<in> set ws. a < sp_start s"
    using spans_split by metis
  have h: "mmap_holesize cpu mp a m = Some (0, hole_end ws - a)" using mmap_holesize_hole [OF rep s] True by simp
  have le: "a \<le> hole_end ws" using True s(3) by (cases ws) (auto simp: hole_end_def word_le_nat_alt word_less_nat_alt)
  then have u: "unat (hole_end ws - a) = unat (hole_end ws) - unat a" by (rule unat_sub)
  have "hole_end ws - a \<ge> sz \<longleftrightarrow> fits ss sz a"
  proof
    assume "sz \<le> hole_end ws - a"
    then show "fits ss sz a" unfolding s(1) using u le ok s by (intro fits_between) (auto simp: word_le_nat_alt)
  next
    assume f: "fits ss sz a"
    show "sz \<le> hole_end ws - a"
    proof (cases ws)
      case Nil
      then show ?thesis using f u le by (auto simp: fits_def hole_end_def word_le_nat_alt)
    next
      case (Cons t ts)
      then have "\<not> sp_end t < a" "span_ok t" "t \<in> set ss" using s ok by (auto simp: spans_ok_append span_ok_def)
      with fits_above [OF f _ _ assms(2), of t] have "unat a + unat sz \<le> unat (sp_start t)" by fastforce
      then show ?thesis using Cons u by (simp add: hole_end_def word_le_nat_alt)
    qed
  qed
  with h show ?thesis by blast
next
  case False
  have z: "0 < unat sz" using assms(2) by (simp add: unat_gt_0)
  have "\<not> fits ss sz a" using False z by (auto simp: fits_def in_range_def word_le_nat_alt)
  moreover obtain q where "mm_shape cpu m mp q xs" using rep by (auto simp: mm_rep_def)
  note q = mm_shapeD [OF this]
  have "mmap_holesize cpu mp a m = Some (- EINVAL, 0)"
  proof (cases "a \<le> mmap_limit")
    case True
    with False mmap_find_space [OF rep, of a] obtain x where "mmap_find cpu mp a m = Some x" "x \<noteq> NULL" by metis
    with True q show ?thesis by (simp add: mmap_holesize_def)
  qed (use q in \<open>simp add: mmap_holesize_def not_le\<close>)
  moreover have "\<not> sz \<le> 0" using assms(2) by simp
  ultimately show ?thesis by blast
qed

lemma find_hole_first_fit:
  assumes rep: "mm_rep cpu m mp xs ss" and sz: "sz \<noteq> 0"
  shows "(\<exists>a. mmap_find_hole cpu mp sz 0 m = Some (0, a) \<and> fits ss sz a \<and> (\<forall>b. fits ss sz b \<longrightarrow> a \<le> b)) \<or>
    mmap_find_hole cpu mp sz 0 m = Some (- ENOMEM, 0) \<and> (\<forall>b. \<not> fits ss sz b)"
proof -
  from rep obtain q where sh: "mm_shape cpu m mp q xs" and ss: "ss = map (span_of m) xs" "spans_ok ss"
    by (auto simp: mm_rep_def)
  note q = mm_shapeD [OF sh]
  from mmap_holesize_fits [OF rep sz, of 0] obtain err h where
    h: "mmap_holesize cpu mp 0 m = Some (err, h)" "h \<ge> sz \<longleftrightarrow> fits ss sz 0" by blast
  show ?thesis
  proof (cases "fits ss sz 0")
    case True
    then show ?thesis using h q sz by (simp add: mmap_find_hole_def)
  next
    case n0: False
    have hole: "mmap_find_hole cpu mp sz 0 m =
        Some (case up_hole sz ss of Some addr \<Rightarrow> (0, addr) | None \<Rightarrow> (- ENOMEM, 0))"
      using h n0 q sz hole_up_walk [of cpu m mp "[]" xs ss sz] rep ss by (simp add: mmap_find_hole_def)
    show ?thesis
    proof (cases ss)
      case Nil
      have "\<not> fits ss sz b" for b using n0 Nil by (auto simp: fits_def)
      then show ?thesis using hole Nil by simp
    next
      case (Cons s ts)
      have ok: "span_ok s" using ss(2) Cons by simp
      have up: "sp_end s < b" if "fits ss sz b" for b
      proof (rule fits_above [OF that _ ok sz])
        show "s \<in> set ss" using Cons by simp
        show "unat (sp_start s) < unat b + unat sz"
        proof (rule ccontr)
          assume "\<not> unat (sp_start s) < unat b + unat sz"
          then have "fits ([] @ s # ts) sz 0" using ss(2) Cons by (intro fits_between) (auto simp: hole_end_def)
          with n0 Cons show False by simp
        qed
      qed
      have w: "case up_hole sz ss of
          Some a \<Rightarrow> fits ss sz a \<and> (\<forall>b. sp_end s < b \<and> fits ss sz b \<longrightarrow> a \<le> b)
        | None \<Rightarrow> (\<forall>b. sp_end s < b \<longrightarrow> \<not> fits ss sz b)"
        by (rule up_hole_fits [of "[]" s ts sz, unfolded append_Nil, folded Cons, OF ss(2) sz])
      show ?thesis
      proof (cases "up_hole sz ss")
        case None
        with w up hole show ?thesis by fastforce
      next
        case (Some a)
        with w up hole show ?thesis by fastforce
      qed
    qed
  qed
qed

text \<open>The search from the top finds free space too.\<close>

lemma find_hole_fits:
  assumes rep: "mm_rep cpu m mp xs ss" and sz: "sz \<noteq> 0"
  shows "\<exists>err a. mmap_find_hole cpu mp sz whence m = Some (err, a) \<and> (err = 0 \<longrightarrow> fits ss sz a)"
proof -
  from rep obtain q where sh: "mm_shape cpu m mp q xs" and ss: "ss = map (span_of m) xs" "spans_ok ss"
    by (auto simp: mm_rep_def)
  note q = mm_shapeD [OF sh]
  consider "whence = 0" | "whence = 1" | "whence \<noteq> 0" "whence \<noteq> 1" by blast
  then show ?thesis
  proof cases
    case 1
    with find_hole_first_fit [OF rep sz] show ?thesis by auto
  next
    case 2
    from mmap_holesize_fits [OF rep sz, of "(mm_limit q + 1) - sz"] obtain err h where
      h: "mmap_holesize cpu mp ((mm_limit q + 1) - sz) m = Some (err, h)" "h \<ge> sz \<longleftrightarrow> fits ss sz ((mm_limit q + 1) - sz)" by blast
    moreover have "hole_down sz m (vmr_tail q) = Some (down_hole sz (rev ss))"
      using hole_down_walk [of cpu m mp "rev xs" "[]" ss sz] rep q ss by (simp add: rev_map)
    moreover have "fits ss sz a" if "down_hole sz (rev ss) = Some a" for a
      using down_hole_fits [of "rev ss" "[]" sz a] that ss(2) sz by simp
    ultimately show ?thesis using 2 q sz
      by (cases "sz \<le> h"; cases "down_hole sz (rev ss)") (simp_all add: mmap_find_hole_def)
  qed (use q sz in \<open>simp add: mmap_find_hole_def\<close>)
qed

text \<open>The region near an address is a region of the list or none.\<close>

lemma find_node_in:
  assumes "dseg nxt prv h p xs NULL"
  shows "\<exists>x. find_node nxt h P (fst_or NULL xs) = Some x \<and> x \<in> insert NULL (set xs)"
proof (cases "dropWhile (\<lambda>x. \<not> P x (the (h x))) xs")
  case Nil
  with find_node_dseg [OF assms, of P] show ?thesis by simp
next
  case (Cons y ys)
  then have "y \<in> set xs" by (metis list.set_intros(1) set_dropWhileD)
  with Cons find_node_dseg [OF assms, of P] show ?thesis by simp
qed

lemma fst_or_insert: "fst_or NULL xs \<in> insert NULL (set xs)" "lst_or NULL xs \<in> insert NULL (set xs)"
  by (cases xs; simp) (cases xs rule: rev_cases; simp)

lemma mmap_near:
  assumes rep: "mm_rep cpu m mp xs ss"
  shows "\<exists>r x. mmap_find_vmr_next cpu mp a m = Some (r, x) \<and> x \<in> insert NULL (set xs)"
    and "\<exists>r x. mmap_find_vmr_prev cpu mp a m = Some (r, x) \<and> x \<in> insert NULL (set xs)"
proof -
  from rep obtain q where sh: "mm_shape cpu m mp q xs" by (auto simp: mm_rep_def)
  note q = mm_shapeD [OF sh]
  have d: "dseg v_next v_prev (a_vmrs m) NULL xs NULL" "dseg v_prev v_next (a_vmrs m) NULL (rev xs) NULL"
    using sh by (simp_all add: mm_shape_def dlist_def dseg_rev)
  from find_node_in [OF d(1), of "\<lambda>_ v. a < v_start v"] find_node_in [OF d(2), of "\<lambda>_ v. v_end v < a"]
  obtain x y where x: "find_node v_next (a_vmrs m) (\<lambda>_ v. a < v_start v) (fst_or NULL xs) = Some x" "x \<in> insert NULL (set xs)"
    and y: "find_node v_prev (a_vmrs m) (\<lambda>_ v. v_end v < a) (lst_or NULL xs) = Some y" "y \<in> insert NULL (set xs)"
    by auto
  show "\<exists>r x. mmap_find_vmr_next cpu mp a m = Some (r, x) \<and> x \<in> insert NULL (set xs)"
  proof (cases rule: mmap_find_space [OF rep, of a])
    case 1
    then show ?thesis using x q by (simp add: mmap_find_vmr_next_def)
  next
    case (2 as z bs)
    from mm_rep_node [OF rep [unfolded 2(1)]] obtain v where "a_vmrs m z = Some v" "v_next v = fst_or NULL bs" by auto
    then show ?thesis using 2 q fst_or_insert(1) [of bs]
      by (auto simp: mmap_find_vmr_next_def deref_nn)
  qed
  show "\<exists>r x. mmap_find_vmr_prev cpu mp a m = Some (r, x) \<and> x \<in> insert NULL (set xs)"
  proof (cases rule: mmap_find_space [OF rep, of a])
    case 1
    then show ?thesis using y q by (simp add: mmap_find_vmr_prev_def)
  next
    case (2 as z bs)
    from mm_rep_node [OF rep [unfolded 2(1)]] obtain v where "a_vmrs m z = Some v" "v_prev v = lst_or NULL as" by auto
    then show ?thesis using 2 q fst_or_insert(2) [of as]
      by (auto simp: mmap_find_vmr_prev_def deref_nn)
  qed
qed


section \<open>Finding a hole near an address\<close>

text \<open>The gap between two neighbours, used from below and from above.\<close>

lemma gap_fits:
  assumes rep: "mm_rep cpu m mp (as @ y # x # bs) ss" and v: "a_vmrs m x = Some v" "a_vmrs m y = Some w"
    and gap: "v_start v - vmr_upper_bound w \<ge> sz" and sz: "sz \<noteq> 0"
  shows "fits ss sz (vmr_upper_bound w)" and "fits ss sz (v_start v - sz)"
proof -
  let ?as = "map (span_of m) as" and ?bs = "map (span_of m) bs"
  have ss: "ss = (?as @ [vspan w]) @ vspan v # ?bs" "spans_ok ss" using rep v by (auto simp: mm_rep_def)
  have st: "span_ok (vspan w)" "before (vspan w) (vspan v)" "\<forall>r \<in> set ?as. before r (vspan w)"
    using ss(2) unfolding ss(1) by (auto simp: spans_ok_append)
  have k: "unat (v_end w) + unat sz < unat (v_start v)"
    using gap unat_gap [OF st(2,1)] st(2) sz
    by (auto simp: word_le_nat_alt word_less_nat_alt before_def vmr_upper_bound_def)
  have all: "\<forall>r \<in> set (?as @ [vspan w]). unat (sp_end r) \<le> unat (v_end w)"
    using st(1,3) by (fastforce simp: before_def span_ok_def word_le_nat_alt word_less_nat_alt)
  have u: "unat (vmr_upper_bound w) = unat (v_end w) + 1" using unat_end1 [OF st(1)] by (simp add: vmr_upper_bound_def)
  show "fits ss sz (vmr_upper_bound w)" unfolding ss(1)
  proof (rule fits_between [OF ss(2) [unfolded ss(1)]])
    show "\<forall>s \<in> set (?as @ [vspan w]). sp_end s < vmr_upper_bound w" using all u by (auto simp: word_less_nat_alt)
    show "unat (vmr_upper_bound w) + unat sz \<le> unat (hole_end (vspan v # ?bs))" using k u by (simp add: hole_end_def)
  qed
  show "fits ss sz (v_start v - sz)" unfolding ss(1)
    using fits_below [OF ss(2) [unfolded ss(1)], of sz] all k by fastforce
qed

text \<open>A hole search is sound if it returns and what it finds is free.\<close>

definition sound_hole :: "span list \<Rightarrow> u32 \<Rightarrow> u32 option option \<Rightarrow> bool" where
  "sound_hole ss sz r \<longleftrightarrow> (\<exists>h. r = Some h \<and> (\<forall>a. h = Some a \<longrightarrow> fits ss sz a))"

lemma sound_hole_simps [simp]:
  "sound_hole ss sz (Some None)" "sound_hole ss sz (Some (Some a)) \<longleftrightarrow> fits ss sz a"
  by (simp_all add: sound_hole_def)

lemma hole_up_sound:
  assumes rep: "mm_rep cpu m mp (as @ bs) ss" and sz: "sz \<noteq> 0"
  shows "sound_hole ss sz (hole_up cpu mp sz m (fst_or NULL bs))"
proof (cases bs)
  case Nil
  with hole_up_walk [OF rep] show ?thesis by (simp add: sound_hole_def)
next
  case (Cons x cs)
  have ss: "ss = map (span_of m) as @ span_of m x # map (span_of m) cs" "spans_ok ss" using rep Cons by (auto simp: mm_rep_def)
  have "fits ss sz a" if "up_hole sz (map (span_of m) bs) = Some a" for a
    using up_hole_fits [OF ss(2) [unfolded ss(1)] sz] that Cons ss(1) by simp
  with hole_up_walk [OF rep] show ?thesis by (simp add: sound_hole_def)
qed

lemma hole_down_sound:
  assumes rep: "mm_rep cpu m mp (as @ bs) ss" and sz: "sz \<noteq> 0"
  shows "sound_hole ss sz (hole_down sz m (lst_or NULL as))"
proof -
  have ss: "ss = rev (map (span_of m) (rev as)) @ map (span_of m) bs" "spans_ok ss" using rep by (auto simp: mm_rep_def rev_map)
  have "fits ss sz a" if "down_hole sz (map (span_of m) (rev as)) = Some a" for a
    using down_hole_fits [OF ss(2) [unfolded ss(1)] that sz] ss(1) by simp
  with hole_down_walk [of cpu m mp "rev as" bs ss sz] rep show ?thesis by (simp add: sound_hole_def)
qed

lemma near_split:
  assumes "near \<in> insert NULL (set xs)" and "d \<in> insert NULL (set xs)"
  obtains "(if near \<noteq> NULL then near else d) = NULL"
  | as x bs where "xs = as @ x # bs" "(if near \<noteq> NULL then near else d) = x" "x \<noteq> NULL"
  using assms that by (cases "(if near \<noteq> NULL then near else d) = NULL") (auto split: if_splits dest!: split_list)

lemma holeat_start_sound:
  assumes rep: "mm_rep cpu m mp xs ss" and near: "near \<in> insert NULL (set xs)" and sz: "sz \<noteq> 0"
  shows "sound_hole ss sz (holeat_start cpu mp addr sz near m)"
proof -
  from rep obtain q where sh: "mm_shape cpu m mp q xs" by (auto simp: mm_rep_def)
  note q = mm_shapeD [OF sh]
  from mmap_holesize_fits [OF rep sz, of addr] obtain err h where
    h: "mmap_holesize cpu mp addr m = Some (err, h)" "h \<ge> sz \<longleftrightarrow> fits ss sz addr" by blast
  show ?thesis
  proof (cases "h \<ge> sz")
    case True
    then show ?thesis using h q by (simp add: holeat_start_def deref_nn)
  next
    case False
    from near fst_or_insert(1) show ?thesis
    proof (cases rule: near_split [of near xs "fst_or NULL xs"])
      case 1
      have "sound_hole ss sz (hole_up cpu mp sz m NULL)" using hole_up_sound [of cpu m mp xs "[]" ss sz] rep sz by simp
      then show ?thesis using h q False 1 by (cases "near = NULL") (simp_all add: holeat_start_def deref_nn)
    next
      case (2 as x bs)
      have up: "sound_hole ss sz (hole_up cpu mp sz m x)" using hole_up_sound [of cpu m mp as "x # bs" ss sz] rep sz 2 by simp
      from mm_rep_node [OF rep [unfolded 2(1)]] obtain v where
        v: "a_vmrs m x = Some v" "v_prev v = lst_or NULL as" by auto
      show ?thesis
      proof (cases as rule: rev_cases)
        case Nil
        then show ?thesis using h q False 2(2,3) v up by (cases "near = NULL") (simp_all add: holeat_start_def deref_nn)
      next
        case (snoc cs y)
        with rep 2(1) have rep': "mm_rep cpu m mp (cs @ y # x # bs) ss" by simp
        from mm_rep_node [OF rep'] obtain w where w: "a_vmrs m y = Some w" "y \<noteq> NULL" by auto
        show ?thesis using h q False 2(2,3) v up w snoc gap_fits(1) [OF rep' v(1) w(1) _ sz]
          by (cases "near = NULL") (simp_all add: holeat_start_def deref_nn)
      qed
    qed
  qed
qed

lemma top_fits:
  assumes rep: "mm_rep cpu m mp (as @ [x]) ss" and v: "a_vmrs m x = Some v" and top: "mmap_limit - v_end v \<ge> sz"
  shows "fits ss sz (vmr_upper_bound v + (mmap_limit - v_end v) - sz)"
proof -
  have ss: "ss = map (span_of m) as @ [vspan v]" "spans_ok ss" using rep v by (auto simp: mm_rep_def)
  then have ok: "span_ok (vspan v)" "\<forall>r \<in> set ss. unat (sp_end r) \<le> unat (v_end v)"
    by (fastforce simp: spans_ok_append before_def span_ok_def word_le_nat_alt word_less_nat_alt)+
  have "unat (mmap_limit - v_end v) = 0xBFFFFFFF - unat (v_end v)" using ok(1) by (subst unat_sub) (auto simp: span_ok_def)
  then have le: "unat sz + unat (v_end v) \<le> 0xBFFFFFFF" using top ok(1) by (auto simp: word_le_nat_alt span_ok_def)
  have u: "unat (mmap_limit + 1 - sz) = 0xC0000000 - unat sz"
    using le by (subst unat_sub) (auto simp: word_le_nat_alt)
  have e: "vmr_upper_bound v + (mmap_limit - v_end v) - sz = mmap_limit + 1 - sz" by (simp add: vmr_upper_bound_def)
  have "fits (ss @ []) sz (mmap_limit + 1 - sz)"
  proof (rule fits_between)
    show "\<forall>s \<in> set ss. sp_end s < mmap_limit + 1 - sz" using ok(2) u le by (fastforce simp: word_less_nat_alt)
    show "unat (mmap_limit + 1 - sz) + unat sz \<le> unat (hole_end [])" using u le by (simp add: hole_end_def)
  qed (use ss in simp)
  then show ?thesis unfolding e by simp
qed

lemma holeat_end_sound:
  assumes rep: "mm_rep cpu m mp xs ss" and near: "near \<in> insert NULL (set xs)" and sz: "sz \<noteq> 0"
  shows "sound_hole ss sz (holeat_end cpu mp sz near m)"
proof -
  from rep obtain q where sh: "mm_shape cpu m mp q xs" by (auto simp: mm_rep_def)
  note q = mm_shapeD [OF sh]
  from near fst_or_insert(2) show ?thesis
  proof (cases rule: near_split [of near xs "lst_or NULL xs"])
    case 1
    from mmap_holesize_fits [OF rep sz, of "(mm_limit q + 1) - sz"] obtain err h where
      h: "mmap_holesize cpu mp ((mm_limit q + 1) - sz) m = Some (err, h)" "h \<ge> sz \<longleftrightarrow> fits ss sz ((mm_limit q + 1) - sz)" by blast
    have "sound_hole ss sz (hole_down sz m NULL)" using hole_down_sound [of cpu m mp "[]" xs ss sz] rep sz by simp
    then show ?thesis using h q 1 by (cases "near = NULL") (simp_all add: holeat_end_def deref_nn)
  next
    case (2 as x bs)
    have down: "sound_hole ss sz (hole_down sz m x)" using hole_down_sound [of cpu m mp "as @ [x]" bs ss sz] rep sz 2 by simp
    from mm_rep_node [OF rep [unfolded 2(1)]] obtain v where
      v: "a_vmrs m x = Some v" "v_next v = fst_or NULL bs" by auto
    show ?thesis
    proof (cases bs)
      case Nil
      let ?top = "mmap_limit - v_end v"
      from mmap_holesize_top [of cpu m mp as x ss] rep 2(1) Nil v(1) obtain err where
        h: "mmap_holesize cpu mp (vmr_upper_bound v) m = Some (err, ?top)" by (auto simp: vmr_upper_bound_def)
      from mmap_holesize_fits [OF rep sz, of "vmr_upper_bound v"] h have f: "?top \<ge> sz \<longleftrightarrow> fits ss sz (vmr_upper_bound v)" by simp
      have g: "fits ss sz (vmr_upper_bound v + ?top - sz)" if "?top \<ge> sz"
        using top_fits [of cpu m mp as x ss v sz] rep 2(1) Nil v(1) that by simp
      have f': "mmap_limit - v_end v = sz \<Longrightarrow> fits ss sz (vmr_upper_bound v)" using f by simp
      have g': "sz < mmap_limit - v_end v \<Longrightarrow> fits ss sz (vmr_upper_bound v + (mmap_limit - v_end v) - sz)" using g by simp
      show ?thesis using h q 2(2,3) v down Nil f' g'
        by (cases "near = NULL") (simp_all add: holeat_end_def deref_nn)
    next
      case (Cons y cs)
      with rep 2(1) have rep': "mm_rep cpu m mp (as @ x # y # cs) ss" by simp
      then have "mm_rep cpu m mp ((as @ [x]) @ y # cs) ss" by simp
      from mm_rep_node [OF this] obtain w where w: "a_vmrs m y = Some w" "y \<noteq> NULL" by auto
      show ?thesis using q 2(2,3) v down w Cons gap_fits(2) [OF rep' w(1) v(1) _ sz]
        by (cases "near = NULL") (simp_all add: holeat_end_def deref_nn)
    qed
  qed
qed


lemma find_holeat_fits:
  assumes rep: "mm_rep cpu m mp xs ss" and sz: "sz \<noteq> 0"
  shows "\<exists>err a. mmap_find_holeat cpu mp addr sz whence m = Some (err, a) \<and> (err = 0 \<longrightarrow> fits ss sz a)"
proof -
  from mmap_near [OF rep, of addr] obtain r x r' x' where
    n: "mmap_find_vmr_next cpu mp addr m = Some (r, x)" "x \<in> insert NULL (set xs)"
      "mmap_find_vmr_prev cpu mp addr m = Some (r', x')" "x' \<in> insert NULL (set xs)" by blast
  define near where "near = (if addr = 0 then NULL else if whence = 0 then x else if whence = 1 then x' else NULL)"
  have near: "(if addr = 0 then Some NULL
            else if whence = 0 then map_option snd (mmap_find_vmr_next cpu mp addr m)
            else if whence = 1 then map_option snd (mmap_find_vmr_prev cpu mp addr m)
            else Some NULL) = Some near" "near \<in> insert NULL (set xs)" using n by (simp_all add: near_def)
  have "sound_hole ss sz (if whence = 0 then holeat_start cpu mp addr sz near m
      else if whence = 1 then holeat_end cpu mp sz near m else Some None)"
    using holeat_start_sound [OF rep near(2) sz] holeat_end_sound [OF rep near(2) sz] by simp
  then obtain h where h: "(if whence = 0 then holeat_start cpu mp addr sz near m
      else if whence = 1 then holeat_end cpu mp sz near m else Some None) = Some h" "\<forall>a. h = Some a \<longrightarrow> fits ss sz a"
    unfolding sound_hole_def by blast
  obtain q where "mmap_assert_locked cpu mp m = Some q" "mp \<noteq> NULL" using mm_rep_locked [OF rep] by blast
  then have "mmap_find_holeat cpu mp addr sz whence m =
      (case h of Some r \<Rightarrow> Some (0, r) | None \<Rightarrow> mmap_find_hole cpu mp sz whence m)"
    unfolding mmap_find_holeat_def near(1) using sz by (simp only: Option.bind.simps h(1) if_False) simp
  then show ?thesis using find_hole_fits [OF rep sz, of whence] h(2) by (cases h) simp_all
qed

end
