(* ===== verification/Mmap_Map.thy ===== *)
theory Mmap_Map
  imports Mmap_Hole
begin

text \<open>
  Mapping and protecting ranges of an address space. \<^verbatim>\<open>mmap_map_region\<close> without
  \<^verbatim>\<open>MAP_FIXED\<close> maps a free range with the flags asked for, \<^verbatim>\<open>mmap_protect\<close> changes
  the flags of exactly the range given. No region is ever writable and executable.
\<close>

section \<open>New regions\<close>

definition put_space :: "u32 \<Rightarrow> u32 \<Rightarrow> u32 \<Rightarrow> (u32 \<Rightarrow> u32 option) \<Rightarrow> u32 \<Rightarrow> u32 option" where
  "put_space start len fl f a = (if in_range start len a then Some fl else f a)"

lemma inside_in_range:
  assumes "len \<noteq> 0" and "unat start + unat len \<le> 0xC0000000"
  shows "inside a \<lparr>sp_start = start, sp_end = start + len - 1, sp_flags = fl\<rparr> \<longleftrightarrow> in_range start len a"
    and "span_ok \<lparr>sp_start = start, sp_end = start + len - 1, sp_flags = fl\<rparr>"
proof -
  have p: "0 < unat len" using assms(1) by (simp add: unat_gt_0)
  note u = unat_range_end [OF assms]
  show "inside a \<lparr>sp_start = start, sp_end = start + len - 1, sp_flags = fl\<rparr> \<longleftrightarrow> in_range start len a"
    using u p by (auto simp: inside_def in_range_def word_le_nat_alt)
  show "span_ok \<lparr>sp_start = start, sp_end = start + len - 1, sp_flags = fl\<rparr>"
    using u p assms(2) by (auto simp: span_ok_def word_le_nat_alt)
qed

text \<open>The effect of mapping a new region that fits.\<close>

lemma mapin_put:
  assumes rep: "mm_rep cpu m mp xs ss" and r: "r \<noteq> NULL" "r \<notin> set xs" "a_vmrs m r = Some v"
    and v: "v_end v = v_start v + len - 1" and len: "len \<noteq> 0" and fit: "fits ss len (v_start v)"
  shows "\<exists>m' xs' ss' v'. mmap_mapin cpu mp r m = Some (0, m') \<and> mm_rep cpu m' mp xs' ss' \<and> set xs' = insert r (set xs) \<and>
    space ss' = put_space (v_start v) len (v_flags v) (space ss) \<and> set ss' = insert (vspan v) (set ss) \<and>
    mm_keep (set (r # xs)) mp m m' \<and> a_vmrs m' r = Some v' \<and> v_start v' = v_start v \<and> v_refs v' = v_refs v + 2"
proof -
  have e: "vspan v = \<lparr>sp_start = v_start v, sp_end = v_start v + len - 1, sp_flags = v_flags v\<rparr>"
    using v by (simp add: vspan_def)
  have lim: "unat (v_start v) + unat len \<le> 0xC0000000" using fit by (simp add: fits_def)
  note io = inside_in_range [OF len lim, where fl = "v_flags v", folded e]
  from mmap_mapin_ok [OF rep r io(2)] fit io(1) obtain m' as bs v' where
    m': "mmap_mapin cpu mp r m = Some (0, m')" "xs = as @ bs"
      "mm_rep cpu m' mp (as @ r # bs) (map (span_of m) (as @ r # bs))" "mm_keep (set (r # xs)) mp m m'"
      "a_vmrs m' r = Some v'" "v_refs v' = v_refs v + 2" unfolding fits_def by blast
  have ss: "ss = map (span_of m) as @ map (span_of m) bs" using rep m'(2) by (simp add: mm_rep_def)
  have ok: "spans_ok (map (span_of m) as @ vspan v # map (span_of m) bs)" using m'(3) r(3) by (simp add: mm_rep_def)
  have "space (map (span_of m) (as @ r # bs)) a = put_space (v_start v) len (v_flags v) (space ss) a" for a
    using space_insert [OF ok, of a] io(1) ss r(3) by (simp add: put_space_def)
  then have "space (map (span_of m) (as @ r # bs)) = put_space (v_start v) len (v_flags v) (space ss)" by (rule ext)
  moreover have "v_start v' = v_start v"
  proof -
    have "span_of m' r = span_of m r" using m'(3) by (auto simp: mm_rep_def)
    then show ?thesis using m'(5) r(3) by (simp add: vspan_def)
  qed
  moreover have "set (map (span_of m) (as @ r # bs)) = insert (vspan v) (set ss)" using ss r(3) by auto
  moreover have "set (as @ r # bs) = insert r (set xs)" using m'(2) by auto
  ultimately show ?thesis using m' by blast
qed

section \<open>Mapping a range\<close>

text \<open>Kernel memory handed out for regions is not in use by the map.\<close>

definition fresh :: "amem \<Rightarrow> ptr list \<Rightarrow> bool" where
  "fresh m xs \<longleftrightarrow> distinct (filter (\<lambda>p. p \<noteq> NULL) (a_kmalloc m)) \<and> (\<forall>p \<in> set (a_kmalloc m). p \<notin> set xs)"

lemma fresh_tl:
  assumes "fresh m xs"
  shows "fresh (m\<lparr>a_kmalloc := tl (a_kmalloc m)\<rparr>) xs"
  using assms by (cases "a_kmalloc m") (auto simp: fresh_def split: if_splits)

lemma fresh_take:
  assumes "fresh m xs" and "a_kmalloc m = p # ps" and "p \<noteq> NULL" and "a_kmalloc m' = ps" and "set xs' \<subseteq> insert p (set xs)"
  shows "fresh m' xs'"
  using assms by (auto simp: fresh_def)

lemma fresh_keep: "fresh m xs \<Longrightarrow> a_kmalloc m' = a_kmalloc m \<Longrightarrow> set xs' \<subseteq> set xs \<Longrightarrow> fresh m' xs'"
  by (auto simp: fresh_def)

definition stack_len :: "amem \<Rightarrow> ptr \<Rightarrow> u32 \<Rightarrow> u32 \<Rightarrow> u32" where
  "stack_len m mp len flags = (if has flags MAP_STACK then len + mm_guard_len (the (a_maps m mp)) else len)"

lemma vmr_alloc_cases:
  obtains (fail) "vmr_alloc m = (- ENOMEM, NULL, m\<lparr>a_kmalloc := tl (a_kmalloc m)\<rparr>)"
  | (new) r where "r \<noteq> NULL" "a_kmalloc m = r # tl (a_kmalloc m)"
      "vmr_alloc m = (0, r, m\<lparr>a_kmalloc := tl (a_kmalloc m), a_vmrs := (a_vmrs m)(r \<mapsto> zero_vmr)\<rparr>)"
proof (cases "a_kmalloc m")
  case Nil
  then show thesis using fail by (simp add: vmr_alloc_def take_kmalloc_def)
next
  case (Cons r ks)
  then show thesis using fail new [of r] by (cases "r = NULL") (simp_all add: vmr_alloc_def take_kmalloc_def)
qed

lemma mm_rep_kmalloc [simp]: "mm_rep cpu (m\<lparr>a_kmalloc := ks\<rparr>) mp xs ss = mm_rep cpu m mp xs ss"
  by (simp add: mm_rep_def mm_shape_def)

text \<open>What a call of \<^verbatim>\<open>mmap_map_region\<close> does when it succeeds.\<close>

definition mapped :: "ptr \<Rightarrow> ptr \<Rightarrow> u32 \<Rightarrow> u32 \<Rightarrow> ptr list \<Rightarrow> span list \<Rightarrow> ptr \<Rightarrow> amem \<Rightarrow> bool" where
  "mapped cpu mp len fl xs ss r m' \<longleftrightarrow> (\<exists>xs' ss' v. mm_rep cpu m' mp xs' ss' \<and> set xs' = insert r (set xs) \<and>
    a_vmrs m' r = Some v \<and> fits ss len (v_start v) \<and> space ss' = put_space (v_start v) len fl (space ss) \<and>
    set ss' = insert \<lparr>sp_start = v_start v, sp_end = v_start v + len - 1, sp_flags = fl\<rparr> (set ss))"

lemma map_region_ok:
  assumes rep: "mm_rep cpu m mp xs ss" and fr: "fresh m xs" and nf: "\<not> has flags MAP_FIXED"
  shows "\<exists>err r m'. mmap_map_region cpu mp addr len prot flags True m = Some (err, r, m') \<and> fresh m' (if err = 0 then r # xs else xs) \<and>
    (if err = 0 then mapped cpu mp (stack_len m mp len flags) (region_flags prot flags) xs ss r m' \<and>
       map_args_error addr len prot flags = 0
     else mm_rep cpu m' mp xs ss)"
proof -
  from rep obtain q where sh: "mm_shape cpu m mp q xs" by (auto simp: mm_rep_def)
  note q = mm_shapeD [OF sh]
  show ?thesis
  proof (cases "len = 0 \<or> map_args_error addr len prot flags \<noteq> 0")
    case True
    then show ?thesis using q nf rep fr by (auto simp: mmap_map_region_def)
  next
    case False
    let ?len = "stack_len m mp len flags" and ?wh = "if has flags MAP_STACK then 1 else 0 :: int"
    have len: "(if has flags MAP_STACK then len + mm_guard_len q else len) = ?len" using q by (simp add: stack_len_def)
    have "\<exists>err a. mmap_find_holeat cpu mp addr ?len ?wh m = Some (err, a) \<and> (err = 0 \<longrightarrow> ?len \<noteq> 0 \<and> fits ss ?len a)"
      using find_holeat_fits [OF rep, of ?len addr ?wh] q by (cases "?len = 0") (auto simp: mmap_find_holeat_def)
    then obtain err a where h: "mmap_find_holeat cpu mp addr ?len ?wh m = Some (err, a)"
      "err = 0 \<longrightarrow> ?len \<noteq> 0 \<and> fits ss ?len a" by blast
    show ?thesis
    proof (cases "err = 0")
      case err: False
      then show ?thesis using False q nf rep fr h len by (auto simp: mmap_map_region_def)
    next
      case err: True
      show ?thesis
      proof (cases rule: vmr_alloc_cases [of m])
        case fail
        then show ?thesis using False q nf rep h len err fresh_tl [OF fr] by (auto simp: mmap_map_region_def)
      next
        case (new r)
        let ?fl = "region_flags prot flags"
        let ?v = "zero_vmr\<lparr>v_start := a, v_end := a + ?len - 1, v_flags := ?fl, v_vflags := region_vflags ?fl (mm_flags q)\<rparr>"
        let ?m = "m\<lparr>a_kmalloc := tl (a_kmalloc m), a_vmrs := (a_vmrs m)(r \<mapsto> ?v)\<rparr>"
        have rx: "r \<notin> set xs" using fr new(2) by (auto simp: fresh_def) (metis list.set_intros(1))
        have rep1: "mm_rep cpu ?m mp xs ss"
          using mm_rep_upd_other [of cpu "m\<lparr>a_kmalloc := tl (a_kmalloc m)\<rparr>" mp xs ss r "Some ?v"] rep rx by simp
        have e: "mmap_map_region cpu mp addr len prot flags True m =
            do { (err, m) \<leftarrow> mmap_mapin cpu mp r ?m;
                 if err \<noteq> 0 then do { m \<leftarrow> vmr_free r m; Some (err, NULL, m) } else Some (0, r, m) }"
          using False q nf h len err new by (simp add: mmap_map_region_def mm_exec zero_vmr_def)
        have "fits ss ?len (v_start ?v)" "?len \<noteq> 0" using h(2) err by simp_all
        with mapin_put [OF rep1 new(1) rx, of ?v ?len] obtain m' xs' ss' v' where
          m': "mmap_mapin cpu mp r ?m = Some (0, m')" "mm_rep cpu m' mp xs' ss'" "set xs' = insert r (set xs)"
            "space ss' = put_space a ?len ?fl (space ss)" "set ss' = insert (vspan ?v) (set ss)"
            "mm_keep (set (r # xs)) mp ?m m'" "a_vmrs m' r = Some v'" "v_start v' = a" by auto
        have "mapped cpu mp ?len ?fl xs ss r m'"
          unfolding mapped_def using m' h(2) err by (intro exI [of _ xs'] exI [of _ ss'] exI [of _ v']) (auto simp: vspan_def)
        moreover have "fresh m' (r # xs)"
          by (rule fresh_take [OF fr new(2,1)]) (use m'(6) in \<open>auto simp: mm_keep_def\<close>)
        ultimately show ?thesis using e m'(1) False by simp
      qed
    qed
  qed
qed



section \<open>Cutting a region\<close>

text \<open>The region \<open>r\<close> shrinks to a part of itself.\<close>

lemma shrink:
  assumes rep: "mm_rep cpu m mp xs ss" and r: "r \<in> set xs" "a_vmrs m r = Some v"
    and v': "v_next v' = v_next v" "v_prev v' = v_prev v"
      "v_start v \<le> v_start v'" "v_start v' \<le> v_end v'" "v_end v' \<le> v_end v"
  shows "\<exists>ss'. mm_rep cpu (m\<lparr>a_vmrs := (a_vmrs m)(r \<mapsto> v')\<rparr>) mp xs ss' \<and>
    (\<forall>a. space ss' a = (if inside a (vspan v') then Some (v_flags v') else if inside a (vspan v) then None else space ss a)) \<and>
    (\<forall>a. inside a (vspan v) \<longrightarrow> space ss a = Some (v_flags v))"
proof -
  from r(1) obtain as bs where xs: "xs = as @ r # bs" by (meson split_list)
  let ?as = "map (span_of m) as" and ?bs = "map (span_of m) bs"
  have ss: "ss = ?as @ vspan v # ?bs" "spans_ok ss" using rep xs r(2) by (auto simp: mm_rep_def)
  have "before s (vspan v')" if "before s (vspan v)" for s using that v'(3) by (auto simp: before_def)
  moreover have "before (vspan v') s" if "before (vspan v) s" for s using that v'(5) by (auto simp: before_def)
  moreover have "span_ok (vspan v')" using ss v' by (auto simp: spans_ok_append span_ok_def)
  ultimately have ok: "spans_ok (?as @ vspan v' # ?bs)" using ss by (auto simp: spans_ok_append)
  have "space (?as @ ?bs) a = (if inside a (vspan v) then None else space ss a)" for a
    using space_insert [OF ss(2) [unfolded ss(1)], of a] space_None_insert [OF ss(2) [unfolded ss(1)], of a] ss(1) by simp
  then have "space (?as @ vspan v' # ?bs) a =
      (if inside a (vspan v') then Some (v_flags v') else if inside a (vspan v) then None else space ss a)" for a
    using space_insert [OF ok, of a] by simp
  moreover have "inside a (vspan v) \<Longrightarrow> space ss a = Some (v_flags v)" for a
    using space_insert [OF ss(2) [unfolded ss(1)], of a] ss(1) by simp
  ultimately show ?thesis using mm_rep_respan [OF rep [unfolded xs] r(2) v'(1,2) ok, folded xs] by blast
qed

text \<open>The state after a region was cut to a range, the rest of it being kept by new regions.\<close>

definition carved :: "ptr \<Rightarrow> ptr \<Rightarrow> ptr \<Rightarrow> u32 \<Rightarrow> u32 \<Rightarrow> vmr \<Rightarrow> span list \<Rightarrow> amem \<Rightarrow> bool" where
  "carved cpu mp r addr end v ss m' \<longleftrightarrow> (\<exists>xs' ss' w. mm_rep cpu m' mp xs' ss' \<and> r \<in> set xs' \<and> fresh m' xs' \<and> a_vmrs m' r = Some w \<and>
    v_start w = addr \<and> v_end w = end \<and> v_flags w = v_flags v \<and> space ss' = space ss)"

text \<open>A part of the region given to a new region.\<close>

lemma give_back:
  assumes rep: "mm_rep cpu m mp xs ss" and fr: "fresh m xs" and n: "n \<noteq> NULL" "n \<notin> set xs" "n \<notin> set (a_kmalloc m)" "a_vmrs m n = Some u"
    and u: "v_start u \<le> v_end u" "v_end u \<le> mmap_limit" and free: "\<And>a. inside a (vspan u) \<Longrightarrow> space ss a = None"
  shows "\<exists>m' xs' ss'. mmap_mapin cpu mp n m = Some (0, m') \<and> mm_rep cpu m' mp xs' ss' \<and> set xs' = insert n (set xs) \<and>
    fresh m' xs' \<and> a_kmalloc m' = a_kmalloc m \<and> (\<forall>x \<in> set xs. span_of m' x = span_of m x) \<and> (\<forall>x. x \<noteq> n \<longrightarrow> x \<notin> set xs \<longrightarrow> a_vmrs m' x = a_vmrs m x) \<and>
    (\<forall>a. space ss' a = (if inside a (vspan u) then Some (v_flags u) else space ss a))"
proof -
  have sok: "span_ok (vspan u)" using u by (simp add: span_ok_def)
  from mmap_mapin_ok [OF rep n(1,2,4) sok] free obtain m' as bs where
    m': "mmap_mapin cpu mp n m = Some (0, m')" "xs = as @ bs"
      "mm_rep cpu m' mp (as @ n # bs) (map (span_of m) (as @ n # bs))" "mm_keep (set (n # xs)) mp m m'" by blast
  have ss: "ss = map (span_of m) as @ map (span_of m) bs" using rep m'(2) by (simp add: mm_rep_def)
  have ok: "spans_ok (map (span_of m) as @ vspan u # map (span_of m) bs)" using m'(3) n(4) by (simp add: mm_rep_def)
  have "space (map (span_of m) (as @ n # bs)) a = (if inside a (vspan u) then Some (v_flags u) else space ss a)" for a
    using space_insert [OF ok, of a] ss n(4) by simp
  moreover have "\<forall>x \<in> set xs. span_of m' x = span_of m x" using m'(2,3) by (auto simp: mm_rep_def)
  moreover have "fresh m' (as @ n # bs)" using fr n(3) m'(2,4) by (auto simp: fresh_def mm_keep_def)
  moreover have "set (as @ n # bs) = insert n (set xs)" using m'(2) by auto
  ultimately show ?thesis using m'
    by (intro exI [of _ m'] exI [of _ "as @ n # bs"] exI [of _ "map (span_of m) (as @ n # bs)"]) (auto simp: mm_keep_def)
qed


lemma mm_rep_bounds:
  assumes "mm_rep cpu m mp xs ss" and "r \<in> set xs" and "a_vmrs m r = Some v"
  shows "v_start v \<le> v_end v" and "v_end v \<le> mmap_limit"
proof -
  have "span_of m r \<in> set ss" "spans_ok ss" using assms(1,2) by (auto simp: mm_rep_def)
  with spans_okD assms(3) show "v_start v \<le> v_end v" "v_end v \<le> mmap_limit" by (fastforce simp: span_ok_def)+
qed

lemma word_inc_le:
  assumes "x < (y :: u32)"
  shows "x + 1 \<le> y" "z < x + 1 \<longleftrightarrow> z \<le> x" "x + 1 \<le> z \<longleftrightarrow> x < z" "z \<le> x \<Longrightarrow> z \<le> x + 1"
proof -
  have "unat y < 2 ^ 32" using unsigned_less [of y] by simp
  then have "unat (x + 1) = unat x + 1"
    using assms by (intro unat_add_lem [THEN iffD1, THEN trans]) (auto simp: word_less_nat_alt)
  then show "x + 1 \<le> y" "z < x + 1 \<longleftrightarrow> z \<le> x" "x + 1 \<le> z \<longleftrightarrow> x < z" "z \<le> x \<Longrightarrow> z \<le> x + 1"
    using assms by (auto simp: word_le_nat_alt word_less_nat_alt)
qed

lemma word_dec_le:
  assumes "x < (y :: u32)"
  shows "x \<le> y - 1" "z \<le> y - 1 \<longleftrightarrow> z < y" "y - 1 < z \<longleftrightarrow> y \<le> z" "y \<le> z \<Longrightarrow> y - 1 \<le> z"
proof -
  have "unat (y - 1) = unat y - 1" using assms by (intro unat_minus_one) auto
  then show "x \<le> y - 1" "z \<le> y - 1 \<longleftrightarrow> z < y" "y - 1 < z \<longleftrightarrow> y \<le> z" "y \<le> z \<Longrightarrow> y - 1 \<le> z"
    using assms by (auto simp: word_le_nat_alt word_less_nat_alt)
qed

lemma fresh_vmrs [simp]: "fresh (m\<lparr>a_vmrs := h\<rparr>) xs = fresh m xs"
  by (simp add: fresh_def)

abbreviation spare :: "amem \<Rightarrow> ptr list \<Rightarrow> ptr \<Rightarrow> vmr \<Rightarrow> bool" where
  "spare m xs n u \<equiv> n \<noteq> NULL \<and> n \<notin> set xs \<and> n \<notin> set (a_kmalloc m) \<and> a_vmrs m n = Some u"

lemma carve:
  assumes rep: "mm_rep cpu m mp xs ss" and fr: "fresh m xs" and r: "r \<in> set xs" "a_vmrs m r = Some v"
    and n: "n \<noteq> NULL" "n \<notin> set xs" "n \<notin> set (a_kmalloc m)"
    and v': "v_next v' = v_next v" "v_prev v' = v_prev v" "v_flags v' = v_flags v"
      "v_start v \<le> v_start v'" "v_start v' \<le> v_end v'" "v_end v' \<le> v_end v"
    and u: "v_start v \<le> v_start u" "v_start u \<le> v_end u" "v_end u \<le> v_end v" "v_flags u = v_flags v"
      "v_end u < v_start v' \<or> v_end v' < v_start u"
  shows "\<exists>m' xs' ss'. mmap_mapin cpu mp n (m\<lparr>a_vmrs := (a_vmrs m)(r \<mapsto> v', n \<mapsto> u)\<rparr>) = Some (0, m') \<and>
    mm_rep cpu m' mp xs' ss' \<and> set xs' = insert n (set xs) \<and> fresh m' xs' \<and> a_kmalloc m' = a_kmalloc m \<and>
    span_of m' r = vspan v' \<and> (\<forall>x. x \<noteq> n \<longrightarrow> x \<notin> set xs \<longrightarrow> a_vmrs m' x = a_vmrs m x) \<and>
    (\<forall>a. space ss' a = (if inside a (vspan v') \<or> inside a (vspan u) then Some (v_flags v)
      else if inside a (vspan v) then None else space ss a)) \<and> (\<forall>a. inside a (vspan v) \<longrightarrow> space ss a = Some (v_flags v))"
proof -
  let ?m = "m\<lparr>a_vmrs := (a_vmrs m)(r \<mapsto> v', n \<mapsto> u)\<rparr>"
  have rn: "r \<noteq> n" using r(1) n(2) by auto
  note lim = mm_rep_bounds [OF rep r]
  from shrink [OF rep r v'(1,2,4-6)] obtain ss1 where
    s1: "mm_rep cpu (m\<lparr>a_vmrs := (a_vmrs m)(r \<mapsto> v')\<rparr>) mp xs ss1"
      "\<forall>a. space ss1 a = (if inside a (vspan v') then Some (v_flags v) else if inside a (vspan v) then None else space ss a)"
      "\<forall>a. inside a (vspan v) \<longrightarrow> space ss a = Some (v_flags v)" unfolding v'(3) by blast
  have rep2: "mm_rep cpu ?m mp xs ss1" using mm_rep_upd_other [OF s1(1) n(2), of "Some u"] by simp
  have "space ss1 a = None" if "inside a (vspan u)" for a
    using that s1(2) u v' by (auto simp: inside_def)
  moreover have "v_end u \<le> mmap_limit" using u(3) lim(2) by simp
  ultimately have "\<exists>m' xs' ss'. mmap_mapin cpu mp n ?m = Some (0, m') \<and> mm_rep cpu m' mp xs' ss' \<and> set xs' = insert n (set xs) \<and>
    fresh m' xs' \<and> a_kmalloc m' = a_kmalloc ?m \<and> (\<forall>x \<in> set xs. span_of m' x = span_of ?m x) \<and>
    (\<forall>x. x \<noteq> n \<longrightarrow> x \<notin> set xs \<longrightarrow> a_vmrs m' x = a_vmrs ?m x) \<and>
    (\<forall>a. space ss' a = (if inside a (vspan u) then Some (v_flags u) else space ss1 a))"
    using n fr u(2) by (intro give_back [OF rep2]) auto
  then obtain m' xs' ss' where m': "mmap_mapin cpu mp n ?m = Some (0, m')" "mm_rep cpu m' mp xs' ss'"
    "set xs' = insert n (set xs)" "fresh m' xs'" "a_kmalloc m' = a_kmalloc m" "\<forall>x \<in> set xs. span_of m' x = span_of ?m x"
    "\<forall>x. x \<noteq> n \<longrightarrow> x \<notin> set xs \<longrightarrow> a_vmrs m' x = a_vmrs ?m x"
    "\<forall>a. space ss' a = (if inside a (vspan u) then Some (v_flags u) else space ss1 a)" by auto
  have "span_of m' r = vspan v'" using m'(6) r(1) rn by auto
  moreover have "\<forall>x. x \<noteq> n \<longrightarrow> x \<notin> set xs \<longrightarrow> a_vmrs m' x = a_vmrs m x" using m'(7) r(1) by auto
  moreover have "\<forall>a. space ss' a = (if inside a (vspan v') \<or> inside a (vspan u) then Some (v_flags v)
      else if inside a (vspan v) then None else space ss a)" using m'(8) s1(2) u(4) by auto
  ultimately show ?thesis using m'(1-5) s1(3) by blast
qed

lemma carvedI:
  assumes "mm_rep cpu m' mp xs' ss'" and "r \<in> set xs'" and "fresh m' xs'" and "span_of m' r = vspan w"
    and "v_start w = addr" "v_end w = end" "v_flags w = v_flags v" and "\<And>a. space ss' a = space ss a"
  shows "carved cpu mp r addr end v ss m'"
proof -
  from mm_rep_live [OF assms(1,2)] obtain w' where w': "a_vmrs m' r = Some w'" by auto
  then have "v_start w' = addr" "v_end w' = end" "v_flags w' = v_flags v" using assms(4-7) by (simp_all add: vspan_def)
  moreover have "space ss' = space ss" using assms(8) by (rule ext)
  ultimately show ?thesis unfolding carved_def using assms(1-3) w' by blast
qed

lemma protect_front_ok:
  assumes rep: "mm_rep cpu m mp xs ss" and fr: "fresh m xs" and r: "r \<in> set xs" "a_vmrs m r = Some v"
    and n: "spare m xs n u" "v_end u = v_end v" "v_flags u = v_flags v"
    and b: "v_start v = addr" "addr \<le> end" "end < v_end v"
  shows "\<exists>m'. protect_front cpu mp r n end m = Some (0, m') \<and> carved cpu mp r addr end v ss m'"
proof -
  let ?v = "v\<lparr>v_end := end\<rparr>" and ?u = "u\<lparr>v_start := end + 1\<rparr>"
  have rn: "r \<noteq> NULL" "r \<noteq> n" using mm_rep_live [OF rep r(1)] r(1) n by auto
  note w = word_inc_le [OF b(3)]
  have p: "end \<le> v_end v" "v_start v \<le> end + 1" "end < end + 1" using b w by auto
  from carve [OF rep fr r, of n ?v ?u] n b w(1) p obtain m' xs' ss' where
    m': "mmap_mapin cpu mp n (m\<lparr>a_vmrs := (a_vmrs m)(r \<mapsto> ?v, n \<mapsto> ?u)\<rparr>) = Some (0, m')"
      "mm_rep cpu m' mp xs' ss'" "set xs' = insert n (set xs)" "fresh m' xs'" "span_of m' r = vspan ?v"
      "\<forall>a. space ss' a = (if inside a (vspan ?v) \<or> inside a (vspan ?u) then Some (v_flags v)
        else if inside a (vspan v) then None else space ss a)" "\<forall>a. inside a (vspan v) \<longrightarrow> space ss a = Some (v_flags v)"
    by auto
  have "carved cpu mp r addr end v ss m'"
  proof (rule carvedI [OF m'(2) _ m'(4,5)])
    show "space ss' a = space ss a" for a
      using m'(6,7) n b w by (auto simp: inside_def not_le)
  qed (use m'(3) r(1) b in auto)
  moreover have "protect_front cpu mp r n end m = Some (0, m')"
    using m'(1) r n rn by (simp add: protect_front_def mm_exec)
  ultimately show ?thesis by blast
qed


lemma protect_back_ok:
  assumes rep: "mm_rep cpu m mp xs ss" and fr: "fresh m xs" and r: "r \<in> set xs" "a_vmrs m r = Some v"
    and n: "spare m xs n u" "v_start u = v_start v" "v_flags u = v_flags v"
    and b: "v_end v = end" "addr \<le> end" "v_start v < addr"
  shows "\<exists>m'. protect_back cpu mp r n addr m = Some (0, m') \<and> carved cpu mp r addr end v ss m'"
proof -
  let ?v = "v\<lparr>v_start := addr\<rparr>" and ?u = "u\<lparr>v_end := addr - 1\<rparr>"
  have rn: "r \<noteq> NULL" "r \<noteq> n" using mm_rep_live [OF rep r(1)] r(1) n by auto
  note w = word_dec_le [OF b(3)]
  have p: "v_start v \<le> addr" "addr - 1 \<le> v_end v" "addr - 1 < addr" using b w by auto
  from carve [OF rep fr r, of n ?v ?u] n b w(1) p obtain m' xs' ss' where
    m': "mmap_mapin cpu mp n (m\<lparr>a_vmrs := (a_vmrs m)(r \<mapsto> ?v, n \<mapsto> ?u)\<rparr>) = Some (0, m')"
      "mm_rep cpu m' mp xs' ss'" "set xs' = insert n (set xs)" "fresh m' xs'" "span_of m' r = vspan ?v"
      "\<forall>a. space ss' a = (if inside a (vspan ?v) \<or> inside a (vspan ?u) then Some (v_flags v)
        else if inside a (vspan v) then None else space ss a)" "\<forall>a. inside a (vspan v) \<longrightarrow> space ss a = Some (v_flags v)"
    by auto
  have "carved cpu mp r addr end v ss m'"
  proof (rule carvedI [OF m'(2) _ m'(4,5)])
    show "space ss' a = space ss a" for a
      using m'(6,7) n b w by (auto simp: inside_def not_le)
  qed (use m'(3) r(1) b in auto)
  moreover have "protect_back cpu mp r n addr m = Some (0, m')"
    using m'(1) r n rn by (simp add: protect_back_def mm_exec)
  ultimately show ?thesis by blast
qed

lemma protect_middle_ok:
  assumes rep: "mm_rep cpu m mp xs ss" and fr: "fresh m xs" and r: "r \<in> set xs" "a_vmrs m r = Some v"
    and n: "spare m xs n (v\<lparr>v_refs := 0, v_next := NULL, v_prev := NULL\<rparr>)"
    and b: "addr \<le> end" "v_start v < addr" "end < v_end v"
  shows "\<exists>err m'. protect_middle cpu mp r n v addr end m = Some (err, m') \<and>
    (if err = 0 then carved cpu mp r addr end v ss m' else mm_rep cpu m' mp xs ss \<and> fresh m' xs)"
proof (cases rule: vmr_alloc_cases [of m])
  case fail
  have "n \<noteq> NULL" "n \<notin> set xs" "a_vmrs m n = Some (v\<lparr>v_refs := 0, v_next := NULL, v_prev := NULL\<rparr>)" using n by auto
  then show ?thesis using fail fresh_tl [OF fr] mm_rep_upd_other [OF rep, of n None]
    by (auto simp: protect_middle_def vmr_free_def deref_nn fresh_def mm_rep_def mm_shape_def)
next
  case (new n1)
  let ?v = "v\<lparr>v_start := addr, v_end := end\<rparr>" and ?u = "v\<lparr>v_refs := 0, v_next := NULL, v_prev := NULL, v_end := addr - 1\<rparr>"
  let ?u1 = "v\<lparr>v_next := NULL, v_prev := NULL, v_start := end + 1\<rparr>"
  let ?m = "m\<lparr>a_kmalloc := tl (a_kmalloc m), a_vmrs := (a_vmrs m)(n1 \<mapsto> ?u1)\<rparr>"
  have n1: "n1 \<notin> set xs" "n1 \<noteq> n" "n1 \<notin> set (tl (a_kmalloc m))" "n \<notin> set (tl (a_kmalloc m))"
    using fr n new by (cases "a_kmalloc m"; auto simp: fresh_def)+
  have rn: "r \<noteq> NULL" "r \<noteq> n" "r \<noteq> n1" using mm_rep_live [OF rep r(1)] r(1) n n1 by auto
  have rep1: "mm_rep cpu ?m mp xs ss"
    using mm_rep_upd_other [of cpu "m\<lparr>a_kmalloc := tl (a_kmalloc m)\<rparr>" mp xs ss n1 "Some ?u1"] rep n1(1) by simp
  have fr1: "fresh ?m xs" using fresh_tl [OF fr] by simp
  note w = word_dec_le [OF b(2)] word_inc_le [OF b(3)]
  have p: "v_start v \<le> addr" "end \<le> v_end v" "addr - 1 \<le> v_end v" "addr - 1 < addr" "v_start v \<le> addr - 1"
    using b w by auto
  from carve [OF rep1 fr1 r(1), of v n ?v ?u] n n1 r(2) rn b p obtain m' xs' ss' where
    m': "mmap_mapin cpu mp n (?m\<lparr>a_vmrs := (a_vmrs ?m)(r \<mapsto> ?v, n \<mapsto> ?u)\<rparr>) = Some (0, m')"
      "mm_rep cpu m' mp xs' ss'" "set xs' = insert n (set xs)" "fresh m' xs'" "span_of m' r = vspan ?v"
      "a_kmalloc m' = tl (a_kmalloc m)" "a_vmrs m' n1 = Some ?u1"
      "\<forall>a. space ss' a = (if inside a (vspan ?v) \<or> inside a (vspan ?u) then Some (v_flags v)
        else if inside a (vspan v) then None else space ss a)" "\<forall>a. inside a (vspan v) \<longrightarrow> space ss a = Some (v_flags v)"
    by auto
  have "space ss' a = None" if "inside a (vspan ?u1)" for a
    using m'(8) that b w by (auto simp: inside_def not_le)
  then have "\<exists>m2 xs2 ss2. mmap_mapin cpu mp n1 m' = Some (0, m2) \<and> mm_rep cpu m2 mp xs2 ss2 \<and> set xs2 = insert n1 (set xs') \<and>
    fresh m2 xs2 \<and> a_kmalloc m2 = a_kmalloc m' \<and> (\<forall>x \<in> set xs'. span_of m2 x = span_of m' x) \<and>
    (\<forall>x. x \<noteq> n1 \<longrightarrow> x \<notin> set xs' \<longrightarrow> a_vmrs m2 x = a_vmrs m' x) \<and>
    (\<forall>a. space ss2 a = (if inside a (vspan ?u1) then Some (v_flags ?u1) else space ss' a))"
    using new(1) n1 m'(3,6,7) w(5) mm_rep_bounds(2) [OF rep r] by (intro give_back [OF m'(2,4)]) auto
  then obtain m2 xs2 ss2 where m2: "mmap_mapin cpu mp n1 m' = Some (0, m2)" "mm_rep cpu m2 mp xs2 ss2"
    "set xs2 = insert n1 (set xs')" "fresh m2 xs2" "\<forall>x \<in> set xs'. span_of m2 x = span_of m' x"
    "\<forall>a. space ss2 a = (if inside a (vspan ?u1) then Some (v_flags ?u1) else space ss' a)" by blast
  have "carved cpu mp r addr end v ss m2"
  proof (rule carvedI [OF m2(2) _ m2(4), of r ?v])
    show "span_of m2 r = vspan ?v" using m2(5) m'(3,5) r(1) by auto
    show "space ss2 a = space ss a" for a
      using m2(6) m'(8,9) b w by (auto simp: inside_def not_le)
  qed (use m2(3) m'(3) r(1) in auto)
  moreover have "protect_middle cpu mp r n v addr end m = Some (0, m2)"
  proof -
    have e: "(a_vmrs m)(n1 \<mapsto> ?u1, r \<mapsto> ?v, n \<mapsto> ?u) = (a_vmrs m)(n1 \<mapsto> zero_vmr, n1 \<mapsto> v, n \<mapsto> v\<lparr>v_refs := 0, v_next := NULL, v_prev := NULL\<rparr>,
        n1 \<mapsto> v\<lparr>v_next := NULL, v_prev := NULL\<rparr>, r \<mapsto> v\<lparr>v_start := addr\<rparr>, n \<mapsto> ?u, r \<mapsto> ?v, n1 \<mapsto> ?u1)"
      using rn n1(2) by (auto simp: fun_eq_iff)
    have o: "(v :: vmr)\<lparr>v_next := NULL, v_prev := NULL, v_refs := 0\<rparr> = v\<lparr>v_refs := 0, v_next := NULL, v_prev := NULL\<rparr>" for v by simp
    show ?thesis using m'(1) m2(1) new r n rn n1 by (simp add: protect_middle_def mm_exec e o)
  qed
  ultimately show ?thesis by auto
qed



section \<open>Protecting a range\<close>

lemma has_bit: "has x 1 \<longleftrightarrow> bit x 0" "has x 2 \<longleftrightarrow> bit x 1" "has x 4 \<longleftrightarrow> bit x 2"
  by (simp_all add: has_def bit_iff_and_push_bit_not_eq_0)

lemma numeral_bits: "bit (2 :: int) n \<longleftrightarrow> n = 1" "bit (4 :: int) n \<longleftrightarrow> n = 2" "bit (- 8 :: int) n \<longleftrightarrow> 3 \<le> n"
proof -
  have "(2 :: int) = push_bit 1 1" "(4 :: int) = push_bit 2 1" "(- 8 :: int) = push_bit 3 (- 1)" by (simp_all add: push_bit_eq_mult)
  then show "bit (2 :: int) n \<longleftrightarrow> n = 1" "bit (4 :: int) n \<longleftrightarrow> n = 2" "bit (- 8 :: int) n \<longleftrightarrow> 3 \<le> n"
    by (simp_all only: bit_push_bit_iff) (auto simp: bit_1_iff)
qed

lemma reprotect_bit:
  "n < 32 \<Longrightarrow> bit (reprotect prot fl) n \<longleftrightarrow>
    (if n = 0 then bit prot 2 else if n = 1 then bit prot 1 else if n = 2 then bit prot 0 else bit fl n)"
  by (auto simp: reprotect_def has_bit numeral_bits bit_1_iff bit_and_iff bit_or_iff bit_not_iff)

lemma region_prot_bit:
  "bit (region_prot fl) n \<longleftrightarrow> n = 0 \<and> bit fl 2 \<or> n = 1 \<and> bit fl 1 \<or> n = 2 \<and> bit fl 0"
  by (auto simp: region_prot_def has_bit numeral_bits bit_1_iff bit_or_iff)

lemma reprotect_same: "reprotect (region_prot fl) fl = fl"
  by (rule bit_word_eqI) (auto simp: reprotect_bit region_prot_bit)

text \<open>No region is writable and executable.\<close>

definition wx :: "u32 \<Rightarrow> bool" where
  "wx fl \<longleftrightarrow> has fl VM_WRITE \<and> has fl VM_EXEC"

definition no_wx :: "(u32 \<Rightarrow> u32 option) \<Rightarrow> bool" where
  "no_wx f \<longleftrightarrow> (\<forall>a fl. f a = Some fl \<longrightarrow> \<not> wx fl)"

lemma wx_reprotect: "wx (reprotect prot fl) \<longleftrightarrow> has prot PROT_WRITE \<and> has prot PROT_EXEC"
  by (simp add: wx_def has_bit reprotect_bit)

lemma region_flags_bits: "bit (region_flags prot flags) 0 \<longleftrightarrow> bit prot 2" "bit (region_flags prot flags) 1 \<longleftrightarrow> bit prot 1"
  by (auto simp: region_flags_def has_bit bit_or_iff)

lemma wx_region_flags: "wx (region_flags prot flags) \<longleftrightarrow> has prot PROT_WRITE \<and> has prot PROT_EXEC"
  using region_flags_bits [of prot flags] by (auto simp: wx_def has_bit)

lemma map_args_wx: "map_args_error addr len prot flags = 0 \<Longrightarrow> \<not> wx (region_flags prot flags)"
  by (auto simp: map_args_error_def wx_region_flags split: if_splits)

definition reprot_space :: "u32 \<Rightarrow> u32 \<Rightarrow> u32 \<Rightarrow> (u32 \<Rightarrow> u32 option) \<Rightarrow> u32 \<Rightarrow> u32 option" where
  "reprot_space addr len prot f a = (if in_range addr len a then map_option (reprotect prot) (f a) else f a)"

text \<open>What \<^verbatim>\<open>mmap_protect\<close> does when it succeeds.\<close>

definition protected :: "ptr \<Rightarrow> ptr \<Rightarrow> u32 \<Rightarrow> u32 \<Rightarrow> u32 \<Rightarrow> span list \<Rightarrow> amem \<Rightarrow> bool" where
  "protected cpu mp addr len prot ss m' \<longleftrightarrow> (\<exists>xs' ss'. mm_rep cpu m' mp xs' ss' \<and> fresh m' xs' \<and>
    space ss' = reprot_space addr len prot (space ss))"

lemma carved_reprotect:
  assumes c: "carved cpu mp r addr end v ss m'" and len: "len \<noteq> 0" and lim: "unat addr + unat len \<le> 2 ^ 32"
    and e: "end = addr + len - 1" and ss: "\<And>a. inside a \<lparr>sp_start = addr, sp_end = end, sp_flags = fl\<rparr> \<Longrightarrow> space ss a = Some (v_flags v)"
  shows "\<exists>m2. set_vmr r (\<lambda>v. v\<lparr>v_flags := reprotect prot (v_flags v)\<rparr>) m' = Some m2 \<and> protected cpu mp addr len prot ss m2"
proof -
  from c obtain xs' ss' w where
    w: "mm_rep cpu m' mp xs' ss'" "r \<in> set xs'" "fresh m' xs'" "a_vmrs m' r = Some w" "v_start w = addr" "v_end w = end"
      "v_flags w = v_flags v" "space ss' = space ss" unfolding carved_def by blast
  let ?w = "w\<lparr>v_flags := reprotect prot (v_flags w)\<rparr>"
  let ?m = "m'\<lparr>a_vmrs := (a_vmrs m')(r \<mapsto> ?w)\<rparr>"
  have b: "v_start w \<le> v_end w" using mm_rep_bounds [OF w(1,2,4)] by blast
  from shrink [OF w(1,2,4), of ?w] b obtain ss2 where
    s2: "mm_rep cpu ?m mp xs' ss2" "\<forall>a. space ss2 a = (if inside a (vspan ?w) then Some (reprotect prot (v_flags v))
      else if inside a (vspan w) then None else space ss a)" using w(7,8) by auto
  have u: "unat end = unat addr + unat len - 1"
  proof -
    have "0 < unat len" using len by (simp add: unat_gt_0)
    then have "unat (addr + (len - 1)) = unat addr + unat (len - 1)"
      using lim len by (intro unat_add_lem [THEN iffD1]) (simp add: unat_minus_one)
    then show ?thesis using e len \<open>0 < unat len\<close> by (simp add: unat_minus_one add_diff_eq)
  qed
  have i: "inside a (vspan w) \<longleftrightarrow> in_range addr len a" "inside a (vspan ?w) \<longleftrightarrow> in_range addr len a" for a
    using w(5,6) u len [folded unat_gt_0] by (auto simp: inside_def in_range_def word_le_nat_alt)
  have "space ss2 a = reprot_space addr len prot (space ss) a" for a
    using s2(2) i ss [of a] w(5,6) by (auto simp: reprot_space_def inside_def)
  then have "protected cpu mp addr len prot ss ?m"
    unfolding protected_def using s2(1) w(3) by (intro exI [of _ xs'] exI [of _ ss2]) auto
  then show ?thesis using w(4) mm_rep_live [OF w(1,2)] by (auto simp: mm_exec)
qed


lemma unat_last: "len \<noteq> 0 \<Longrightarrow> unat addr + unat len \<le> 2 ^ 32 \<Longrightarrow> unat ((addr :: u32) + len - 1) = unat addr + unat len - 1"
proof -
  assume len: "len \<noteq> 0" and lim: "unat addr + unat len \<le> 2 ^ 32"
  have "0 < unat len" using len by (simp add: unat_gt_0)
  then have "unat (addr + (len - 1)) = unat addr + unat (len - 1)"
    using lim len by (intro unat_add_lem [THEN iffD1]) (simp add: unat_minus_one)
  then show ?thesis using len \<open>0 < unat len\<close> by (simp add: unat_minus_one add_diff_eq)
qed

lemma protect_cut_ok:
  assumes rep: "mm_rep cpu m mp xs ss" and fr: "fresh m xs" and r: "r \<in> set xs" "a_vmrs m r = Some v"
    and len: "len \<noteq> 0" "unat addr + unat len \<le> 2 ^ 32" and b: "v_start v \<le> addr" "addr + len - 1 \<le> v_end v"
  shows "\<exists>err m'. protect_cut cpu mp r v addr len m = Some (err, m') \<and>
    (if err = 0 then carved cpu mp r addr (addr + len - 1) v ss m' else mm_rep cpu m' mp xs ss \<and> fresh m' xs)"
proof -
  let ?hi = "addr + len - 1"
  have pos: "0 < unat len" using len(1) by (simp add: unat_gt_0)
  note u = unat_last [OF len]
  have ae: "addr \<le> ?hi" using u pos by (simp add: word_le_nat_alt)
  have "span_ok (vspan v)" using mm_rep_bounds [OF rep r] by (simp add: span_ok_def)
  then have sz: "unat (vmr_size v) = unat (v_end v) - unat (v_start v) + 1" by (simp add: unat_vmr_size)
  show ?thesis
  proof (cases "len < vmr_size v")
    case False
    then have "v_start v = addr" "v_end v = ?hi"
      using sz u b pos by (auto simp: word_le_nat_alt word_less_nat_alt word_unat_eq_iff)
    then have "carved cpu mp r addr ?hi v ss m" unfolding carved_def using rep fr r by blast
    then show ?thesis using False by (simp add: protect_cut_def)
  next
    case True
    show ?thesis
    proof (cases rule: vmr_alloc_cases [of m])
      case fail
      then show ?thesis using True rep fresh_tl [OF fr] by (simp add: protect_cut_def)
    next
      case (new n)
      let ?u = "v\<lparr>v_refs := 0, v_next := NULL, v_prev := NULL\<rparr>"
      let ?m = "m\<lparr>a_kmalloc := tl (a_kmalloc m), a_vmrs := (a_vmrs m)(n \<mapsto> ?u)\<rparr>"
      have n: "n \<notin> set xs" "n \<notin> set (tl (a_kmalloc m))"
        using fr new by (cases "a_kmalloc m"; auto simp: fresh_def)+
      then have rn: "r \<noteq> n" using r(1) by auto
      have rep1: "mm_rep cpu ?m mp xs ss"
        using mm_rep_upd_other [of cpu "m\<lparr>a_kmalloc := tl (a_kmalloc m)\<rparr>" mp xs ss n "Some ?u"] rep n(1) by simp
      have fr1: "fresh ?m xs" using fresh_tl [OF fr] by simp
      have r1: "a_vmrs ?m r = Some v" using r(2) rn by simp
      have sp: "spare ?m xs n ?u" using n new(1) by simp
      have e: "protect_cut cpu mp r v addr len m =
          (if v_start v = addr then protect_front cpu mp r n ?hi ?m
           else if v_end v = ?hi then protect_back cpu mp r n addr ?m else protect_middle cpu mp r n v addr ?hi ?m)"
        using True new by (simp add: protect_cut_def mm_exec)
      consider (front) "v_start v = addr" "?hi < v_end v" | (rear) "v_start v < addr" "v_end v = ?hi"
        | (middle) "v_start v < addr" "?hi < v_end v"
        using b True sz u pos by (fastforce simp: word_le_nat_alt word_less_nat_alt word_unat_eq_iff)
      then show ?thesis
      proof cases
        case front
        then show ?thesis using protect_front_ok [OF rep1 fr1 r(1) r1 sp _ _ front(1) ae front(2)] e by auto
      next
        case rear
        then show ?thesis using protect_back_ok [OF rep1 fr1 r(1) r1 sp _ _ rear(2) ae rear(1)] e by auto
      next
        case middle
        then show ?thesis using protect_middle_ok [OF rep1 fr1 r(1) r1 sp ae middle] e by auto
      qed
    qed
  qed
qed

lemma mmap_protect_ok:
  assumes rep: "mm_rep cpu m mp xs ss" and fr: "fresh m xs" and lim: "unat addr + unat len \<le> 2 ^ 32"
  shows "\<exists>err m'. mmap_protect cpu mp addr len prot m = Some (err, m') \<and>
    (if err = 0 then protected cpu mp addr len prot ss m' \<and> (no_wx (space ss) \<longrightarrow> no_wx (reprot_space addr len prot (space ss)))
     else mm_rep cpu m' mp xs ss \<and> fresh m' xs)"
proof -
  obtain q where q: "mmap_assert_locked cpu mp m = Some q" "mp \<noteq> NULL" using mm_rep_locked [OF rep] by blast
  show ?thesis
  proof (cases "len = 0 \<or> \<not> isaligned addr \<or> \<not> isaligned len \<or> \<not> valid_addr addr")
    case True
    then show ?thesis using q rep fr by (auto simp: mmap_protect_def Let_def)
  next
    case False
    then have len: "len \<noteq> 0" by simp
    show ?thesis
    proof (cases rule: mmap_find_space [OF rep, of addr])
      case 1
      then show ?thesis using False q rep fr by (simp add: mmap_protect_def mmap_find_vmr_overlap_def Let_def)
    next
      case (2 as r bs)
      have r: "r \<in> set xs" using 2(1) by simp
      from mm_rep_live [OF rep r] obtain v where v: "a_vmrs m r = Some v" "r \<noteq> NULL" by auto
      let ?hi = "addr + len - 1" and ?fp = "region_prot (v_flags v)"
      let ?bad = "has (v_flags v) VM_GROWSDOWN \<or> ?fp \<noteq> prot \<and> (has prot PROT_WRITE \<and> has prot PROT_EXEC \<or>
        has prot PROT_WRITE \<and> has ?fp PROT_EXEC \<or> has prot PROT_EXEC \<and> has ?fp PROT_WRITE)"
      have o: "mmap_find_vmr_overlap cpu mp addr ?hi m = Some (if ?hi \<le> v_end v then r else NULL)"
        using q 2(3) v by (simp add: mmap_find_vmr_overlap_def deref_nn)
      show ?thesis
      proof (cases "\<not> ?hi \<le> v_end v \<or> ?bad")
        case bad: True
        then show ?thesis using False q rep fr o v by (auto simp: mmap_protect_def Let_def deref_nn)
      next
        case good: False
        have b: "v_start v \<le> addr" "?hi \<le> v_end v" using 2(2) v good by (auto simp: inside_def)
        have rng: "space ss a = Some (v_flags v)" if "v_start v \<le> a" "a \<le> v_end v" for a
          using shrink [OF rep r v(1), of v] mm_rep_bounds [OF rep r v(1)] that by (auto simp: inside_def)
        have u: "unat ?hi = unat addr + unat len - 1" by (rule unat_last [OF len lim])
        have in_v: "space ss a = Some (v_flags v)" if "in_range addr len a" for a
          using that b u len [folded unat_gt_0] by (intro rng) (auto simp: in_range_def word_le_nat_alt)
        show ?thesis
        proof (cases "?fp = prot")
          case True
          have "reprot_space addr len prot (space ss) = space ss"
            using in_v True by (intro ext) (auto simp: reprot_space_def reprotect_same)
          then have "protected cpu mp addr len prot ss m" unfolding protected_def using rep fr by auto
          then show ?thesis using True good False q o v \<open>reprot_space _ _ _ _ = _\<close>
            by (simp add: mmap_protect_def Let_def deref_nn)
        next
          case ne: False
          from protect_cut_ok [OF rep fr r v(1) len lim b] obtain err m1 where
            m1: "protect_cut cpu mp r v addr len m = Some (err, m1)"
              "if err = 0 then carved cpu mp r addr ?hi v ss m1 else mm_rep cpu m1 mp xs ss \<and> fresh m1 xs" by blast
          have e: "mmap_protect cpu mp addr len prot m = do {
              (err, m) \<leftarrow> protect_cut cpu mp r v addr len m;
              if err \<noteq> 0 then Some (err, m)
              else do { m \<leftarrow> set_vmr r (\<lambda>v. v\<lparr>v_flags := reprotect prot (v_flags v)\<rparr>) m; Some (0, m) } }"
            using ne good False q o v
            by (cases "has prot PROT_WRITE"; cases "has prot PROT_EXEC") (simp_all add: mmap_protect_def Let_def deref_nn)
          show ?thesis
          proof (cases "err = 0")
            case False
            then show ?thesis using e m1 by simp
          next
            case True
            have "space ss a = Some (v_flags v)" if "inside a \<lparr>sp_start = addr, sp_end = ?hi, sp_flags = 0\<rparr>" for a
              using that b by (intro rng) (auto simp: inside_def)
            with carved_reprotect [of cpu mp r addr ?hi v ss m1 len 0 prot] m1(2) True len lim obtain m2 where
              m2: "set_vmr r (\<lambda>v. v\<lparr>v_flags := reprotect prot (v_flags v)\<rparr>) m1 = Some m2" "protected cpu mp addr len prot ss m2"
              by auto
            have "no_wx (reprot_space addr len prot (space ss))" if "no_wx (space ss)"
              using that good ne unfolding no_wx_def reprot_space_def by (auto simp: wx_reprotect split: if_splits)
            then show ?thesis using e m1(1) True m2 by simp
          qed
        qed
      qed
    qed
  qed
qed

end
