(* ===== verification/Mmap_Props.thy ===== *)
theory Mmap_Props
  imports Mmap_Map
begin

text \<open>
  The address space as its clients see it: the operations of \<^verbatim>\<open>kernel/mm/mmap/mmap.c\<close> as steps,
  the invariant they keep, and the properties of the single operations.
\<close>

section \<open>Mapping at a fixed address\<close>







section \<open>Clients\<close>














section \<open>Creation and destruction\<close>

abbreviation fresh_mmap :: "spinlock \<Rightarrow> u32 \<Rightarrow> mmap" where
  "fresh_mmap lk pgdir \<equiv> (zero_mmap lk)\<lparr>mm_pgdir := pgdir, mm_flags := MMAP_USER, mm_guard_len := PAGESIZE, mm_limit := mmap_limit\<rparr>"

lemma mm_rep_empty:
  assumes "mp \<noteq> NULL" and "a_maps m mp = Some (fresh_mmap lk pgdir)" and "spin_holding cpu lk"
  shows "mm_rep cpu m mp [] []"
  using assms by (simp add: mm_rep_def mm_shape_def zero_mmap_def)

lemma cut_all_empty:
  assumes "spans_ok ss" and "space ss = cut_space 0 (mmap_limit + 1) f"
  shows "ss = []"
proof (rule ccontr)
  assume "ss \<noteq> []"
  then obtain s ts where ss: "ss = s # ts" by (cases ss) auto
  then have "sp_start s \<le> sp_end s" "sp_end s \<le> mmap_limit" using assms(1) by (auto simp: span_ok_def)
  then have i: "inside (sp_start s) s" "in_range 0 (mmap_limit + 1) (sp_start s)"
    by (auto simp: inside_def in_range_def word_le_nat_alt)
  have "space ss (sp_start s) = None" unfolding assms(2) using i(2) by (simp add: cut_space_def)
  with i(1) ss show False by (simp add: space_None)
qed

lemma mmap_clean_ok:
  assumes rep: "mm_rep cpu m mp xs ss"
  shows "\<exists>m' lk pgdir. mmap_clean cpu mp m = Some (0, m') \<and> mm_rep cpu m' mp [] [] \<and> a_kmalloc m' = a_kmalloc m \<and>
    a_maps m' mp = Some (fresh_mmap lk pgdir) \<and> spin_holding cpu lk \<and> (\<forall>x. x \<notin> set xs \<longrightarrow> a_vmrs m' x = a_vmrs m x)"
proof -
  from rep obtain q where sh: "mm_shape cpu m mp q xs" by (auto simp: mm_rep_def)
  note q = mm_shapeD [OF sh]
  have "\<not> splits 0 ss" by (simp add: splits_def)
  then obtain m1 where m1: "mmap_unmap cpu mp 0 (mmap_limit + 1) m = Some (0, m1)" "unmapped cpu mp 0 (mmap_limit + 1) m xs ss m1"
    using mmap_unmap_ok [OF rep, of "mmap_limit + 1" 0] by auto
  from m1(2) obtain xs1 ss1 where r1: "mm_rep cpu m1 mp xs1 ss1" "space ss1 = cut_space 0 (mmap_limit + 1) (space ss)"
    "mm_keep (set xs) mp m m1" unfolding unmapped_def by blast
  have "ss1 = []" using cut_all_empty r1(1,2) by (auto simp: mm_rep_def)
  obtain q1 where q1: "mm_shape cpu m1 mp q1 xs1" using r1(1) by (auto simp: mm_rep_def)
  note d = mm_shapeD [OF q1]
  let ?q = "fresh_mmap (mm_lock q1) (mm_pgdir q1)"
  let ?m = "(logged (paging_proc_unmap (mm_pgdir q1)) m1)\<lparr>a_maps := (a_maps m1)(mp \<mapsto> ?q)\<rparr>"
  have "mmap_clean cpu mp m = Some (0, ?m)"
    using q d m1(1) by (simp add: mmap_clean_def set_map_Some deref_nn logged_def)
  moreover have lk: "spin_holding cpu (mm_lock q1)" using q1 by (simp add: mm_shape_def)
  moreover have "mm_rep cpu ?m mp [] []" by (rule mm_rep_empty [OF q(2)]) (use lk in simp_all)
  moreover have "a_kmalloc ?m = a_kmalloc m" "\<forall>x. x \<notin> set xs \<longrightarrow> a_vmrs ?m x = a_vmrs m x"
    using r1(3) by (simp_all add: mm_keep_def logged_def)
  ultimately show ?thesis by (intro exI [of _ ?m] exI [of _ "mm_lock q1"] exI [of _ "mm_pgdir q1"]) simp
qed







section \<open>Properties\<close>




text \<open>A map with one region of two pages, readable and writable, for the witnesses below.\<close>

definition one_region :: amem where
  "one_region = \<lparr>a_vmrs = [16 \<mapsto> zero_vmr\<lparr>v_refs := 2, v_flags := VM_READ OR VM_WRITE, v_mmap := 8, v_start := 0x2000, v_end := 0x3FFF\<rparr>],
    a_maps = [8 \<mapsto> (zero_mmap \<lparr>sl_lock = 1, sl_cpu = 1\<rparr>)\<lparr>mm_pgdir := 0x5000, mm_flags := MMAP_USER,
      mm_guard_len := PAGESIZE, mm_limit := mmap_limit, vmr_head := 16, vmr_tail := 16\<rparr>],
    a_kmalloc = [24, 32], a_log = []\<rparr>"

abbreviation one_span :: "span list" where
  "one_span \<equiv> [\<lparr>sp_start = 0x2000, sp_end = 0x3FFF, sp_flags = 6\<rparr>]"

lemma one_region_rep: "mm_rep 1 one_region 8 [16] one_span" "fresh one_region [16]"
  by (simp_all add: mm_rep_def mm_shape_def one_region_def zero_mmap_def zero_vmr_def dlist_def vspan_def spans_ok_def
    span_ok_def fresh_def)

text \<open>C8. A mapping without \<^verbatim>\<open>MAP_FIXED\<close> never takes an address that is in use: when it succeeds, the
  range it returns was free and below the limit, exactly that range is mapped, with the protection asked
  for, and nothing else changes; when it fails, nothing changes.\<close>

theorem mmap_map_region_free:
  assumes "mm_rep cpu m mp xs ss" and "fresh m xs" and "\<not> has flags MAP_FIXED"
  shows "\<exists>err r m'. mmap_map_region cpu mp addr len prot flags True m = Some (err, r, m') \<and>
    (if err = 0
     then \<exists>xs' ss' v. mm_rep cpu m' mp xs' ss' \<and> a_vmrs m' r = Some v \<and> fits ss (stack_len m mp len flags) (v_start v) \<and>
       space ss' = put_space (v_start v) (stack_len m mp len flags) (region_flags prot flags) (space ss)
     else mm_rep cpu m' mp xs ss)"
proof -
  from map_region_ok [OF assms] obtain err r m' where
    m': "mmap_map_region cpu mp addr len prot flags True m = Some (err, r, m')"
      "if err = 0 then mapped cpu mp (stack_len m mp len flags) (region_flags prot flags) xs ss r m' \<and>
         map_args_error addr len prot flags = 0 else mm_rep cpu m' mp xs ss" by blast
  have "if err = 0
     then \<exists>xs' ss' v. mm_rep cpu m' mp xs' ss' \<and> a_vmrs m' r = Some v \<and> fits ss (stack_len m mp len flags) (v_start v) \<and>
       space ss' = put_space (v_start v) (stack_len m mp len flags) (region_flags prot flags) (space ss)
     else mm_rep cpu m' mp xs ss"
  proof (cases "err = 0")
    case True
    with m'(2) have "mapped cpu mp (stack_len m mp len flags) (region_flags prot flags) xs ss r m'" by simp
    then show ?thesis unfolding mapped_def using True by auto
  qed (use m'(2) in simp)
  with m'(1) show ?thesis by blast
qed

theorem mmap_map_region_free_witness:
  "\<exists>err r m'. mmap_map_region 1 8 0 0x1000 PROT_READ MAP_PRIVATE True one_region = Some (err, r, m') \<and>
    (if err = 0
     then \<exists>xs' ss' v. mm_rep 1 m' 8 xs' ss' \<and> a_vmrs m' r = Some v \<and> fits one_span (stack_len one_region 8 0x1000 MAP_PRIVATE) (v_start v) \<and>
       space ss' = put_space (v_start v) (stack_len one_region 8 0x1000 MAP_PRIVATE) (region_flags PROT_READ MAP_PRIVATE) (space one_span)
     else mm_rep 1 m' 8 [16] one_span)"
  by (rule mmap_map_region_free [OF one_region_rep]) (simp add: has_def)

text \<open>C16. Unmapping a range removes exactly that range from the address space, whatever regions it covers
  in whole or cuts, provided it does not start strictly inside a region.\<close>

theorem mmap_unmap_space:
  assumes "mm_rep cpu m mp xs ss" and "len \<noteq> 0" and "unat start + unat len \<le> 0xC0000000" and "\<not> splits start ss"
  shows "\<exists>m' xs' ss'. mmap_unmap cpu mp start len m = Some (0, m') \<and> mm_rep cpu m' mp xs' ss' \<and>
    space ss' = cut_space start len (space ss)"
  using mmap_unmap_ok [OF assms] unfolding unmapped_def by blast

theorem mmap_unmap_space_witness:
  "\<exists>m' xs' ss'. mmap_unmap 1 8 0x1000 0x2000 one_region = Some (0, m') \<and> mm_rep 1 m' 8 xs' ss' \<and>
    space ss' = cut_space 0x1000 0x2000 (space one_span)"
  by (rule mmap_unmap_space [OF one_region_rep(1)]) (simp_all add: splits_def)

text \<open>C28. Unmapping a range that starts strictly inside a region never returns: \<^verbatim>\<open>vmr_split\<close> is called
  with a null result pointer and writes through it.\<close>

theorem mmap_unmap_inside:
  assumes "mm_rep cpu m mp xs ss" and "len \<noteq> 0" and "unat start + unat len \<le> 0xC0000000" and "splits start ss"
  shows "mmap_unmap cpu mp start len m = None"
  using mmap_unmap_crash [OF assms] .

theorem mmap_unmap_inside_witness: "mmap_unmap 1 8 0x3000 0x1000 one_region = None"
  by (rule mmap_unmap_inside [OF one_region_rep(1)]) (simp_all add: splits_def)



text \<open>C24. The search for a hole from the bottom of the address space is a first fit: it returns the lowest
  address at which the size asked for is free, and it fails only when there is none.\<close>

theorem mmap_find_hole_lowest:
  assumes "mm_rep cpu m mp xs ss" and "sz \<noteq> 0"
  shows "if \<exists>a. fits ss sz a then \<exists>a. mmap_find_hole cpu mp sz 0 m = Some (0, a) \<and> fits ss sz a \<and> (\<forall>b. fits ss sz b \<longrightarrow> a \<le> b)
    else mmap_find_hole cpu mp sz 0 m = Some (- ENOMEM, 0)"
  using find_hole_first_fit [OF assms] by auto

theorem mmap_find_hole_lowest_witness:
  "\<exists>a. mmap_find_hole 1 8 0x3000 0 one_region = Some (0, a) \<and> fits one_span 0x3000 a"
proof -
  have "spans_ok (one_span @ [])" using one_region_rep(1) by (simp add: mm_rep_def)
  then have "fits (one_span @ []) 0x3000 0x4000" by (rule fits_between) (simp_all add: hole_end_def)
  then have "\<exists>a. fits one_span 0x3000 a" by auto
  with mmap_find_hole_lowest [OF one_region_rep(1), of "0x3000"] show ?thesis by auto
qed

text \<open>\<^verbatim>\<open>mmap_mapin\<close> refuses a region that overlaps with one already there, and leaves the map as it is;
  a region that overlaps with none is inserted.\<close>

theorem mmap_mapin_exclusive:
  assumes "mm_rep cpu m mp xs ss" and "r \<noteq> NULL" and "r \<notin> set xs" and "a_vmrs m r = Some v" and "span_ok (vspan v)"
  shows "if \<exists>a. inside a (vspan v) \<and> space ss a \<noteq> None then mmap_mapin cpu mp r m = Some (- EEXIST, m)
    else \<exists>m' as bs. mmap_mapin cpu mp r m = Some (0, m') \<and> xs = as @ bs \<and>
      mm_rep cpu m' mp (as @ r # bs) (map (span_of m) (as @ r # bs))"
proof (cases "\<exists>a. inside a (vspan v) \<and> space ss a \<noteq> None")
  case True
  then show ?thesis using mmap_mapin_exist [OF assms] by auto
next
  case False
  then have "\<forall>a. inside a (vspan v) \<longrightarrow> space ss a = None" by blast
  from mmap_mapin_ok [OF assms this] False show ?thesis by auto
qed

theorem mmap_mapin_exclusive_witness:
  "mmap_mapin 1 8 24 (one_region\<lparr>a_vmrs := (a_vmrs one_region)(24 \<mapsto> zero_vmr\<lparr>v_start := 0x3000, v_end := 0x4FFF\<rparr>)\<rparr>) =
    Some (- EEXIST, one_region\<lparr>a_vmrs := (a_vmrs one_region)(24 \<mapsto> zero_vmr\<lparr>v_start := 0x3000, v_end := 0x4FFF\<rparr>)\<rparr>)"
proof -
  let ?v = "zero_vmr\<lparr>v_start := 0x3000, v_end := 0x4FFF\<rparr>"
  have rep: "mm_rep 1 (one_region\<lparr>a_vmrs := (a_vmrs one_region)(24 \<mapsto> ?v)\<rparr>) 8 [16] one_span"
    by (rule mm_rep_upd_other [OF one_region_rep(1)]) simp
  have "inside 0x3000 (vspan ?v)" "space one_span 0x3000 \<noteq> None" by (simp_all add: inside_def space_def)
  then have "\<exists>a. inside a (vspan ?v) \<and> space one_span a \<noteq> None" by blast
  with mmap_mapin_exclusive [OF rep, of 24 ?v] show ?thesis by (simp add: span_ok_def)
qed

text \<open>C29. Freeing a map that the caller has not locked reads freed memory: the call takes the lock itself,
  cleaning the map resets its reference count, so the map is freed, and then its lock is released. A
  caller that holds the lock is safe.\<close>

theorem mmap_free_dangling:
  assumes "mm_rep cpu m mp xs ss" and "a_maps m mp = Some q" and "mm_lock q = \<lparr>sl_lock = 1, sl_cpu = cpu\<rparr>"
  shows "(\<exists>m'. mmap_free cpu mp m = Some m' \<and> a_maps m' mp = None) \<and>
    mmap_free cpu mp (m\<lparr>a_maps := (a_maps m)(mp \<mapsto> q\<lparr>mm_lock := spin_unlocked\<rparr>)\<rparr>) = None"
proof -
  have mp: "mp \<noteq> NULL" using mm_rep_locked [OF assms(1)] by blast
  from mmap_clean_ok [OF assms(1)] obtain m' lk pgdir where
    m': "mmap_clean cpu mp m = Some (0, m')" "a_maps m' mp = Some (fresh_mmap lk pgdir)" by blast
  have same: "(a_maps m)(mp \<mapsto> q\<lparr>mm_lock := \<lparr>sl_lock = 1, sl_cpu = cpu\<rparr>\<rparr>) = a_maps m"
    using assms(2,3) by (metis fun_upd_triv mmap.surjective mmap.update_convs(14))
  have tl: "lk_try cpu \<lparr>sl_lock = 1, sl_cpu = cpu\<rparr> = (False, \<lparr>sl_lock = 1, sl_cpu = cpu\<rparr>)"
    "lk_try cpu spin_unlocked = (True, \<lparr>sl_lock = 1, sl_cpu = cpu\<rparr>)"
    by (simp_all add: lk_try_def spin_unlocked_def atomic_xchg_def)
  have "\<exists>m2. mmap_free cpu mp m = Some m2 \<and> a_maps m2 mp = None"
    using mp m' assms(2,3) same tl(1) by (simp add: mmap_free_def set_map_Some deref_nn zero_mmap_def)
  moreover have "mmap_free cpu mp (m\<lparr>a_maps := (a_maps m)(mp \<mapsto> q\<lparr>mm_lock := spin_unlocked\<rparr>)\<rparr>) = None"
    using mp m' same tl(2) by (simp add: mmap_free_def set_map_Some deref_nn zero_mmap_def mmap_unlock_def deref_def)
  ultimately show ?thesis by blast
qed

theorem mmap_free_dangling_witness:
  "mmap_free 1 8 (one_region\<lparr>a_maps := (a_maps one_region)(8 \<mapsto> (the (a_maps one_region 8))\<lparr>mm_lock := spin_unlocked\<rparr>)\<rparr>) = None"
proof -
  have "a_maps one_region 8 = Some (the (a_maps one_region 8))" "mm_lock (the (a_maps one_region 8)) = \<lparr>sl_lock = 1, sl_cpu = 1\<rparr>"
    by (simp_all add: one_region_def zero_mmap_def)
  from mmap_free_dangling [OF one_region_rep(1) this] show ?thesis by blast
qed

end
