(* ===== verification/Kmem.thy ===== *)
theory Kmem
  imports Kernel_Prelude
begin

text \<open>
  Byte memory and the functions of \<^verbatim>\<open>kernel/lib/string.c\<close> on it. A memory maps the addresses that
  belong to an object to their bytes; an access outside of every object is \<open>None\<close>. \<^verbatim>\<open>memmove\<close> is
  equal to a simultaneous copy; strings are lists of nonzero bytes in memory, and the string functions
  are related to functions on these lists.
\<close>

declare neq0_conv [iff del] bot_nat_0.not_eq_extremum [simp del]

type_synonym bmem = "u32 \<Rightarrow> u8 option"

definition store :: "bmem \<Rightarrow> u32 \<Rightarrow> u8 \<Rightarrow> bmem option" where
  "store m a b = (case m a of None \<Rightarrow> None | Some _ \<Rightarrow> Some (m(a \<mapsto> b)))"

text \<open>The bytes of wider integers, the lowest first.\<close>

definition store16 :: "bmem \<Rightarrow> u32 \<Rightarrow> 16 word \<Rightarrow> bmem option" where
  "store16 m a w = do { m \<leftarrow> store m a (ucast w); store m (a + 1) (ucast (drop_bit 8 w)) }"

definition store32 :: "bmem \<Rightarrow> u32 \<Rightarrow> u32 \<Rightarrow> bmem option" where
  "store32 m a w = do {
     m \<leftarrow> store m a (ucast w);
     m \<leftarrow> store m (a + 1) (ucast (drop_bit 8 w));
     m \<leftarrow> store m (a + 2) (ucast (drop_bit 16 w));
     store m (a + 3) (ucast (drop_bit 24 w))
   }"

definition load32 :: "bmem \<Rightarrow> u32 \<Rightarrow> u32 option" where
  "load32 m a = do {
     b0 \<leftarrow> m a; b1 \<leftarrow> m (a + 1); b2 \<leftarrow> m (a + 2); b3 \<leftarrow> m (a + 3);
     Some (ucast b0 OR push_bit 8 (ucast b1) OR push_bit 16 (ucast b2) OR push_bit 24 (ucast b3))
   }"


section \<open>Blocks of memory\<close>

fun set_loop :: "nat \<Rightarrow> u32 \<Rightarrow> u8 \<Rightarrow> bmem \<Rightarrow> bmem option" where
  "set_loop 0 d c m = Some m"
| "set_loop (Suc n) d c m = do { m \<leftarrow> store m d c; set_loop n (d + 1) c m }"

definition memset :: "u32 \<Rightarrow> int \<Rightarrow> u32 \<Rightarrow> bmem \<Rightarrow> (u32 \<times> bmem) option" where
  "memset dst c n m = do { m \<leftarrow> set_loop (unat n) dst (word_of_int c) m; Some (dst, m) }"

fun cmp_loop :: "nat \<Rightarrow> u32 \<Rightarrow> u32 \<Rightarrow> bmem \<Rightarrow> int option" where
  "cmp_loop 0 s1 s2 m = Some 0"
| "cmp_loop (Suc n) s1 s2 m = do {
     a \<leftarrow> m s1;
     b \<leftarrow> m s2;
     if a \<noteq> b then Some (uint a - uint b) else cmp_loop n (s1 + 1) (s2 + 1) m
   }"

definition memcmp :: "u32 \<Rightarrow> u32 \<Rightarrow> u32 \<Rightarrow> bmem \<Rightarrow> int option" where
  "memcmp v1 v2 n m = cmp_loop (unat n) v1 v2 m"

fun copy_up :: "nat \<Rightarrow> u32 \<Rightarrow> u32 \<Rightarrow> bmem \<Rightarrow> bmem option" where
  "copy_up 0 d s m = Some m"
| "copy_up (Suc n) d s m = do { b \<leftarrow> m s; m \<leftarrow> store m d b; copy_up n (d + 1) (s + 1) m }"

text \<open>The pointers are one past the end.\<close>

fun copy_down :: "nat \<Rightarrow> u32 \<Rightarrow> u32 \<Rightarrow> bmem \<Rightarrow> bmem option" where
  "copy_down 0 d s m = Some m"
| "copy_down (Suc n) d s m = do { b \<leftarrow> m (s - 1); m \<leftarrow> store m (d - 1) b; copy_down n (d - 1) (s - 1) m }"

definition memcpy :: "u32 \<Rightarrow> u32 \<Rightarrow> u32 \<Rightarrow> bmem \<Rightarrow> (u32 \<times> bmem) option" where
  "memcpy dst src sz m = do { m \<leftarrow> copy_up (unat sz) dst src m; Some (dst + sz, m) }"

definition memmove :: "u32 \<Rightarrow> u32 \<Rightarrow> u32 \<Rightarrow> bmem \<Rightarrow> (u32 \<times> bmem) option" where
  "memmove dst src n m = do {
     m \<leftarrow> (if src < dst \<and> src + n > dst then copy_down (unat n) (dst + n) (src + n) m
           else copy_up (unat n) dst src m);
     Some (dst, m)
   }"

text \<open>The same on 32-bit units; \<^verbatim>\<open>memcpyd\<close> returns a pointer twice as far as the end of the copy.\<close>

fun copy_up32 :: "nat \<Rightarrow> u32 \<Rightarrow> u32 \<Rightarrow> bmem \<Rightarrow> bmem option" where
  "copy_up32 0 d s m = Some m"
| "copy_up32 (Suc n) d s m = do { w \<leftarrow> load32 m s; m \<leftarrow> store32 m d w; copy_up32 n (d + 4) (s + 4) m }"

fun copy_down32 :: "nat \<Rightarrow> u32 \<Rightarrow> u32 \<Rightarrow> bmem \<Rightarrow> bmem option" where
  "copy_down32 0 d s m = Some m"
| "copy_down32 (Suc n) d s m = do { w \<leftarrow> load32 m (s - 4); m \<leftarrow> store32 m (d - 4) w; copy_down32 n (d - 4) (s - 4) m }"

definition memcpyd :: "u32 \<Rightarrow> u32 \<Rightarrow> u32 \<Rightarrow> bmem \<Rightarrow> (u32 \<times> bmem) option" where
  "memcpyd dst src sz m = do { m \<leftarrow> copy_up32 (unat sz) dst src m; Some (dst + 4 * sz + 4 * sz, m) }"

definition memmoved :: "u32 \<Rightarrow> u32 \<Rightarrow> u32 \<Rightarrow> bmem \<Rightarrow> (u32 \<times> bmem) option" where
  "memmoved dst src n m = do {
     m \<leftarrow> (if src < dst \<and> src + 4 * n > dst then copy_down32 (unat n) (dst + 4 * n) (src + 4 * n) m
           else copy_up32 (unat n) dst src m);
     Some (dst, m)
   }"

fun setw_loop :: "nat \<Rightarrow> u32 \<Rightarrow> 16 word \<Rightarrow> bmem \<Rightarrow> bmem option" where
  "setw_loop 0 d c m = Some m"
| "setw_loop (Suc n) d c m = do { m \<leftarrow> store16 m d c; setw_loop n (d + 2) c m }"

definition memsetw :: "u32 \<Rightarrow> int \<Rightarrow> u32 \<Rightarrow> bmem \<Rightarrow> (u32 \<times> bmem) option" where
  "memsetw dst c n m = do { m \<leftarrow> setw_loop (unat n) dst (word_of_int c) m; Some (dst, m) }"

fun setd_loop :: "nat \<Rightarrow> u32 \<Rightarrow> u32 \<Rightarrow> bmem \<Rightarrow> bmem option" where
  "setd_loop 0 d c m = Some m"
| "setd_loop (Suc n) d c m = do { m \<leftarrow> store32 m d c; setd_loop n (d + 4) c m }"

definition memsetd :: "u32 \<Rightarrow> int \<Rightarrow> u32 \<Rightarrow> bmem \<Rightarrow> (u32 \<times> bmem) option" where
  "memsetd dst c n m = do { m \<leftarrow> setd_loop (unat n) dst (word_of_int c) m; Some (dst, m) }"

definition ginger_memclear :: "u32 \<Rightarrow> int \<Rightarrow> bmem \<Rightarrow> bmem option" where
  "ginger_memclear p len m = do { (_, m) \<leftarrow> memset p 0 (word_of_int len) m; Some m }"


section \<open>Strings\<close>

text \<open>Counters of type \<^verbatim>\<open>int\<close>; a count that does not fit is undefined.\<close>

partial_function (option) strlen_from :: "bmem \<Rightarrow> u32 \<Rightarrow> int \<Rightarrow> int option" where
  "strlen_from m s n = do {
     b \<leftarrow> m (s + word_of_int n);
     if b = 0 then Some n
     else do { kassert (n < 2 ^ 31 - 1); strlen_from m s (n + 1) }
   }"

definition strlen :: "u32 \<Rightarrow> bmem \<Rightarrow> int option" where
  "strlen s m = strlen_from m s 0"

partial_function (option) copy_str :: "u32 \<Rightarrow> u32 \<Rightarrow> bmem \<Rightarrow> bmem option" where
  "copy_str d s m = do {
     b \<leftarrow> m s;
     m \<leftarrow> store m d b;
     if b = 0 then Some m else copy_str (d + 1) (s + 1) m
   }"

definition strcat :: "u32 \<Rightarrow> u32 \<Rightarrow> bmem \<Rightarrow> bmem option" where
  "strcat s t m = do { i \<leftarrow> strlen_from m s 0; copy_str (s + word_of_int i) t m }"

definition strcpy :: "u32 \<Rightarrow> u32 \<Rightarrow> bmem \<Rightarrow> bmem option" where
  "strcpy dst src m = (if src \<noteq> 0 \<and> dst \<noteq> 0 then copy_str dst src m else Some m)"

partial_function (option) strcmp :: "u32 \<Rightarrow> u32 \<Rightarrow> bmem \<Rightarrow> int option" where
  "strcmp p q m = do {
     a \<leftarrow> m p;
     b \<leftarrow> m q;
     if a \<noteq> 0 \<and> a = b then strcmp (p + 1) (q + 1) m else Some (uint a - uint b)
   }"

fun strncmp_loop :: "nat \<Rightarrow> u32 \<Rightarrow> u32 \<Rightarrow> bmem \<Rightarrow> int option" where
  "strncmp_loop 0 p q m = Some 0"
| "strncmp_loop (Suc n) p q m = do {
     a \<leftarrow> m p;
     b \<leftarrow> m q;
     if a \<noteq> 0 \<and> a = b then strncmp_loop n (p + 1) (q + 1) m else Some (uint a - uint b)
   }"

definition strncmp :: "u32 \<Rightarrow> u32 \<Rightarrow> u32 \<Rightarrow> bmem \<Rightarrow> int option" where
  "strncmp p q n m = strncmp_loop (unat n) p q m"

text \<open>
  \<^verbatim>\<open>strncpy\<close>: the first loop ends after \<open>n\<close> bytes or after the null byte. When it ends after a null
  byte the count is that of the bytes left, and the second loop fills them.
\<close>

fun strncpy_loop :: "nat \<Rightarrow> u32 \<Rightarrow> u32 \<Rightarrow> bmem \<Rightarrow> bmem option" where
  "strncpy_loop 0 s t m = Some m"
| "strncpy_loop (Suc n) s t m = do {
     b \<leftarrow> m t;
     m \<leftarrow> store m s b;
     if b \<noteq> 0 then strncpy_loop n (s + 1) (t + 1) m else set_loop n (s + 1) 0 m
   }"

definition strncpy :: "u32 \<Rightarrow> u32 \<Rightarrow> int \<Rightarrow> bmem \<Rightarrow> (u32 \<times> bmem) option" where
  "strncpy s t n m = do { m \<leftarrow> strncpy_loop (nat n) s t m; Some (s, m) }"

text \<open>The loop of \<^verbatim>\<open>safestrcpy\<close> and the null byte after it.\<close>

fun safestr_loop :: "nat \<Rightarrow> u32 \<Rightarrow> u32 \<Rightarrow> bmem \<Rightarrow> bmem option" where
  "safestr_loop 0 s t m = store m s 0"
| "safestr_loop (Suc n) s t m = do {
     b \<leftarrow> m t;
     m \<leftarrow> store m s b;
     if b \<noteq> 0 then safestr_loop n (s + 1) (t + 1) m else store m (s + 1) 0
   }"

definition safestrcpy :: "u32 \<Rightarrow> u32 \<Rightarrow> int \<Rightarrow> bmem \<Rightarrow> (u32 \<times> bmem) option" where
  "safestrcpy s t n m =
    (if n \<le> 0 then Some (s, m) else do { m \<leftarrow> safestr_loop (nat (n - 1)) s t m; Some (s, m) })"

definition compare_strings :: "u32 \<Rightarrow> u32 \<Rightarrow> bmem \<Rightarrow> int option" where
  "compare_strings s0 s1 m = do {
     a \<leftarrow> strlen s0 m;
     b \<leftarrow> strlen s1 m;
     if a \<noteq> b then Some (- 1) else strcmp s0 s1 m
   }"



section \<open>Copying\<close>

text \<open>The reference: all bytes are read before one is written.\<close>

definition copied :: "nat \<Rightarrow> u32 \<Rightarrow> u32 \<Rightarrow> bmem \<Rightarrow> bmem" where
  "copied n d s m a = (if unat (a - d) < n then m (s + (a - d)) else m a)"

definition block :: "bmem \<Rightarrow> u32 \<Rightarrow> nat \<Rightarrow> bool" where
  "block m a n \<longleftrightarrow> (\<forall>i < n. m (a + of_nat i) \<noteq> None)"

lemma block_Suc: "block m a (Suc n) \<longleftrightarrow> m a \<noteq> None \<and> block m (a + 1) n"
  unfolding block_def by (auto simp: less_Suc_eq_0_disj ac_simps)

lemma block_top: "block m a (Suc n) \<longleftrightarrow> m (a + of_nat n) \<noteq> None \<and> block m a n"
  unfolding block_def by (auto simp: less_Suc_eq)

lemma block_4: "block m a 4 \<longleftrightarrow> m a \<noteq> None \<and> m (a + 1) \<noteq> None \<and> m (a + 2) \<noteq> None \<and> m (a + 3) \<noteq> None"
proof -
  have "(4 :: nat) = Suc (Suc (Suc (Suc 0)))" by simp
  then show ?thesis by (simp only: block_Suc) (simp add: block_def add.assoc)
qed

lemma block_store: "block m a n \<Longrightarrow> block (m(x \<mapsto> b)) a n"
  by (auto simp: block_def)

lemma block_mono: "block m a n \<Longrightarrow> k \<le> n \<Longrightarrow> block m a k"
  by (auto simp: block_def)

lemma store_Some: "m a = Some x \<Longrightarrow> store m a b = Some (m(a \<mapsto> b))"
  by (simp add: store_def)

lemma unat_below:
  assumes "(a :: u32) \<noteq> d"
  shows "unat (a - d) = Suc (unat (a - (d + 1)))"
proof -
  have "unat (a - d - 1) = unat (a - d) - 1" using assms by (intro unat_minus_one) simp
  moreover have "0 < unat (a - d)" using assms by (simp add: unat_gt_0)
  ultimately show ?thesis by (simp add: diff_diff_eq)
qed

lemma unat_max: "unat (d - (d + 1) :: u32) = 2 ^ 32 - 1"
  by (simp add: unsigned_minus_1_eq_mask mask_eq_exp_minus_1)

lemma unat_inverse: "of_nat (unat (a :: u32)) = a"
  by simp

lemma unat_nat: "i < 2 ^ 32 \<Longrightarrow> unat (of_nat i :: u32) = i"
  by (simp add: unat_of_nat)

lemma word_offset: "unat ((a :: u32) - d) = n \<Longrightarrow> a = d + of_nat n"
  by (metis add.commute diff_add_cancel unat_inverse)

lemma copied_Suc:
  assumes "n < 2 ^ 32 - 1" and "\<And>j. j < n \<Longrightarrow> s + of_nat (Suc j) \<noteq> d" and "m s = Some b"
  shows "copied (Suc n) d s m = copied n (d + 1) (s + 1) (m(d \<mapsto> b))"
proof (rule ext)
  fix a
  show "copied (Suc n) d s m a = copied n (d + 1) (s + 1) (m(d \<mapsto> b)) a"
  proof (cases "a = d")
    case True
    then show ?thesis using assms(1,3) unat_max [of d] by (simp add: copied_def)
  next
    case False
    note u = unat_below [OF False]
    have "s + (a - d) \<noteq> d" if l: "unat (a - (d + 1)) < n"
    proof -
      have "a - d = of_nat (Suc (unat (a - (d + 1))))" using unat_inverse [of "a - d"] unfolding u by (rule sym)
      with assms(2) [OF l] show ?thesis by metis
    qed
    moreover have "s + 1 + (a - (d + 1)) = s + (a - d)" by simp
    ultimately show ?thesis using False u by (simp only: copied_def fun_upd_apply Suc_less_eq if_False split: if_split) auto
  qed
qed

lemma copy_up_copied:
  assumes "n < 2 ^ 32" and "block m d n" and "block m s n" and "\<And>i j. i < j \<Longrightarrow> j < n \<Longrightarrow> s + of_nat j \<noteq> d + of_nat i"
  shows "copy_up n d s m = Some (copied n d s m)"
  using assms
proof (induction n arbitrary: d s m)
  case 0
  show ?case by (simp add: copied_def fun_eq_iff)
next
  case (Suc n)
  from Suc.prems obtain b x where b: "m s = Some b" "m d = Some x" by (auto simp: block_Suc)
  have "copy_up n (d + 1) (s + 1) (m(d \<mapsto> b)) = Some (copied n (d + 1) (s + 1) (m(d \<mapsto> b)))"
  proof (rule Suc.IH)
    show "s + 1 + of_nat j \<noteq> d + 1 + of_nat i" if "i < j" "j < n" for i j
      using Suc.prems(4) [of "Suc i" "Suc j"] that by (simp add: ac_simps)
    show "block (m(d \<mapsto> b)) (d + 1) n" "block (m(d \<mapsto> b)) (s + 1) n"
      using Suc.prems(2,3) by (simp_all add: block_Suc block_store del: fun_upd_apply)
  qed (use Suc.prems(1) in simp)
  moreover have "copied (Suc n) d s m = copied n (d + 1) (s + 1) (m(d \<mapsto> b))"
  proof (rule copied_Suc)
    show "s + of_nat (Suc j) \<noteq> d" if "j < n" for j using Suc.prems(4) [of 0 "Suc j"] that by simp
  qed (use Suc.prems(1) b in simp_all)
  ultimately show ?case using b by (simp add: store_Some)
qed

lemma copy_down_copied:
  assumes "n < 2 ^ 32" and "block m d n" and "block m s n" and "\<And>i j. i < j \<Longrightarrow> j < n \<Longrightarrow> s + of_nat i \<noteq> d + of_nat j"
  shows "copy_down n (d + of_nat n) (s + of_nat n) m = Some (copied n d s m)"
  using assms
proof (induction n arbitrary: m)
  case 0
  show ?case by (simp add: copied_def fun_eq_iff)
next
  case (Suc n)
  from Suc.prems obtain b x where b: "m (s + of_nat n) = Some b" "m (d + of_nat n) = Some x" by (auto simp: block_top)
  let ?m = "m(d + of_nat n \<mapsto> b)"
  have "copy_down n (d + of_nat n) (s + of_nat n) ?m = Some (copied n d s ?m)"
  proof (rule Suc.IH)
    show "block ?m d n" "block ?m s n" using Suc.prems(2,3) by (simp_all add: block_top block_store del: fun_upd_apply)
  qed (use Suc.prems(1,4) in auto)
  moreover have "copied n d s ?m a = copied (Suc n) d s m a" for a
  proof (cases "unat (a - d) = n")
    case True
    from word_offset [OF this] show ?thesis using True b(1) by (simp add: copied_def)
  next
    case False
    have "s + (a - d) \<noteq> d + of_nat n" if "unat (a - d) < n"
      using Suc.prems(4) [of "unat (a - d)" n] that by simp
    moreover have "a \<noteq> d + of_nat n" using False Suc.prems(1) by (auto simp: unat_nat)
    ultimately show ?thesis using False by (simp add: copied_def less_Suc_eq)
  qed
  then have "copied n d s ?m = copied (Suc n) d s m" by (rule ext)
  ultimately show ?case using b by (simp add: store_Some diff_add_eq [symmetric] add_diff_eq [symmetric])
qed

text \<open>C20. \<^verbatim>\<open>memmove\<close> is a simultaneous copy, also when source and destination overlap: each byte of the
  destination becomes what the source byte was before, and every other byte is unchanged.\<close>

theorem memmove_simultaneous:
  assumes "block m src (unat n)" and "block m dst (unat n)" and "unat src + unat n < 2 ^ 32" and "unat dst + unat n < 2 ^ 32"
  shows "memmove dst src n m = Some (dst, copied (unat n) dst src m)"
proof -
  have n: "unat n < 2 ^ 32" using unsigned_less [of n] by simp
  have us: "unat (src + of_nat i) = unat src + i" "unat (dst + of_nat i) = unat dst + i" if "i < unat n" for i
  proof -
    have i: "unat (of_nat i :: u32) = i" using that n by (intro unat_nat) simp
    show "unat (src + of_nat i) = unat src + i" "unat (dst + of_nat i) = unat dst + i"
      using that assms(3,4) i by (simp_all add: unat_add_less)
  qed
  have sn: "unat (src + n) = unat src + unat n" using assms(3) by (simp add: unat_add_less)
  show ?thesis
  proof (cases "src < dst \<and> src + n > dst")
    case True
    have "copy_down (unat n) (dst + of_nat (unat n)) (src + of_nat (unat n)) m = Some (copied (unat n) dst src m)"
    proof (rule copy_down_copied [OF n assms(2,1)])
      fix i j assume ij: "i < j" "j < unat n"
      show "src + of_nat i \<noteq> dst + of_nat j"
      proof
        assume "src + of_nat i = dst + of_nat j"
        then have "unat src + i = unat dst + j" using us ij by (metis less_trans)
        with True ij show False by (simp add: word_less_nat_alt)
      qed
    qed
    then show ?thesis using True by (simp add: memmove_def)
  next
    case False
    have "copy_up (unat n) dst src m = Some (copied (unat n) dst src m)"
    proof (rule copy_up_copied [OF n assms(2,1)])
      fix i j assume ij: "i < j" "j < unat n"
      show "src + of_nat j \<noteq> dst + of_nat i"
      proof
        assume "src + of_nat j = dst + of_nat i"
        then have "unat src + j = unat dst + i" using us ij by (metis less_trans)
        with False ij sn show False by (auto simp: word_less_nat_alt)
      qed
    qed
    then show ?thesis unfolding memmove_def if_not_P [OF False] by simp
  qed
qed

theorem memmove_simultaneous_witness:
  "memmove 0x1002 0x1000 4 (\<lambda>a. if 0x1000 \<le> a \<and> a < 0x1010 then Some (ucast a) else None) =
    Some (0x1002, copied 4 0x1002 0x1000 (\<lambda>a. if 0x1000 \<le> a \<and> a < 0x1010 then Some (ucast a) else None))"
proof -
  let ?m = "\<lambda>a :: u32. if 0x1000 \<le> a \<and> a < 0x1010 then Some (ucast a :: u8) else None"
  have b: "block ?m 0x1000 4" "block ?m 0x1002 4" unfolding block_4 by simp_all
  from memmove_simultaneous [of ?m "0x1000" 4 "0x1002"] b show ?thesis by simp
qed



section \<open>Strings in memory\<close>

fun cstr :: "bmem \<Rightarrow> u32 \<Rightarrow> u8 list \<Rightarrow> bool" where
  "cstr m a [] \<longleftrightarrow> m a = Some 0"
| "cstr m a (b # w) \<longleftrightarrow> b \<noteq> 0 \<and> m a = Some b \<and> cstr m (a + 1) w"

lemma cstr_nonzero: "cstr m a w \<Longrightarrow> 0 \<notin> set w"
  by (induction w arbitrary: a) auto

lemma cstr_cong: "cstr m a w \<Longrightarrow> (\<And>i. i \<le> length w \<Longrightarrow> m' (a + of_nat i) = m (a + of_nat i)) \<Longrightarrow> cstr m' a w"
proof (induction w arbitrary: a)
  case (Cons b w)
  have "m' (a + 1 + of_nat i) = m (a + 1 + of_nat i)" if "i \<le> length w" for i
    using Cons.prems(2) [of "Suc i"] that by (simp add: ac_simps)
  with Cons.IH [of "a + 1"] Cons.prems(1) Cons.prems(2) [of 0] show ?case by simp
qed (use in auto)

lemma cstr_nth: "cstr m a w \<Longrightarrow> i \<le> length w \<Longrightarrow> m (a + of_nat i) = Some ((w @ [0]) ! i)"
proof (induction w arbitrary: a i)
  case (Cons b w)
  then show ?case by (cases i) (auto simp: add.assoc [symmetric])
qed auto

lemma strlen_from_cstr:
  "cstr m (s + word_of_int n) w \<Longrightarrow> n + int (length w) < 2 ^ 31 \<Longrightarrow> strlen_from m s n = Some (n + int (length w))"
proof (induction w arbitrary: n)
  case Nil
  then show ?case by (subst strlen_from.simps) simp
next
  case (Cons b w)
  have "cstr m (s + word_of_int (n + 1)) w" using Cons.prems(1) by (simp add: ac_simps)
  from Cons.IH [OF this] Cons.prems show ?case by (subst strlen_from.simps) (simp add: ac_simps)
qed

lemma strlen_cstr: "cstr m s w \<Longrightarrow> length w < 2 ^ 31 \<Longrightarrow> strlen s m = Some (int (length w))"
  using strlen_from_cstr [of m s 0 w] by (simp add: strlen_def)

text \<open>The result of a comparison, and its relation to the lexicographic order of the bytes.\<close>

fun str_order :: "u8 list \<Rightarrow> u8 list \<Rightarrow> int" where
  "str_order [] [] = 0"
| "str_order (a # v) [] = uint a"
| "str_order [] (b # w) = - uint b"
| "str_order (a # v) (b # w) = (if a = b then str_order v w else uint a - uint b)"

lemma strcmp_cstr: "cstr m p v \<Longrightarrow> cstr m q w \<Longrightarrow> strcmp p q m = Some (str_order v w)"
proof (induction v w arbitrary: p q rule: str_order.induct)
  case (4 a v b w)
  then show ?case by (subst strcmp.simps) auto
qed (subst strcmp.simps; auto)+

lemma uint_pos: "(a :: u8) \<noteq> 0 \<Longrightarrow> 0 < uint a"
  using word_gt_0 [of a] by (simp add: word_less_def)

lemma str_order_sign:
  "0 \<notin> set v \<Longrightarrow> 0 \<notin> set w \<Longrightarrow> (str_order v w = 0 \<longleftrightarrow> v = w) \<and> (str_order v w < 0 \<longleftrightarrow> ord_class.lexordp v w)"
proof (induction v w rule: str_order.induct)
  case (2 a v)
  then show ?case using uint_pos [of a] by auto
next
  case (3 b w)
  then show ?case using uint_pos [of b] by auto
next
  case (4 a v b w)
  then show ?case by (cases "a = b"; cases "uint a" "uint b" rule: linorder_cases) (auto simp: word_less_def word_uint_eq_iff)
qed simp

text \<open>C33. \<^verbatim>\<open>strcmp\<close> decides equality of strings, and its sign is their lexicographic order as unsigned bytes.\<close>

theorem strcmp_order:
  assumes "cstr m p v" and "cstr m q w"
  shows "\<exists>r. strcmp p q m = Some r \<and> (r = 0 \<longleftrightarrow> v = w) \<and> (r < 0 \<longleftrightarrow> ord_class.lexordp v w)"
  using strcmp_cstr [OF assms] str_order_sign [OF cstr_nonzero [OF assms(1)] cstr_nonzero [OF assms(2)]] by simp

theorem strcmp_order_witness:
  "\<exists>r. strcmp 16 32 [16 \<mapsto> 97, 17 \<mapsto> 0, 32 \<mapsto> 97, 33 \<mapsto> 200, 34 \<mapsto> 0] = Some r \<and>
    (r = 0 \<longleftrightarrow> [97] = [97, 200 :: u8]) \<and> (r < 0 \<longleftrightarrow> ord_class.lexordp [97] [97, 200 :: u8])"
  by (rule strcmp_order) simp_all

text \<open>\<^verbatim>\<open>safestrcpy\<close> within a buffer of \<open>k + 1\<close> bytes.\<close>

definition apart :: "u32 \<Rightarrow> nat \<Rightarrow> u32 \<Rightarrow> nat \<Rightarrow> bool" where
  "apart a k b n \<longleftrightarrow> (\<forall>i \<le> k. \<forall>j \<le> n. a + of_nat i \<noteq> b + of_nat j)"

lemma apartI: "(\<And>i j. i \<le> k \<Longrightarrow> j \<le> n \<Longrightarrow> a + of_nat i \<noteq> b + of_nat j) \<Longrightarrow> apart a k b n"
  by (simp add: apart_def)

lemma apartD: "apart a k b n \<Longrightarrow> i \<le> k \<Longrightarrow> j \<le> n \<Longrightarrow> a + of_nat i \<noteq> b + of_nat j"
  by (simp add: apart_def)

lemma apart_Suc: "apart a (Suc k) b (Suc n) \<Longrightarrow> apart (a + 1) k (b + 1) n"
proof (rule apartI)
  fix i j assume "apart a (Suc k) b (Suc n)" "i \<le> k" "j \<le> n"
  from apartD [OF this(1), of "Suc i" "Suc j"] this(2,3) show "a + 1 + of_nat i \<noteq> b + 1 + of_nat j" by (simp add: ac_simps)
qed

lemma apart_base: "apart a k b n \<Longrightarrow> j \<le> n \<Longrightarrow> b + of_nat j \<noteq> a"
  using apartD [of a k b n 0 j] by auto

lemma cstr_upd: "cstr m t w \<Longrightarrow> apart s k t (length w) \<Longrightarrow> cstr (m(s \<mapsto> b)) t w"
  by (erule cstr_cong) (auto dest: apart_base)

lemma safestr_loop_cstr:
  assumes "cstr m t w" and "block m s (Suc k)" and "k < 2 ^ 32 - 1" and "apart s k t (length w)"
  shows "\<exists>m'. safestr_loop k s t m = Some m' \<and> cstr m' s (take k w) \<and> (\<forall>a. m' a \<noteq> m a \<longrightarrow> unat (a - s) \<le> k) \<and>
    (\<forall>a. m' a = None \<longleftrightarrow> m a = None)"
  using assms
proof (induction k arbitrary: s t m w)
  case 0
  then show ?case by (auto simp: block_Suc store_Some)
next
  case (Suc k)
  from Suc.prems(2) obtain x y where x: "m s = Some x" "m (s + 1) = Some y" "block m (s + 1) (Suc k)"
    by (auto simp: block_Suc)
  show ?case
  proof (cases w)
    case Nil
    let ?m = "m(s \<mapsto> 0, s + 1 \<mapsto> 0)"
    have e: "safestr_loop (Suc k) s t m = Some ?m" using Nil Suc.prems(1) x by (simp add: store_Some)
    have c: "cstr ?m s (take (Suc k) w)" using Nil by simp
    have d: "\<forall>a. ?m a \<noteq> m a \<longrightarrow> unat (a - s) \<le> Suc k"
    proof (intro allI impI)
      fix a assume "?m a \<noteq> m a"
      then have "a = s \<or> a = s + 1" by (metis fun_upd_other)
      then show "unat (a - s) \<le> Suc k" by auto
    qed
    have "\<forall>a. ?m a = None \<longleftrightarrow> m a = None" using x(1,2) by simp
    then show ?thesis using e c d by blast
  next
    case (Cons b v)
    let ?m = "m(s \<mapsto> b)"
    have b: "m t = Some b" "b \<noteq> 0" "cstr m (t + 1) v" using Suc.prems(1) Cons by auto
    have ap: "apart (s + 1) k (t + 1) (length v)" using Suc.prems(4) Cons by (auto intro: apart_Suc)
    have c1: "cstr ?m (t + 1) v"
    proof (rule cstr_cong [OF b(3)])
      show "?m (t + 1 + of_nat i) = m (t + 1 + of_nat i)" if "i \<le> length v" for i
        using apart_base [OF Suc.prems(4), of "Suc i"] that Cons by (simp add: ac_simps)
    qed
    have bl: "block ?m (s + 1) (Suc k)" using x(3) by (rule block_store)
    have k: "k < 2 ^ 32 - 1" using Suc.prems(3) by simp
    from Suc.IH [OF c1 bl k ap] obtain m' where
      m': "safestr_loop k (s + 1) (t + 1) ?m = Some m'" "cstr m' (s + 1) (take k v)"
        "\<forall>a. m' a \<noteq> ?m a \<longrightarrow> unat (a - (s + 1)) \<le> k" "\<forall>a. m' a = None \<longleftrightarrow> ?m a = None" by blast
    have "m' s = Some b"
    proof (rule ccontr)
      assume "m' s \<noteq> Some b"
      then have "unat (s - (s + 1)) \<le> k" using m'(3) [rule_format, of s] by (simp only: fun_upd_same) simp
      then show False using unat_max [of s] Suc.prems(3) by simp
    qed
    moreover have "unat (a - s) \<le> Suc k" if "m' a \<noteq> m a" for a
    proof (cases "a = s")
      case False
      then have "m' a \<noteq> ?m a" using that by simp
      then show ?thesis using m'(3) unat_below [OF False] by simp
    qed simp
    moreover have "safestr_loop (Suc k) s t m = Some m'" using b x(1) m'(1) by (simp add: store_Some)
    moreover have "\<forall>a. m' a = None \<longleftrightarrow> m a = None" using m'(4) x(1) by (metis fun_upd_apply option.distinct(1))
    ultimately show ?thesis using m'(2) b(2) Cons by (intro exI [of _ m']) simp
  qed
qed

text \<open>C34. \<^verbatim>\<open>safestrcpy\<close> with a positive size writes only into the buffer of that size and leaves there
  the longest prefix of the source that fits, terminated by a null byte.\<close>

theorem safestrcpy_bounded:
  assumes "cstr m t w" and "0 < n" and "n < 2 ^ 31" and "block m s (nat n)" and "apart s (nat n - 1) t (length w)"
  shows "\<exists>m'. safestrcpy s t n m = Some (s, m') \<and> cstr m' s (take (nat n - 1) w) \<and>
    (\<forall>a. m' a \<noteq> m a \<longrightarrow> unat (a - s) < nat n)"
proof -
  have "Suc (nat n - 1) = nat n" "nat n - 1 < 2 ^ 32 - 1" "nat (n - 1) = nat n - 1" using assms(2,3) by auto
  with safestr_loop_cstr [of m t w s "nat n - 1"] assms obtain m' where
    "safestr_loop (nat n - 1) s t m = Some m'" "cstr m' s (take (nat n - 1) w)" "\<forall>a. m' a \<noteq> m a \<longrightarrow> unat (a - s) \<le> nat n - 1"
    by auto
  then show ?thesis using assms(2) \<open>nat (n - 1) = nat n - 1\<close> by (intro exI [of _ m']) (auto simp: safestrcpy_def)
qed

theorem safestrcpy_bounded_witness:
  "\<exists>m'. safestrcpy 32 16 2 [16 \<mapsto> 97, 17 \<mapsto> 98, 18 \<mapsto> 0, 32 \<mapsto> 1, 33 \<mapsto> 1] = Some (32, m') \<and> cstr m' 32 [97]"
proof -
  let ?m = "[16 \<mapsto> 97, 17 \<mapsto> 98, 18 \<mapsto> 0, 32 \<mapsto> 1, 33 \<mapsto> 1] :: bmem"
  have c: "cstr ?m 16 [97, 98]" by simp
  have b: "block ?m 32 (nat 2)" by (simp add: block_def less_Suc_eq numeral_2_eq_2)
  have "apart 32 (nat 2 - 1) 16 (length [97, 98 :: u8])" by (simp add: apart_def le_Suc_eq)
  from safestrcpy_bounded [OF c _ _ b this] show ?thesis by auto
qed

end
