(* ===== verification/Kstring.thy ===== *)
theory Kstring
  imports Kmem "HOL-Library.Signed_Division"
begin

text \<open>
  Allocated strings and numbers in text: the part of \<^verbatim>\<open>kernel/lib/string.c\<close> that calls the kernel
  allocator, and \<^verbatim>\<open>kernel/lib/ctype.c\<close>. The allocator hands out the addresses of a given list; a block
  that it has handed out, and nothing else of its memory, can be read and written. \<^verbatim>\<open>tokenize\<close> is equal to
  splitting at the separator, and \<^verbatim>\<open>atoi\<close> reads what \<^verbatim>\<open>itostr\<close> prints.
\<close>

declare neq0_conv [iff del] bot_nat_0.not_eq_extremum [simp del]

section \<open>The allocator as the code sees it\<close>

text \<open>
  Memory, the sizes of the blocks handed out, the addresses still to be handed out (0 is a failure) and
  the bytes a new block holds.
\<close>

record kst =
  k_mem :: bmem
  k_blk :: "u32 \<Rightarrow> u32 option"
  k_next :: "u32 list"
  k_junk :: "u32 \<Rightarrow> u8"

definition in_blk :: "u32 \<Rightarrow> u32 \<Rightarrow> u32 \<Rightarrow> bool" where
  "in_blk p sz a \<longleftrightarrow> unat (a - p) < unat sz"

definition kmalloc :: "u32 \<Rightarrow> kst \<Rightarrow> u32 \<times> kst" where
  "kmalloc sz st =
    (let p = fst_or 0 (k_next st); st = st\<lparr>k_next := tl (k_next st)\<rparr>
     in if p = 0 then (0, st)
        else (p, st\<lparr>k_blk := (k_blk st)(p \<mapsto> sz), k_mem := (\<lambda>a. if in_blk p sz a then Some (k_junk st a) else k_mem st a)\<rparr>))"

definition kfree :: "u32 \<Rightarrow> kst \<Rightarrow> kst option" where
  "kfree p st =
    (if p = 0 then Some st
     else do {
       sz \<leftarrow> k_blk st p;
       Some (st\<lparr>k_blk := (k_blk st)(p := None), k_mem := (\<lambda>a. if in_blk p sz a then None else k_mem st a)\<rparr>)
     })"

text \<open>A block that grows is moved.\<close>

definition krealloc :: "u32 \<Rightarrow> u32 \<Rightarrow> kst \<Rightarrow> (u32 \<times> kst) option" where
  "krealloc p sz st =
    (if p = 0 then Some (kmalloc sz st)
     else do {
       old \<leftarrow> k_blk st p;
       if sz \<le> old then Some (p, st)
       else do {
         let (q, st) = kmalloc sz st;
         if q = 0 then Some (0, st)
         else do {
           m \<leftarrow> copy_up (unat old) q p (k_mem st);
           st \<leftarrow> kfree p (st\<lparr>k_mem := m\<rparr>);
           Some (q, st)
         }
       }
     })"

text \<open>A statement on the memory alone.\<close>

definition on_mem :: "(bmem \<Rightarrow> bmem option) \<Rightarrow> kst \<Rightarrow> kst option" where
  "on_mem f st = do { m \<leftarrow> f (k_mem st); Some (st\<lparr>k_mem := m\<rparr>) }"


section \<open>Allocated strings\<close>

definition strdup :: "u32 \<Rightarrow> kst \<Rightarrow> (u32 \<times> kst) option" where
  "strdup s st = do {
     n \<leftarrow> strlen s (k_mem st);
     let len = n + 1;
     let (str, st) = kmalloc (word_of_int len) st;
     if str = 0 then Some (0, st)
     else do {
       st \<leftarrow> on_mem (strcpy str s) st;
       st \<leftarrow> on_mem (\<lambda>m. store m (str + word_of_int len - 1) 0) st;
       Some (str, st)
     }
   }"

text \<open>
  The loop that measures a token. A \<^verbatim>\<open>char\<close> is signed: it is compared with the \<^verbatim>\<open>int\<close> \<open>c\<close> after sign extension.
\<close>

partial_function (option) grab_loop :: "u32 \<Rightarrow> int \<Rightarrow> int \<Rightarrow> bmem \<Rightarrow> int option" where
  "grab_loop s c len m = do {
     b \<leftarrow> m s;
     if b \<noteq> 0 \<and> sint b \<noteq> c then do { kassert (len < 2 ^ 31 - 1); grab_loop (s + 1) c (len + 1) m } else Some len
   }"

definition grabtok :: "u32 \<Rightarrow> int \<Rightarrow> kst \<Rightarrow> (u32 \<times> int \<times> kst) option" where
  "grabtok s c st =
    (if s = 0 then Some (0, 0, st)
     else do {
       len \<leftarrow> grab_loop s c 0 (k_mem st);
       let (tok, st) = kmalloc (word_of_int (len + 1)) st;
       st \<leftarrow> on_mem (\<lambda>m. map_option snd (memset tok 0 (word_of_int (len + 1)) m)) st;
       st \<leftarrow> on_mem (\<lambda>m. map_option snd (safestrcpy tok s (len + 1) m)) st;
       Some (tok, len, st)
     })"

partial_function (option) trim_loop :: "u32 \<Rightarrow> int \<Rightarrow> bmem \<Rightarrow> bmem option" where
  "trim_loop p c m = do {
     b \<leftarrow> m p;
     if b \<noteq> 0 \<and> sint b = c then do { m \<leftarrow> store m p 0; trim_loop (p - 1) c m } else Some m
   }"

partial_function (option) skip_loop :: "u32 \<Rightarrow> int \<Rightarrow> bmem \<Rightarrow> u32 option" where
  "skip_loop p c m = do {
     b \<leftarrow> m p;
     if b \<noteq> 0 \<and> sint b = c then skip_loop (p + 1) c m else Some p
   }"

text \<open>The loop over the tokens: position, array, number of tokens.\<close>

partial_function (option) token_loop :: "u32 \<Rightarrow> int \<Rightarrow> u32 \<Rightarrow> int \<Rightarrow> kst \<Rightarrow> (u32 \<times> int \<times> kst) option" where
  "token_loop buf c tokens i st = do {
     b \<leftarrow> k_mem st buf;
     if b = 0 then Some (tokens, i, st)
     else do {
       (tokens, st) \<leftarrow> krealloc tokens (word_of_int (4 * (i + 1))) st;
       buf \<leftarrow> skip_loop buf c (k_mem st);
       (tok, len, st) \<leftarrow> grabtok buf c st;
       if tok = 0 then Some (tokens, i, st)
       else do {
         st \<leftarrow> on_mem (\<lambda>m. store32 m (tokens + 4 * word_of_int i) tok) st;
         token_loop (buf + word_of_int len) c tokens (i + 1) st
       }
     }
   }"

definition tokenize :: "u32 \<Rightarrow> int \<Rightarrow> kst \<Rightarrow> (u32 \<times> kst) option" where
  "tokenize s c st =
    (if s = 0 \<or> c = 0 then Some (0, st)
     else do {
       len \<leftarrow> strlen s (k_mem st);
       let (buf, st) = kmalloc (word_of_int (len + 1)) st;
       st \<leftarrow> on_mem (\<lambda>m. map_option snd (memset buf 0 (word_of_int (len + 1)) m)) st;
       st \<leftarrow> on_mem (\<lambda>m. map_option snd (safestrcpy buf s (len + 1) m)) st;
       n \<leftarrow> strlen buf (k_mem st);
       st \<leftarrow> on_mem (trim_loop (buf + word_of_int (n - 1)) c) st;
       (tokens, i, st) \<leftarrow> token_loop buf c 0 0 st;
       (tokens, st) \<leftarrow> krealloc tokens (word_of_int (4 * (i + 1))) st;
       st \<leftarrow> on_mem (\<lambda>m. store32 m (tokens + 4 * word_of_int i) 0) st;
       st \<leftarrow> kfree buf st;
       Some (tokens, st)
     })"

partial_function (option) tokens_loop :: "u32 \<Rightarrow> kst \<Rightarrow> kst option" where
  "tokens_loop p st = do {
     token \<leftarrow> load32 (k_mem st) p;
     if token = 0 then Some st else do { st \<leftarrow> kfree token st; tokens_loop (p + 4) st }
   }"

definition tokens_free :: "u32 \<Rightarrow> kst \<Rightarrow> kst option" where
  "tokens_free tokens st =
    (if tokens = 0 then Some st else do { st \<leftarrow> tokens_loop tokens st; kfree tokens st })"

definition canonicalize_path :: "u32 \<Rightarrow> kst \<Rightarrow> (u32 \<times> kst) option" where
  "canonicalize_path path st = tokenize path 47 st"

definition combine_strings :: "u32 \<Rightarrow> u32 \<Rightarrow> kst \<Rightarrow> (u32 \<times> kst) option" where
  "combine_strings s0 s1 st =
    (if s0 = 0 \<or> s1 = 0 then Some (0, st)
     else do {
       a \<leftarrow> strlen s0 (k_mem st);
       b \<leftarrow> strlen s1 (k_mem st);
       let len = word_of_int (a + b + 1);
       let (str, st) = kmalloc len st;
       if str = 0 then Some (0, st)
       else do {
         st \<leftarrow> on_mem (\<lambda>m. map_option snd (memset str 0 len m)) st;
         st \<leftarrow> on_mem (strcat str s0) st;
         st \<leftarrow> on_mem (strcat str s1) st;
         Some (str, st)
       }
     })"


section \<open>Numbers\<close>

definition isdigit :: "int \<Rightarrow> bool" where
  "isdigit ch \<longleftrightarrow> ch \<ge> 0x30 \<and> ch \<le> 0x39"

definition digit :: "int \<Rightarrow> u8 option" where
  "digit n = (if 0 \<le> n \<and> n < 16 then Some (if n < 10 then word_of_int (48 + n) else word_of_int (55 + n)) else None)"

text \<open>
  The two loops of \<^verbatim>\<open>itostr\<close>: the first advances the pointer by one for each digit, the second writes the
  digits backwards. Division truncates towards zero.
\<close>

partial_function (option) count_loop :: "u32 \<Rightarrow> int \<Rightarrow> int \<Rightarrow> u32 option" where
  "count_loop str shifter base = do {
     kassert (base \<noteq> 0);
     let str = str + 1;
     let shifter = shifter sdiv base;
     if shifter \<noteq> 0 then count_loop str shifter base else Some str
   }"

partial_function (option) digit_loop :: "u32 \<Rightarrow> int \<Rightarrow> int \<Rightarrow> bmem \<Rightarrow> bmem option" where
  "digit_loop str n base m = do {
     let str = str - 1;
     d \<leftarrow> digit (n smod base);
     m \<leftarrow> store m str d;
     let n = n sdiv base;
     if n \<noteq> 0 then digit_loop str n base m else Some m
   }"

text \<open>A \<^verbatim>\<open>long\<close> has 32 bits; the negation of the least one overflows.\<close>

definition itostr :: "u32 \<Rightarrow> int \<Rightarrow> int \<Rightarrow> bmem \<Rightarrow> bmem option" where
  "itostr str n base m = do {
     (str, m) \<leftarrow> (if n < 0 then do { m \<leftarrow> store m str 45; Some (str + 1, m) } else Some (str, m));
     kassert (n \<noteq> - (2 ^ 31));
     let n = \<bar>n\<bar>;
     str \<leftarrow> count_loop str n base;
     m \<leftarrow> store m str 0;
     digit_loop str n base m
   }"

text \<open>Signed overflow in the sum is undefined.\<close>

partial_function (option) atoi_loop :: "u32 \<Rightarrow> int \<Rightarrow> bmem \<Rightarrow> int option" where
  "atoi_loop p val m = do {
     b \<leftarrow> m p;
     if b \<noteq> 0 \<and> sint b \<le> 57 then do {
       let val = val * 10;
       kassert (- (2 ^ 31) \<le> val \<and> val < 2 ^ 31);
       let val = val + (sint b - 48);
       kassert (- (2 ^ 31) \<le> val \<and> val < 2 ^ 31);
       atoi_loop (p + 1) val m
     }
     else Some val
   }"

definition atoi :: "u32 \<Rightarrow> bmem \<Rightarrow> int option" where
  "atoi s m = (if s = 0 then Some 0 else atoi_loop s 0 m)"

partial_function (option) atoo_loop :: "u32 \<Rightarrow> u32 \<Rightarrow> bmem \<Rightarrow> int option" where
  "atoo_loop p val m = do {
     b \<leftarrow> m p;
     if b \<noteq> 0 \<and> sint b < 56 then atoo_loop (p + 1) (push_bit 3 val OR word_of_int (sint b - 48)) m
     else Some (sint val)
   }"

definition atoo :: "u32 \<Rightarrow> bmem \<Rightarrow> int option" where
  "atoo s m = (if s = 0 then Some 0 else atoo_loop s 0 m)"

text \<open>The buffer \<open>ii\<close> is on the stack, at the address given; its eleven bytes are zero on entry.\<close>

definition strcat_num :: "u32 \<Rightarrow> u32 \<Rightarrow> int \<Rightarrow> u8 \<Rightarrow> kst \<Rightarrow> (u32 \<times> kst) option" where
  "strcat_num ii str num base st = do {
     let st = st\<lparr>k_mem := (\<lambda>a. if in_blk ii 11 a then Some 0 else k_mem st a)\<rparr>;
     st \<leftarrow> on_mem (itostr ii num (uint base)) st;
     combine_strings str ii st
   }"



section \<open>Decimal numbers\<close>

fun dig :: "nat \<Rightarrow> nat list" where
  "dig n = (if n < 10 then [n] else dig (n div 10) @ [n mod 10])"

declare dig.simps [simp del]

definition dchr :: "nat \<Rightarrow> u8" where
  "dchr d = word_of_int (48 + int d)"

lemma dig_not_Nil [simp]: "dig n \<noteq> []"
  by (subst dig.simps) simp

lemma dig_digits: "d \<in> set (dig n) \<Longrightarrow> d < 10"
proof (induction n rule: dig.induct)
  case (1 n)
  then show ?case by (cases "n < 10") (auto simp: dig.simps [of n])
qed

lemma length_dig: "0 < k \<Longrightarrow> n < 10 ^ k \<Longrightarrow> length (dig n) \<le> k"
proof (induction n arbitrary: k rule: dig.induct)
  case (1 n)
  show ?case
  proof (cases "n < 10")
    case False
    then obtain j where k: "k = Suc j" "0 < j" using "1.prems" by (cases k; cases "k - 1") auto
    then have "n div 10 < 10 ^ j" using "1.prems" by (simp add: less_mult_imp_div_less mult.commute)
    then show ?thesis using "1.IH" [OF False k(2)] False k by (simp add: dig.simps [of n])
  qed (use "1.prems" in \<open>simp add: dig.simps [of n]\<close>)
qed

lemma foldl_dig: "foldl (\<lambda>v d. v * 10 + int d) 0 (dig n) = int n"
proof (induction n rule: dig.induct)
  case (1 n)
  then show ?case by (cases "n < 10") (simp_all add: dig.simps [of n] zmod_int zdiv_int)
qed

lemma sdiv_10: "int n sdiv 10 = int (n div 10)" "int n smod 10 = int (n mod 10)"
  by (simp_all add: signed_divide_int_def signed_modulo_int_def zdiv_int zmod_int sgn_if minus_mult_div_eq_mod)

lemma count_loop_dig: "count_loop str (int n) 10 = Some (str + of_nat (length (dig n)))"
proof (induction n arbitrary: str rule: dig.induct)
  case (1 n)
  show ?case
  proof (cases "n < 10")
    case True
    then show ?thesis by (subst count_loop.simps) (simp add: sdiv_10 dig.simps [of n])
  next
    case False
    then have "n div 10 \<noteq> 0" by simp
    then show ?thesis using "1.IH" [OF False, of "str + 1"] False
      by (subst count_loop.simps) (simp add: sdiv_10 dig.simps [of n] ac_simps del: div_eq_0_iff)
  qed
qed

definition wrote :: "bmem \<Rightarrow> u32 \<Rightarrow> u8 list \<Rightarrow> bmem" where
  "wrote m a w x = (if unat (x - a) < length w then Some (w ! unat (x - a)) else m x)"

lemma wrote_snoc:
  assumes "length w < 2 ^ 32"
  shows "wrote (m(a + of_nat (length w) \<mapsto> b)) a w = wrote m a (w @ [b])"
proof (rule ext)
  fix x
  show "wrote (m(a + of_nat (length w) \<mapsto> b)) a w x = wrote m a (w @ [b]) x"
  proof (cases "unat (x - a) = length w")
    case True
    from word_offset [OF this] show ?thesis using True by (simp add: wrote_def)
  next
    case False
    then have "x \<noteq> a + of_nat (length w)" using assms by (auto simp: unat_nat)
    with False show ?thesis by (simp add: wrote_def nth_append less_Suc_eq)
  qed
qed

lemma digit_dchr: "d < 10 \<Longrightarrow> digit (int d) = Some (dchr d)"
  by (simp add: digit_def dchr_def)

lemma digit_loop_dig:
  assumes "length (dig n) < 2 ^ 32" and "block m str (length (dig n))"
  shows "digit_loop (str + of_nat (length (dig n))) (int n) 10 m = Some (wrote m str (map dchr (dig n)))"
  using assms
proof (induction n arbitrary: m rule: dig.induct)
  case (1 n)
  show ?case
  proof (cases "n < 10")
    case True
    then have d: "dig n = [n]" by (simp add: dig.simps [of n])
    with "1.prems"(2) obtain x where "m str = Some x" by (auto simp: block_Suc)
    then show ?thesis using d True wrote_snoc [of "[]" m str "dchr n"]
      by (subst digit_loop.simps) (simp add: sdiv_10 digit_dchr store_Some wrote_def fun_eq_iff)
  next
    case False
    let ?w = "dig (n div 10)" and ?b = "dchr (n mod 10)"
    have d: "dig n = ?w @ [n mod 10]" using False by (simp add: dig.simps [of n])
    then have bl: "block m str (Suc (length ?w))" using "1.prems"(2) by simp
    then obtain x where x: "m (str + of_nat (length ?w)) = Some x" by (auto simp: block_top)
    let ?m = "m(str + of_nat (length ?w) \<mapsto> ?b)"
    have "block ?m str (length ?w)" using bl by (intro block_store) (simp add: block_top)
    moreover have "length ?w < 2 ^ 32" using d "1.prems"(1) by simp
    ultimately have "digit_loop (str + of_nat (length ?w)) (int (n div 10)) 10 ?m = Some (wrote ?m str (map dchr ?w))"
      using "1.IH" [OF False] by blast
    moreover have "wrote ?m str (map dchr ?w) = wrote m str (map dchr (dig n))"
      using wrote_snoc [of "map dchr ?w" m str ?b] d "1.prems"(1) by simp
    moreover have "n div 10 \<noteq> 0" using False by simp
    ultimately show ?thesis using x d
      by (subst digit_loop.simps) (simp add: sdiv_10 digit_dchr store_Some del: div_eq_0_iff)
  qed
qed

lemma cstr_wrote:
  assumes "0 \<notin> set w" and "length w < 2 ^ 32" and "m (a + of_nat (length w)) = Some 0"
  shows "cstr (wrote m a w) a w"
proof -
  have "wrote m a w (a + of_nat i) = Some (w ! i)" if "i < length w" for i
    using that assms(2) by (simp add: wrote_def unat_nat)
  moreover have "wrote m a w (a + of_nat (length w)) = Some 0" using assms(2,3) by (simp add: wrote_def unat_nat)
  moreover have "cstr f b v" if "0 \<notin> set v" "\<And>i. i < length v \<Longrightarrow> f (b + of_nat i) = Some (v ! i)" "f (b + of_nat (length v)) = Some 0" for f b v
    using that
  proof (induction v arbitrary: b)
    case (Cons c v)
    have "f (b + 1 + of_nat i) = Some (v ! i)" if "i < length v" for i
      using Cons.prems(2) [of "Suc i"] that by (simp add: ac_simps)
    moreover have "f (b + 1 + of_nat (length v)) = Some 0" using Cons.prems(3) by (simp add: ac_simps)
    ultimately show ?case using Cons.IH [of "b + 1"] Cons.prems(1) Cons.prems(2) [of 0] by auto
  qed simp
  ultimately show ?thesis using assms(1) by blast
qed

lemma dchr_facts: "d < 10 \<Longrightarrow> dchr d \<noteq> 0 \<and> sint (dchr d) = 48 + int d"
proof -
  assume "d < 10"
  then have "d = 0 \<or> d = 1 \<or> d = 2 \<or> d = 3 \<or> d = 4 \<or> d = 5 \<or> d = 6 \<or> d = 7 \<or> d = 8 \<or> d = 9" by arith
  then show ?thesis by (elim disjE) (simp_all add: dchr_def)
qed

lemma foldl_mono: "0 \<le> v \<Longrightarrow> v \<le> foldl (\<lambda>v d. v * 10 + int d) v ds"
proof (induction ds arbitrary: v)
  case (Cons d ds)
  from Cons.IH [of "v * 10 + int d"] Cons.prems show ?case by simp
qed simp

lemma atoi_loop_dig:
  assumes "cstr m p (map dchr ds)" and "\<forall>d \<in> set ds. d < 10" and "0 \<le> v" and "foldl (\<lambda>v d. v * 10 + int d) v ds < 2 ^ 31"
  shows "atoi_loop p v m = Some (foldl (\<lambda>v d. v * 10 + int d) v ds)"
  using assms
proof (induction ds arbitrary: p v)
  case Nil
  then show ?case by (subst atoi_loop.simps) simp
next
  case (Cons d ds)
  have "v * 10 + int d < 2 ^ 31" using foldl_mono [of "v * 10 + int d" ds] Cons.prems(3,4) by simp
  moreover have "dchr d \<noteq> 0" "sint (dchr d) = 48 + int d" "d < 10" using dchr_facts [of d] Cons.prems(2) by auto
  ultimately show ?case using Cons.IH [of "p + 1" "v * 10 + int d"] Cons.prems
    by (subst atoi_loop.simps) simp
qed

text \<open>C35. \<^verbatim>\<open>atoi\<close> reads back every number that is not negative as \<^verbatim>\<open>itostr\<close> prints it in decimal, and eleven bytes
  are enough for the text.\<close>

theorem itostr_atoi:
  assumes "n < 2 ^ 31" and "str \<noteq> 0" and "block m str 11"
  shows "\<exists>m'. itostr str (int n) 10 m = Some m' \<and> atoi str m' = Some (int n) \<and> (\<forall>a. m' a \<noteq> m a \<longrightarrow> unat (a - str) < 11)"
proof -
  have len: "length (dig n) \<le> 10" using length_dig [of 10 n] assms(1) by simp
  let ?e = "str + of_nat (length (dig n))" and ?w = "map dchr (dig n)"
  have bl: "block m str (Suc (length (dig n)))" using assms(3) len by (auto intro: block_mono)
  then obtain x where x: "m ?e = Some x" by (auto simp: block_top)
  let ?m = "m(?e \<mapsto> 0)"
  have "block ?m str (length (dig n))" using bl by (intro block_store) (simp add: block_top)
  then have e: "itostr str (int n) 10 m = Some (wrote ?m str ?w)"
    using digit_loop_dig [of n ?m str] len x assms(1) by (simp add: itostr_def count_loop_dig store_Some)
  have "0 \<notin> set ?w" using dchr_facts dig_digits by fastforce
  then have "cstr (wrote ?m str ?w) str ?w" using cstr_wrote [of ?w ?m str] len by simp
  from atoi_loop_dig [OF this _ _] dig_digits foldl_dig [of n] assms(1,2) have "atoi str (wrote ?m str ?w) = Some (int n)"
    by (simp add: atoi_def)
  moreover have "unat (a - str) < 11" if "wrote ?m str ?w a \<noteq> m a" for a
  proof (rule ccontr)
    assume big: "\<not> unat (a - str) < 11"
    then have "a \<noteq> ?e" using len by (auto simp: unat_nat)
    with that big len show False by (simp add: wrote_def split: if_splits)
  qed
  ultimately show ?thesis using e by blast
qed

theorem itostr_atoi_witness:
  "\<exists>m'. itostr 16 2147483647 10 (\<lambda>a. if 16 \<le> a \<and> a < 32 then Some 0 else None) = Some m' \<and> atoi 16 m' = Some 2147483647"
proof -
  let ?m = "\<lambda>a :: u32. if 16 \<le> a \<and> a < 32 then Some (0 :: u8) else None"
  have "block ?m 16 11"
  proof -
    have "16 \<le> (16 :: u32) + of_nat i \<and> (16 :: u32) + of_nat i < 32" if "i < 11" for i
      using that unat_add_less [of "16 :: u32" "of_nat i"] by (simp add: word_le_nat_alt word_less_nat_alt unat_nat)
    then show ?thesis by (simp add: block_def)
  qed
  from itostr_atoi [of 2147483647 16 ?m] this show ?thesis by auto
qed

end
