(* ===== verification/Tokens.thy ===== *)
theory Tokens
  imports Kstring
begin

text \<open>
  The correctness of \<^verbatim>\<open>tokenize\<close> and \<^verbatim>\<open>tokens_free\<close> of \<^verbatim>\<open>kernel/lib/string.c\<close>: the array returned holds the
  non-empty words between the separators, and freeing it gives back every block that was taken. The
  invariant \<open>live\<close> says which blocks are in use and that all other memory is as it was.
\<close>

declare neq0_conv [iff del] bot_nat_0.not_eq_extremum [simp del]

section \<open>Words\<close>

lemma dropWhile_step:
  assumes "dropWhile (\<lambda>b. b = c) w \<noteq> []"
  shows "length (dropWhile (\<lambda>b. b \<noteq> c) (dropWhile (\<lambda>b. b = c) w)) < length w"
proof -
  obtain x v where v: "dropWhile (\<lambda>b. b = c) w = x # v" using assms by (cases "dropWhile (\<lambda>b. b = c) w") auto
  then have "x \<noteq> c" using hd_dropWhile [of "\<lambda>b. b = c" w] by (simp only: list.sel list.distinct) simp
  then have "dropWhile (\<lambda>b. b \<noteq> c) (x # v) = dropWhile (\<lambda>b. b \<noteq> c) v" by simp
  moreover have "length (dropWhile (\<lambda>b. b \<noteq> c) v) \<le> length v" by (rule length_dropWhile_le)
  moreover have "length (x # v) \<le> length w" using length_dropWhile_le [of "\<lambda>b. b = c" w] v by simp
  ultimately show ?thesis using v by simp
qed

function words :: "u8 \<Rightarrow> u8 list \<Rightarrow> u8 list list" where
  "words c w =
    (let v = dropWhile (\<lambda>b. b = c) w
     in if v = [] then [] else takeWhile (\<lambda>b. b \<noteq> c) v # words c (dropWhile (\<lambda>b. b \<noteq> c) v))"
  by auto

termination
  by (relation "measure (\<lambda>(c, w). length w)") (simp, simp only: in_measure case_prod_conv, rule dropWhile_step)

declare words.simps [simp del]

lemma words_none: "dropWhile (\<lambda>b. b = c) w = [] \<Longrightarrow> words c w = []"
  by (subst words.simps) (simp only: Let_def if_True simp_thms)

lemma words_some:
  "dropWhile (\<lambda>b. b = c) w = v \<Longrightarrow> v \<noteq> [] \<Longrightarrow> words c w = takeWhile (\<lambda>b. b \<noteq> c) v # words c (dropWhile (\<lambda>b. b \<noteq> c) v)"
  by (subst words.simps) (simp only: Let_def if_False)

lemma last_dropWhile: "dropWhile P w \<noteq> [] \<Longrightarrow> last (dropWhile P w) = last w"
  by (induction w) auto

lemma words_snoc: "words c (w @ [c]) = words c w"
proof (induction c w rule: words.induct)
  case (1 c w)
  let ?v = "dropWhile (\<lambda>b. b = c) w"
  show ?case
  proof (cases "?v = []")
    case True
    then have "dropWhile (\<lambda>b. b = c) (w @ [c]) = []" by (simp add: dropWhile_eq_Nil_conv)
    then show ?thesis using words_none [OF True] words_none by simp
  next
    case False
    then have d: "dropWhile (\<lambda>b. b = c) (w @ [c]) = ?v @ [c]" by (auto simp: dropWhile_append dropWhile_eq_Nil_conv)
    have t: "takeWhile (\<lambda>b. b \<noteq> c) (v @ [c]) = takeWhile (\<lambda>b. b \<noteq> c) v" for v by (induction v) auto
    have e: "dropWhile (\<lambda>b. b \<noteq> c) (v @ [c]) = dropWhile (\<lambda>b. b \<noteq> c) v @ [c]" for v by (induction v) auto
    show ?thesis using words_some [OF d] 1 [OF refl False] words_some [OF refl False] by (simp add: t e)
  qed
qed

lemma words_trim: "words c (w @ replicate k c) = words c w"
proof (induction k)
  case (Suc k)
  have "w @ replicate (Suc k) c = (w @ replicate k c) @ [c]" by (simp add: replicate_append_same)
  then show ?case using Suc words_snoc [of c "w @ replicate k c"] by (simp only:)
qed simp

lemma length_words: "length (words c w) \<le> length w"
proof (induction c w rule: words.induct)
  case (1 c w)
  show ?case
  proof (cases "dropWhile (\<lambda>b. b = c) w = []")
    case False
    then show ?thesis using 1 [OF refl False] dropWhile_step [OF False] words_some [OF refl False] by simp
  qed (simp add: words_none)
qed

lemma trim_split:
  assumes "\<exists>b \<in> set w. b \<noteq> c"
  shows "\<exists>u x k. w = u @ [x] @ replicate k c \<and> x \<noteq> c"
proof -
  from split_list_last_prop [OF assms] obtain u x v where "w = u @ x # v" "x \<noteq> c" "\<forall>b \<in> set v. b = c" by auto
  moreover then have "v = replicate (length v) c" by (simp add: replicate_length_same)
  ultimately show ?thesis by (metis append_Cons append_Nil)
qed


section \<open>The loops on memory\<close>

lemma set_loop_block:
  "n < 2 ^ 32 \<Longrightarrow> block m d n \<Longrightarrow> set_loop n d b m = Some (\<lambda>a. if unat (a - d) < n then Some b else m a)"
proof (induction n arbitrary: d m)
  case (Suc n)
  from Suc.prems(2) obtain x where x: "m d = Some x" "block m (d + 1) n" by (auto simp: block_Suc)
  have "set_loop n (d + 1) b (m(d \<mapsto> b)) = Some (\<lambda>a. if unat (a - (d + 1)) < n then Some b else (m(d \<mapsto> b)) a)"
    using Suc.prems(1) x(2) by (intro Suc.IH block_store) simp_all
  moreover have "(if unat (a - (d + 1)) < n then Some b else (m(d \<mapsto> b)) a) = (if unat (a - d) < Suc n then Some b else m a)" for a
    using unat_below [of a d] by (cases "a = d") auto
  ultimately show ?case using x(1) by (simp add: store_Some)
qed simp

lemma sint_u8_eq: "sint (a :: u8) = sint b \<longleftrightarrow> a = b"
  by (auto intro: signed_word_eqI)

lemma grab_loop_cstr:
  "cstr m s w \<Longrightarrow> len + int (length w) < 2 ^ 31 \<Longrightarrow>
    grab_loop s (sint cc) len m = Some (len + int (length (takeWhile (\<lambda>b. b \<noteq> cc) w)))"
proof (induction w arbitrary: s len)
  case Nil
  then show ?case by (subst grab_loop.simps) simp
next
  case (Cons b w)
  then show ?case using Cons.IH [of "s + 1" "len + 1"] by (subst grab_loop.simps) (simp add: sint_u8_eq)
qed

lemma skip_loop_cstr:
  "cstr m p w \<Longrightarrow> skip_loop p (sint cc) m = Some (p + of_nat (length (takeWhile (\<lambda>b. b = cc) w)))"
proof (induction w arbitrary: p)
  case Nil
  then show ?case by (subst skip_loop.simps) simp
next
  case (Cons b w)
  then show ?case using Cons.IH [of "p + 1"] by (subst skip_loop.simps) (auto simp: sint_u8_eq ac_simps)
qed

lemma cstr_drop: "cstr m p w \<Longrightarrow> n \<le> length w \<Longrightarrow> cstr m (p + of_nat n) (drop n w)"
proof (induction w arbitrary: p n)
  case (Cons b w)
  then show ?case by (cases n) (auto simp: add.assoc [symmetric])
qed simp

lemma unat_at: "i < 2 ^ 32 \<Longrightarrow> unat (p + of_nat i - p :: u32) = i"
  by (simp add: unat_of_nat)

lemma cstr_cut:
  "cstr m p (v @ x) \<Longrightarrow> length v < 2 ^ 32 \<Longrightarrow> cstr (m(p + of_nat (length v) \<mapsto> 0)) p v"
proof (induction v arbitrary: p)
  case (Cons b v)
  have "cstr (m(p + 1 + of_nat (length v) \<mapsto> 0)) (p + 1) v" using Cons.IH [of "p + 1"] Cons.prems by (simp del: fun_upd_apply)
  moreover have "p + of_nat (length (b # v)) = p + 1 + of_nat (length v)" by simp
  moreover have "p + of_nat (length (b # v)) \<noteq> p"
    using unat_at [OF Cons.prems(2), of p] by (intro notI) simp
  ultimately show ?case using Cons.prems(1) by (simp only: cstr.simps) simp
qed simp

text \<open>Two memories that differ only in a block.\<close>

definition within :: "u32 \<Rightarrow> nat \<Rightarrow> bmem \<Rightarrow> bmem \<Rightarrow> bool" where
  "within p n m m' \<longleftrightarrow> (\<forall>a. m' a \<noteq> m a \<longrightarrow> unat (a - p) < n) \<and> (\<forall>a. m' a = None \<longleftrightarrow> m a = None)"

lemma within_same: "within p n m m' \<Longrightarrow> \<not> unat (a - p) < n \<Longrightarrow> m' a = m a"
  unfolding within_def by blast

lemma within_dom: "within p n m m' \<Longrightarrow> m' a = None \<longleftrightarrow> m a = None"
  unfolding within_def by blast

lemma withinI:
  "(\<And>a. \<not> unat (a - p) < n \<Longrightarrow> m' a = m a) \<Longrightarrow> (\<And>a. m' a = None \<longleftrightarrow> m a = None) \<Longrightarrow> within p n m m'"
  unfolding within_def by blast

lemma within_trans: "within p n m m' \<Longrightarrow> within p n m' m'' \<Longrightarrow> within p n m m''"
  by (rule withinI) (simp_all add: within_same within_dom)

lemma within_mono: "within p n m m' \<Longrightarrow> n \<le> k \<Longrightarrow> within p k m m'"
  by (rule withinI) (simp_all add: within_same within_dom)

lemma within_upd: "m a \<noteq> None \<Longrightarrow> unat (a - p) < n \<Longrightarrow> within p n m (m(a \<mapsto> b))"
  by (auto simp: within_def)

lemma trim_loop_cstr:
  assumes "cstr m p (u @ [x] @ replicate k cc)" and "x \<noteq> cc" and "length u + k + 1 < 2 ^ 32"
  shows "\<exists>m'. trim_loop (p + of_nat (length u + k)) (sint cc) m = Some m' \<and> cstr m' p (u @ [x]) \<and>
    within p (length u + k + 1) m m'"
  using assms
proof (induction k arbitrary: m)
  case 0
  have "m (p + of_nat (length u)) = Some x" using cstr_nth [OF 0(1), of "length u"] by (simp add: nth_append)
  then have "trim_loop (p + of_nat (length u + 0)) (sint cc) m = Some m"
    using 0(2) by (subst trim_loop.simps) (simp add: sint_u8_eq)
  then show ?case using 0(1) by (auto simp: within_def)
next
  case (Suc k)
  let ?a = "p + of_nat (length u + Suc k)" and ?v = "u @ [x] @ replicate k cc"
  have e: "u @ [x] @ replicate (Suc k) cc = ?v @ [cc]" by (simp add: replicate_append_same)
  have l: "length ?v = length u + Suc k" by simp
  have c: "cstr m p (?v @ [cc])" using Suc.prems(1) unfolding e .
  have "(?v @ [cc, 0]) ! length ?v = cc" by (rule nth_append_length)
  moreover have "m (p + of_nat (length ?v)) = Some ((?v @ [cc, 0]) ! length ?v)" using cstr_nth [OF c, of "length ?v"] by simp
  ultimately have b: "m ?a = Some cc" unfolding l by simp
  have z: "cc \<noteq> 0" using cstr_nonzero [OF c] by auto
  have c1: "cstr (m(?a \<mapsto> 0)) p ?v" using cstr_cut [OF c] Suc.prems(3) unfolding l by simp
  have q: "?a - 1 = p + of_nat (length u + k)" by simp
  have "length u + k + 1 < 2 ^ 32" using Suc.prems(3) by simp
  from Suc.IH [OF c1 assms(2) this] obtain m' where
    m': "trim_loop (?a - 1) (sint cc) (m(?a \<mapsto> 0)) = Some m'" "cstr m' p (u @ [x])" "within p (length u + k + 1) (m(?a \<mapsto> 0)) m'"
    unfolding q by blast
  have "trim_loop ?a (sint cc) m = Some m'"
    using b z m'(1) by (subst trim_loop.simps) (simp add: store_Some del: of_nat_add of_nat_Suc)
  moreover have "within p (length u + Suc k + 1) (m(?a \<mapsto> 0)) m'" using m'(3) by (rule within_mono) simp
  moreover have "unat (?a - p) = length u + Suc k" using Suc.prems(3) by (intro unat_at) simp
  then have "within p (length u + Suc k + 1) m (m(?a \<mapsto> 0))" using b by (intro within_upd) simp_all
  ultimately show ?case using m'(2) within_trans by blast
qed


section \<open>Blocks in use\<close>

text \<open>
  The addresses the allocator will return are those of disjoint stretches of \<open>N\<close> bytes that no object uses.
\<close>

definition pool :: "nat \<Rightarrow> kst \<Rightarrow> bool" where
  "pool N st \<longleftrightarrow> distinct (k_next st) \<and> 0 < N \<and> N < 2 ^ 32 \<and>
    (\<forall>q \<in> set (k_next st). q \<noteq> 0 \<and> unat q + N \<le> 2 ^ 32 \<and> k_blk st q = None \<and> (\<forall>a. unat (a - q) < N \<longrightarrow> k_mem st a = None)) \<and>
    (\<forall>p \<in> set (k_next st). \<forall>q \<in> set (k_next st). p \<noteq> q \<longrightarrow> (\<forall>a. unat (a - p) < N \<longrightarrow> \<not> unat (a - q) < N))"

text \<open>
  The blocks \<open>X\<close>, with their sizes, are in use; everything else is as in the state \<open>s\<close>.
\<close>

definition live :: "nat \<Rightarrow> kst \<Rightarrow> (u32 \<Rightarrow> nat option) \<Rightarrow> kst \<Rightarrow> bool" where
  "live N s X st \<longleftrightarrow> pool N s \<and> distinct (k_next st) \<and> dom X \<union> set (k_next st) \<subseteq> set (k_next s) \<and> dom X \<inter> set (k_next st) = {} \<and>
    (\<forall>q n. X q = Some n \<longrightarrow> n \<le> N \<and> k_blk st q = Some (of_nat n) \<and> block (k_mem st) q n) \<and>
    (\<forall>q. X q = None \<longrightarrow> k_blk st q = k_blk s q) \<and>
    (\<forall>a. (\<forall>q n. X q = Some n \<longrightarrow> \<not> unat (a - q) < n) \<longrightarrow> k_mem st a = k_mem s a)"

lemma live_start: "pool N s \<Longrightarrow> live N s Map.empty s"
  by (simp add: live_def pool_def)

lemma live_done: "live N s Map.empty st \<Longrightarrow> k_mem st = k_mem s \<and> k_blk st = k_blk s"
  by (simp add: live_def fun_eq_iff)

lemma live_size: "live N s X st \<Longrightarrow> X q = Some n \<Longrightarrow> n \<le> N \<and> N < 2 ^ 32 \<and> q \<noteq> 0 \<and> unat q + N \<le> 2 ^ 32"
  unfolding live_def pool_def by blast

lemma live_block: "live N s X st \<Longrightarrow> X q = Some n \<Longrightarrow> k_blk st q = Some (of_nat n) \<and> block (k_mem st) q n"
  unfolding live_def by blast

lemma live_apart:
  assumes "live N s X st" and "X p = Some n" and "X q = Some k" and "p \<noteq> q" and "unat (a - p) < n"
  shows "\<not> unat (a - q) < k"
proof -
  have i: "p \<in> set (k_next s)" "q \<in> set (k_next s)" and le: "n \<le> N" "k \<le> N" and pl: "pool N s"
    using assms(1-3) unfolding live_def by auto
  from pl i assms(4) have "unat (a - p) < N \<longrightarrow> \<not> unat (a - q) < N" unfolding pool_def by blast
  then show ?thesis using le assms(5) by simp
qed

lemma live_write:
  assumes l: "live N s X st" and x: "X p = Some n" and w: "within p n (k_mem st) m"
  shows "live N s X (st\<lparr>k_mem := m\<rparr>)"
proof -
  have b: "block m q k" if "X q = Some k" for q k
    using live_block [OF l that] within_dom [OF w] by (simp add: block_def)
  have "m a = k_mem s a" if "\<forall>q n. X q = Some n \<longrightarrow> \<not> unat (a - q) < n" for a
  proof -
    have "m a = k_mem st a" using within_same [OF w, of a] that x by blast
    then show ?thesis using l that unfolding live_def by simp
  qed
  then show ?thesis using l b unfolding live_def by simp
qed

lemma block_unat: "block m q n \<Longrightarrow> unat (a - q) < n \<Longrightarrow> m a \<noteq> None"
  unfolding block_def using word_offset [of a q] by metis

lemma kmalloc_live:
  assumes l: "live N s X st" and nx: "k_next st = p # ps" and n: "n \<le> N"
  shows "\<exists>st'. kmalloc (of_nat n) st = (p, st') \<and> live N s (X(p \<mapsto> n)) st' \<and> k_next st' = ps \<and> X p = None \<and> p \<noteq> 0 \<and>
    (\<forall>a. \<not> unat (a - p) < n \<longrightarrow> k_mem st' a = k_mem st a)"
proof -
  have i: "p \<in> set (k_next s)" "X p = None" using l nx unfolding live_def by auto
  have pl: "pool N s" using l unfolding live_def by simp
  have p: "p \<noteq> 0" "N < 2 ^ 32" using pl i unfolding pool_def by auto
  have u: "unat (of_nat n :: u32) = n" using n p(2) by (intro unat_nat) simp
  let ?st = "st\<lparr>k_next := ps, k_blk := (k_blk st)(p \<mapsto> of_nat n), k_mem := (\<lambda>a. if unat (a - p) < n then Some (k_junk st a) else k_mem st a)\<rparr>"
  have e: "kmalloc (of_nat n) st = (p, ?st)" using p nx u by (simp add: kmalloc_def fst_or_def in_blk_def Let_def cong: if_cong)
  have b: "block (k_mem ?st) q k" if "(X(p \<mapsto> n)) q = Some k" for q k
  proof (cases "q = p")
    case True
    then have "k = n" using that by simp
    then show ?thesis using True n p(2) by (simp add: block_def unat_of_nat)
  next
    case False
    then have "block (k_mem st) q k" using live_block [OF l, of q k] that by simp
    then show ?thesis by (simp add: block_def)
  qed
  have o: "k_mem ?st a = k_mem s a" if "\<forall>q k. (X(p \<mapsto> n)) q = Some k \<longrightarrow> \<not> unat (a - q) < k" for a
  proof -
    have "\<not> unat (a - p) < n" using that by simp
    moreover have "\<not> unat (a - q) < k" if "X q = Some k" for q k
      using that i(2) \<open>\<forall>q k. (X(p \<mapsto> n)) q = Some k \<longrightarrow> \<not> unat (a - q) < k\<close> by (cases "q = p") auto
    ultimately show ?thesis using l unfolding live_def by simp
  qed
  have "live N s (X(p \<mapsto> n)) ?st"
    using l b o i n nx unfolding live_def by auto
  then show ?thesis using e i p by (intro exI [of _ ?st]) simp
qed

lemma kfree_live:
  assumes l: "live N s X st" and x: "X p = Some n"
  shows "\<exists>st'. kfree p st = Some st' \<and> live N s (X(p := None)) st' \<and> k_next st' = k_next st \<and>
    (\<forall>a. \<not> unat (a - p) < n \<longrightarrow> k_mem st' a = k_mem st a)"
proof -
  from live_size [OF l x] have p: "p \<noteq> 0" "n \<le> N" "N < 2 ^ 32" by auto
  have u: "unat (of_nat n :: u32) = n" using p by (intro unat_nat) simp
  have pl: "pool N s" "p \<in> set (k_next s)" "p \<notin> set (k_next st)" using l x unfolding live_def by auto
  then have s0: "k_blk s p = None" "\<And>a. unat (a - p) < N \<Longrightarrow> k_mem s a = None" unfolding pool_def by auto
  let ?st = "st\<lparr>k_blk := (k_blk st)(p := None), k_mem := (\<lambda>a. if unat (a - p) < n then None else k_mem st a)\<rparr>"
  have e: "kfree p st = Some ?st" using live_block [OF l x] p u by (simp add: kfree_def in_blk_def)
  have b: "block (k_mem ?st) q k" if "(X(p := None)) q = Some k" for q k
  proof -
    have q: "q \<noteq> p" "X q = Some k" using that by (auto split: if_splits)
    have k: "k < 2 ^ 32" using live_size [OF l q(2)] by simp
    have "\<not> unat (q + of_nat i - p) < n" if "i < k" for i
      using live_apart [OF l q(2) x q(1), of "q + of_nat i"] unat_at [of i q] that k by simp
    then show ?thesis using live_block [OF l q(2)] by (simp add: block_def)
  qed
  have o: "k_mem ?st a = k_mem s a" if "\<forall>q k. (X(p := None)) q = Some k \<longrightarrow> \<not> unat (a - q) < k" for a
  proof (cases "unat (a - p) < n")
    case True
    then show ?thesis using s0(2) [of a] p(2) by simp
  next
    case False
    have "\<not> unat (a - q) < k" if "X q = Some k" for q k
      using that False x \<open>\<forall>q k. (X(p := None)) q = Some k \<longrightarrow> \<not> unat (a - q) < k\<close> by (cases "q = p") auto
    then show ?thesis using False l unfolding live_def by simp
  qed
  have "live N s (X(p := None)) ?st" using l b o s0(1) unfolding live_def by auto
  then show ?thesis using e by (intro exI [of _ ?st]) simp
qed


lemma live_fresh:
  assumes l: "live N s X st" and p: "p \<in> set (k_next st)" and a: "unat (a - p) < N"
  shows "k_mem st a = None"
proof -
  have pl: "pool N s" "p \<in> set (k_next s)" using l p unfolding live_def by auto
  then have "k_mem s a = None" using a unfolding pool_def by blast
  moreover have "\<not> unat (a - q) < n" if q: "X q = Some n" for q n
  proof -
    have "q \<noteq> p" "q \<in> set (k_next s)" "n \<le> N" using l p q unfolding live_def by auto
    then have "\<not> unat (a - q) < N" using pl a unfolding pool_def by blast
    then show ?thesis using \<open>n \<le> N\<close> by simp
  qed
  ultimately show ?thesis using l unfolding live_def by simp
qed

lemma krealloc_live:
  assumes l: "live N s X st" and nx: "k_next st = q # ps" and n: "n0 < n" "n \<le> N"
    and A: "A = 0 \<Longrightarrow> n0 = 0" "A \<noteq> 0 \<Longrightarrow> X A = Some n0"
  shows "\<exists>st'. krealloc A (of_nat n) st = Some (q, st') \<and> live N s (X(A := None, q \<mapsto> n)) st' \<and> k_next st' = ps \<and> q \<noteq> 0 \<and> X q = None \<and>
    (\<forall>i < n0. k_mem st' (q + of_nat i) = k_mem st (A + of_nat i)) \<and>
    (\<forall>a. \<not> unat (a - A) < n0 \<longrightarrow> \<not> unat (a - q) < n \<longrightarrow> k_mem st' a = k_mem st a)"
proof -
  from kmalloc_live [OF l nx n(2)] obtain st1 where
    s1: "kmalloc (of_nat n) st = (q, st1)" "live N s (X(q \<mapsto> n)) st1" "k_next st1 = ps" "X q = None" "q \<noteq> 0"
      "\<And>a. \<not> unat (a - q) < n \<Longrightarrow> k_mem st1 a = k_mem st a" by blast
  show ?thesis
  proof (cases "A = 0")
    case True
    have "X 0 = None" using live_size [OF l, of 0] by (cases "X 0") auto
    then have "X(A := None) = X" using True by auto
    then show ?thesis using True A(1) s1 by (simp add: krealloc_def del: fun_upd_apply)
  next
    case False
    note x = A(2) [OF False]
    have ne: "A \<noteq> q" using x s1(4) by auto
    have sz: "n < 2 ^ 32" "n0 < 2 ^ 32" using live_size [OF l x] n by auto
    have u: "unat (of_nat n0 :: u32) = n0" "unat (of_nat n :: u32) = n" using sz by (auto intro!: unat_nat)
    have gt: "\<not> (of_nat n :: u32) \<le> of_nat n0" using n(1) u by (simp add: word_le_nat_alt)
    let ?X = "X(q \<mapsto> n)" and ?m = "copied n0 q A (k_mem st1)"
    have xA: "?X A = Some n0" and xq: "?X q = Some n" using x ne by auto
    have bA: "block (k_mem st1) A n0" and bq: "block (k_mem st1) q n"
      using live_block [OF s1(2) xA] live_block [OF s1(2) xq] by auto
    have ap: "A + of_nat j \<noteq> q + of_nat i" if "i < j" "j < n0" for i j
      using live_apart [OF s1(2) xA xq ne, of "A + of_nat j"] unat_at [of j A] unat_at [of i q] that n sz by auto
    have c: "copy_up n0 q A (k_mem st1) = Some ?m"
      using sz(2) block_mono [OF bq] bA ap n(1) by (intro copy_up_copied) simp_all
    have off: "A + (a - q) = A + of_nat (unat (a - q))" for a by simp
    have w: "within q n (k_mem st1) ?m"
    proof (rule withinI)
      show "?m a = k_mem st1 a" if "\<not> unat (a - q) < n" for a using that n(1) by (simp add: copied_def)
      show "?m a = None \<longleftrightarrow> k_mem st1 a = None" for a
      proof (cases "unat (a - q) < n0")
        case True
        then have "k_mem st1 (A + (a - q)) \<noteq> None" using bA unfolding off block_def by blast
        moreover have "k_mem st1 a \<noteq> None" using block_unat [OF bq] True n(1) by simp
        ultimately show ?thesis using True by (auto simp: copied_def)
      qed (simp add: copied_def)
    qed
    have l2: "live N s ?X (st1\<lparr>k_mem := ?m\<rparr>)" using live_write [OF s1(2) xq w] .
    from kfree_live [OF l2 xA] obtain st2 where
      s2: "kfree A (st1\<lparr>k_mem := ?m\<rparr>) = Some st2" "live N s (?X(A := None)) st2" "k_next st2 = ps"
        "\<And>a. \<not> unat (a - A) < n0 \<Longrightarrow> k_mem st2 a = ?m a" using s1(3) by (auto simp del: fun_upd_apply)
    have e: "krealloc A (of_nat n) st = Some (q, st2)"
      using False live_block [OF l x] gt s1(1,5) c s2(1) u(1) by (simp add: krealloc_def)
    have X: "?X(A := None) = X(A := None, q \<mapsto> n)" using ne by (simp add: fun_upd_twist)
    have cp: "k_mem st2 (q + of_nat i) = k_mem st (A + of_nat i)" if i: "i < n0" for i
    proof -
      have iq: "unat (q + of_nat i - q) = i" using i sz by (intro unat_at) simp
      have iA: "unat (A + of_nat i - A) = i" using i sz by (intro unat_at) simp
      have "\<not> unat (q + of_nat i - A) < n0"
        using live_apart [OF s1(2) xq xA ne [symmetric], of "q + of_nat i"] iq i n(1) by simp
      then have "k_mem st2 (q + of_nat i) = ?m (q + of_nat i)" by (rule s2(4))
      also have "\<dots> = k_mem st1 (A + of_nat i)" using iq i by (simp add: copied_def)
      also have "\<dots> = k_mem st (A + of_nat i)"
        using live_apart [OF s1(2) xA xq ne, of "A + of_nat i"] iA i by (intro s1(6)) simp
      finally show ?thesis .
    qed
    have "k_mem st2 a = k_mem st a" if "\<not> unat (a - A) < n0" "\<not> unat (a - q) < n" for a
      using s2(4) [OF that(1)] s1(6) [OF that(2)] that(2) n(1) by (simp add: copied_def)
    then show ?thesis using e s2(2,3) s1(4,5) cp unfolding X by blast
  qed
qed

lemma alloc_copy_live:
  assumes l: "live N s X st" and nx: "k_next st = p # ps" and c: "cstr (k_mem st) src w" and k: "k \<le> length w" "k < N" "k + 1 < 2 ^ 31"
  shows "\<exists>st1 st2 st3. kmalloc (word_of_int (int k + 1)) st = (p, st1) \<and>
    on_mem (\<lambda>m. map_option snd (memset p 0 (word_of_int (int k + 1)) m)) st1 = Some st2 \<and>
    on_mem (\<lambda>m. map_option snd (safestrcpy p src (int k + 1) m)) st2 = Some st3 \<and>
    live N s (X(p \<mapsto> k + 1)) st3 \<and> k_next st3 = ps \<and> X p = None \<and> p \<noteq> 0 \<and> cstr (k_mem st3) p (take k w) \<and>
    (\<forall>a. \<not> unat (a - p) < k + 1 \<longrightarrow> k_mem st3 a = k_mem st a)"
proof -
  have sz: "word_of_int (int k + 1) = (of_nat (k + 1) :: u32)" by simp
  have u: "unat (of_nat (k + 1) :: u32) = k + 1" using k(3) by (intro unat_nat) simp
  from kmalloc_live [OF l nx, of "k + 1"] k(2) obtain st1 where
    s1: "kmalloc (of_nat (k + 1)) st = (p, st1)" "live N s (X(p \<mapsto> k + 1)) st1" "k_next st1 = ps" "X p = None" "p \<noteq> 0"
      "\<And>a. \<not> unat (a - p) < k + 1 \<Longrightarrow> k_mem st1 a = k_mem st a" by (metis Suc_eq_plus1 Suc_leI)
  let ?X = "X(p \<mapsto> k + 1)"
  have x: "?X p = Some (k + 1)" by simp
  note b = live_block [OF s1(2) x]
  have ap: "p + of_nat i \<noteq> src + of_nat j" if "i \<le> k" "j \<le> length w" for i j
  proof
    assume e: "p + of_nat i = src + of_nat j"
    have "unat (p + of_nat i - p) = i" using that k(3) by (intro unat_at) simp
    then have "k_mem st (p + of_nat i) = None" using live_fresh [OF l, of p] nx that k(2) by simp
    then show False using cstr_nth [OF c that(2)] unfolding e by simp
  qed
  have out: "\<not> unat (src + of_nat j - p) < k + 1" if "j \<le> length w" for j
    using ap [of "unat (src + of_nat j - p)" j] that by auto
  let ?m = "\<lambda>a. if unat (a - p) < k + 1 then Some 0 else k_mem st1 a"
  have "set_loop (k + 1) p 0 (k_mem st1) = Some ?m" using b k(3) by (intro set_loop_block) simp_all
  then have e2: "on_mem (\<lambda>m. map_option snd (memset p 0 (of_nat (k + 1)) m)) st1 = Some (st1\<lparr>k_mem := ?m\<rparr>)"
    unfolding on_mem_def memset_def u by (simp del: set_loop.simps)
  have w2: "within p (k + 1) (k_mem st1) ?m"
    using block_unat [of "k_mem st1" p "k + 1"] b by (intro withinI) auto
  have c2: "cstr ?m src w"
  proof (rule cstr_cong [OF c])
    show "?m (src + of_nat j) = k_mem st (src + of_nat j)" if "j \<le> length w" for j using out [OF that] s1(6) by simp
  qed
  have l2: "live N s ?X (st1\<lparr>k_mem := ?m\<rparr>)" using live_write [OF s1(2) x w2] .
  have b2: "block ?m p (Suc k)" using live_block [OF l2 x] by simp
  have "k < 2 ^ 32 - 1" using k(3) by simp
  from safestr_loop_cstr [OF c2 b2 this apartI [OF ap]] obtain m3 where
    m3: "safestr_loop k p src ?m = Some m3" "cstr m3 p (take k w)" "\<forall>a. m3 a \<noteq> ?m a \<longrightarrow> unat (a - p) \<le> k" "\<forall>a. m3 a = None \<longleftrightarrow> ?m a = None"
    by blast
  have w3: "within p (k + 1) ?m m3" using m3(3,4) unfolding within_def by (simp add: less_Suc_eq_le)
  have l3: "live N s ?X (st1\<lparr>k_mem := m3\<rparr>)" using live_write [OF l2 x] w3 by (simp del: fun_upd_apply)
  have e3: "on_mem (\<lambda>m. map_option snd (safestrcpy p src (int k + 1) m)) (st1\<lparr>k_mem := ?m\<rparr>) = Some (st1\<lparr>k_mem := m3\<rparr>)"
    using m3(1) by (simp add: on_mem_def safestrcpy_def)
  have "m3 a = k_mem st a" if "\<not> unat (a - p) < k + 1" for a
    using within_same [OF within_trans [OF w2 w3] that] s1(6) [OF that] by simp
  then show ?thesis unfolding sz using s1 e2 e3 l3 m3(2)
    by (intro exI [of _ st1] exI [of _ "st1\<lparr>k_mem := ?m\<rparr>"] exI [of _ "st1\<lparr>k_mem := m3\<rparr>"]) simp
qed


section \<open>The array of tokens\<close>

lemma load32_upds:
  "load32 (m(a \<mapsto> ucast w, a + 1 \<mapsto> ucast (drop_bit 8 w), a + 2 \<mapsto> ucast (drop_bit 16 w), a + 3 \<mapsto> ucast (drop_bit 24 w))) a = Some w"
proof -
  have "ucast (ucast w :: u8) OR push_bit 8 (ucast (ucast (drop_bit 8 w) :: u8)) OR push_bit 16 (ucast (ucast (drop_bit 16 w) :: u8))
    OR push_bit 24 (ucast (ucast (drop_bit 24 w) :: u8)) = (w :: u32)"
  proof (rule bit_word_eqI)
    fix n assume "n < LENGTH(32)"
    then consider "n < 8" | "8 \<le> n" "n < 16" | "16 \<le> n" "n < 24" | "24 \<le> n" "n < 32" by fastforce
    then show "bit (ucast (ucast w :: u8) OR push_bit 8 (ucast (ucast (drop_bit 8 w) :: u8)) OR push_bit 16 (ucast (ucast (drop_bit 16 w) :: u8))
      OR push_bit 24 (ucast (ucast (drop_bit 24 w) :: u8)) :: u32) n = bit w n"
      by cases (auto simp: bit_simps)
  qed
  then show ?thesis by (simp add: load32_def)
qed

lemma store32_load32:
  assumes "block m a 4"
  shows "\<exists>m'. store32 m a w = Some m' \<and> load32 m' a = Some w \<and> within a 4 m m'"
proof -
  let ?m = "m(a \<mapsto> ucast w, a + 1 \<mapsto> ucast (drop_bit 8 w), a + 2 \<mapsto> ucast (drop_bit 16 w), a + 3 \<mapsto> ucast (drop_bit 24 w))"
  from assms obtain b0 b1 b2 b3 where b: "m a = Some b0" "m (a + 1) = Some b1" "m (a + 2) = Some b2" "m (a + 3) = Some b3"
    by (auto simp: block_4)
  then have "store32 m a w = Some ?m" by (simp add: store32_def store_def)
  moreover have "within a 4 m ?m"
  proof (rule withinI)
    show "?m x = m x" if "\<not> unat (x - a) < 4" for x using that by auto
    show "?m x = None \<longleftrightarrow> m x = None" for x using b by simp
  qed
  ultimately show ?thesis using load32_upds by blast
qed

lemma offset_unat:
  assumes "unat (a - (p + of_nat i) :: u32) < k" and "i + k \<le> n" and "n < 2 ^ 32"
  shows "unat (a - p) = i + unat (a - (p + of_nat i))"
proof -
  let ?j = "unat (a - (p + of_nat i))"
  have "a = p + of_nat i + of_nat ?j" by (rule word_offset) simp
  then have "a - p = of_nat (i + ?j)" by (simp add: algebra_simps)
  then show ?thesis using assms by (simp add: unat_nat del: of_nat_add)
qed

lemma within_part:
  assumes "within (p + of_nat i) k m m'" and "i + k \<le> n" and "n < 2 ^ 32"
  shows "within p n m m'"
proof (rule withinI)
  show "m' a = None \<longleftrightarrow> m a = None" for a using within_dom [OF assms(1)] .
  show "m' a = m a" if "\<not> unat (a - p) < n" for a
    using that offset_unat [OF _ assms(2,3), of a p] assms(2) by (intro within_same [OF assms(1)]) linarith
qed

lemma load32_same:
  assumes "\<And>i. i < 4 \<Longrightarrow> m' (b + of_nat i) = m (a + of_nat i)"
  shows "load32 m' b = load32 m a"
  using assms [of 0] assms [of 1] assms [of 2] assms [of 3] by (simp add: load32_def)

text \<open>Memory that agrees on a block of \<open>n\<close> bytes.\<close>

definition agree :: "u32 \<Rightarrow> nat \<Rightarrow> bmem \<Rightarrow> bmem \<Rightarrow> bool" where
  "agree p n m m' \<longleftrightarrow> (\<forall>a. unat (a - p) < n \<longrightarrow> m' a = m a)"

lemma agree_at: "agree p n m m' \<Longrightarrow> i < n \<Longrightarrow> n < 2 ^ 32 \<Longrightarrow> m' (p + of_nat i) = m (p + of_nat i)"
  unfolding agree_def using unat_at [of i p] by simp

lemma cstr_agree:
  assumes "cstr m (p + of_nat k) w" and "agree p n m m'" and "k + length w < n" and "n < 2 ^ 32"
  shows "cstr m' (p + of_nat k) w"
proof (rule cstr_cong [OF assms(1)])
  show "m' (p + of_nat k + of_nat i) = m (p + of_nat k + of_nat i)" if "i \<le> length w" for i
    using agree_at [OF assms(2), of "k + i"] that assms(3,4) by (simp add: add.assoc)
qed

lemma load32_agree:
  assumes "agree p n m m'" and "4 * j + 4 \<le> n" and "n < 2 ^ 32"
  shows "load32 m' (p + 4 * of_nat j) = load32 m (p + 4 * of_nat j)"
proof (rule load32_same)
  show "m' (p + 4 * of_nat j + of_nat i) = m (p + 4 * of_nat j + of_nat i)" if "i < 4" for i
    using agree_at [OF assms(1), of "4 * j + i"] that assms(2,3) by (simp add: add.assoc)
qed

lemma within_before:
  assumes "within (p + of_nat i) k m m'" and "i + k \<le> n" and "n < 2 ^ 32"
  shows "agree p i m m'"
  unfolding agree_def
proof (intro allI impI)
  show "m' a = m a" if "unat (a - p) < i" for a
    using that offset_unat [OF _ assms(2,3), of a p] by (intro within_same [OF assms(1)]) linarith
qed

lemma agree_mono: "agree p n m m' \<Longrightarrow> k \<le> n \<Longrightarrow> agree p k m m'"
  by (simp add: agree_def)

lemma agree_live:
  assumes "live N s X st" and "X x = Some k" and "X p = Some n" and "x \<noteq> p" and "\<And>a. \<not> unat (a - p) < n \<Longrightarrow> m' a = m a"
  shows "agree x k m m'"
  unfolding agree_def using live_apart [OF assms(1,2,3,4)] assms(5) by blast

text \<open>
  An array \<open>A\<close> of \<open>n\<close> pointers, the first of them those to the tokens \<open>ts\<close>, which hold the strings \<open>ws\<close>.
\<close>

definition toks :: "nat \<Rightarrow> kst \<Rightarrow> (u32 \<Rightarrow> nat option) \<Rightarrow> u32 \<Rightarrow> nat \<Rightarrow> u32 list \<Rightarrow> u8 list list \<Rightarrow> kst \<Rightarrow> bool" where
  "toks N s X A n ts ws st \<longleftrightarrow> live N s X st \<and> (A = 0 \<longrightarrow> n = 0) \<and> (A \<noteq> 0 \<longrightarrow> X A = Some (4 * n)) \<and> length ts \<le> n \<and>
    list_all2 (\<lambda>t v. X t = Some (length v + 1) \<and> cstr (k_mem st) t v) ts ws \<and> distinct (A # ts) \<and>
    (\<forall>j < length ts. load32 (k_mem st) (A + 4 * of_nat j) = Some (ts ! j))"

lemma toks_simps:
  assumes "toks N s X A n ts ws st"
  shows "live N s X st" "A = 0 \<Longrightarrow> n = 0" "A \<noteq> 0 \<Longrightarrow> X A = Some (4 * n)" "length ts \<le> n"
    "list_all2 (\<lambda>t v. X t = Some (length v + 1) \<and> cstr (k_mem st) t v) ts ws" "A \<notin> set ts" "distinct ts"
    "\<And>j. j < length ts \<Longrightarrow> load32 (k_mem st) (A + 4 * of_nat j) = Some (ts ! j)"
  using assms unfolding toks_def by simp_all

lemma toks_some:
  assumes "toks N s X A n ts ws st" and "t \<in> set ts"
  shows "X t \<noteq> None" "t \<noteq> 0"
proof -
  note d = toks_simps [OF assms(1)]
  from assms(2) obtain j where "j < length ts" "ts ! j = t" by (auto simp: in_set_conv_nth)
  then have "X t = Some (length (ws ! j) + 1)" using d(5) unfolding list_all2_conv_all_nth by blast
  then show "X t \<noteq> None" "t \<noteq> 0" using live_size [OF d(1)] by simp_all
qed

lemma toksI:
  assumes "live N s X st" "A \<noteq> 0" "X A = Some (4 * n)" "length ts \<le> n"
    "list_all2 (\<lambda>t v. X t = Some (length v + 1) \<and> cstr (k_mem st) t v) ts ws" "A \<notin> set ts" "distinct ts"
    "\<And>j. j < length ts \<Longrightarrow> load32 (k_mem st) (A + 4 * of_nat j) = Some (ts ! j)"
  shows "toks N s X A n ts ws st"
  using assms unfolding toks_def by simp

lemma strings_frame:
  assumes "live N s X st" and "list_all2 (\<lambda>t v. X t = Some (length v + 1) \<and> cstr (k_mem st) t v) ts ws"
    and "\<And>t k. t \<in> set ts \<Longrightarrow> X t = Some k \<Longrightarrow> Y t = Some k \<and> agree t k (k_mem st) m"
  shows "list_all2 (\<lambda>t v. Y t = Some (length v + 1) \<and> cstr m t v) ts ws"
  using assms(2)
proof (rule list.rel_mono_strong)
  fix t v assume tv: "t \<in> set ts" "X t = Some (length v + 1) \<and> cstr (k_mem st) t v"
  have ag: "Y t = Some (length v + 1)" "agree t (length v + 1) (k_mem st) m" using assms(3) [OF tv(1)] tv(2) by auto
  have "length v + 1 < 2 ^ 32" using live_size [OF assms(1), of t "length v + 1"] tv(2) by simp
  then have "cstr m (t + of_nat 0) v" using tv(2) by (intro cstr_agree [OF _ ag(2)]) simp_all
  then show "Y t = Some (length v + 1) \<and> cstr m t v" using ag(1) by simp
qed

lemma toks_frame:
  assumes t: "toks N s X A n ts ws st" and A: "A \<noteq> 0" and l: "live N s Y st'"
    and ag: "\<And>t k. t \<in> insert A (set ts) \<Longrightarrow> X t = Some k \<Longrightarrow> Y t = Some k \<and> agree t k (k_mem st) (k_mem st')"
  shows "toks N s Y A n ts ws st'"
proof (rule toksI)
  note d = toks_simps [OF t]
  note x = d(3) [OF A]
  have n: "4 * n < 2 ^ 32" using live_size [OF d(1) x] by simp
  show "load32 (k_mem st') (A + 4 * of_nat j) = Some (ts ! j)" if j: "j < length ts" for j
  proof -
    have "load32 (k_mem st') (A + 4 * of_nat j) = load32 (k_mem st) (A + 4 * of_nat j)"
      using ag [OF insertI1 x] d(4) j n by (intro load32_agree [of A "4 * n"]) simp_all
    then show ?thesis using d(8) [OF j] by simp
  qed
  show "list_all2 (\<lambda>t v. Y t = Some (length v + 1) \<and> cstr (k_mem st') t v) ts ws"
    using ag by (intro strings_frame [OF d(1,5)]) simp
  show "Y A = Some (4 * n)" using ag [OF insertI1 x] by simp
qed (use l A toks_simps [OF t] in simp_all)

lemma toks_grow:
  assumes t: "toks N s X A n ts ws st" and nx: "k_next st = q # ps" and N: "4 * (n + 1) \<le> N"
  shows "\<exists>st'. krealloc A (of_nat (4 * (n + 1))) st = Some (q, st') \<and> toks N s (X(A := None, q \<mapsto> 4 * (n + 1))) q (n + 1) ts ws st' \<and>
    k_next st' = ps \<and> X q = None \<and> q \<noteq> 0 \<and> (\<forall>x k. x \<noteq> A \<longrightarrow> X x = Some k \<longrightarrow> agree x k (k_mem st) (k_mem st'))"
proof -
  note d = toks_simps [OF t]
  note l = d(1)
  let ?X = "X(A := None, q \<mapsto> 4 * (n + 1))"
  have "\<exists>st'. krealloc A (of_nat (4 * (n + 1))) st = Some (q, st') \<and> live N s ?X st' \<and> k_next st' = ps \<and> q \<noteq> 0 \<and> X q = None \<and>
    (\<forall>i < 4 * n. k_mem st' (q + of_nat i) = k_mem st (A + of_nat i)) \<and>
    (\<forall>a. \<not> unat (a - A) < 4 * n \<longrightarrow> \<not> unat (a - q) < 4 * (n + 1) \<longrightarrow> k_mem st' a = k_mem st a)"
    using N d(2,3) by (intro krealloc_live [OF l nx]) simp_all
  then obtain st' where e: "krealloc A (of_nat (4 * (n + 1))) st = Some (q, st')" and l': "live N s ?X st'" and n': "k_next st' = ps"
    and q: "q \<noteq> 0" "X q = None" and cp: "\<And>i. i < 4 * n \<Longrightarrow> k_mem st' (q + of_nat i) = k_mem st (A + of_nat i)"
    and ot: "\<And>a. \<not> unat (a - A) < 4 * n \<Longrightarrow> \<not> unat (a - q) < 4 * (n + 1) \<Longrightarrow> k_mem st' a = k_mem st a" by blast
  have ag: "agree x k (k_mem st) (k_mem st')" if x: "x \<noteq> A" "X x = Some k" for x k
    unfolding agree_def
  proof (intro allI impI)
    fix a assume a: "unat (a - x) < k"
    have xq: "x \<noteq> q" using x(2) q(2) by auto
    have "\<not> unat (a - q) < 4 * (n + 1)" using x xq by (intro live_apart [OF l' _ _ xq a]) auto
    moreover have "\<not> unat (a - A) < 4 * n"
    proof (cases "A = 0")
      case False
      then show ?thesis using live_apart [OF l x(2) d(3) x(1) a] by simp
    qed (use d(2) in simp)
    ultimately show "k_mem st' a = k_mem st a" using ot by blast
  qed
  have ts: "t \<noteq> A" "t \<noteq> q" if "t \<in> set ts" for t
    using toks_some [OF t that] q(2) d(6) that by auto
  have s': "list_all2 (\<lambda>t v. ?X t = Some (length v + 1) \<and> cstr (k_mem st') t v) ts ws"
    using ts ag by (intro strings_frame [OF l d(5)]) auto
  have "load32 (k_mem st') (q + 4 * of_nat j) = Some (ts ! j)" if j: "j < length ts" for j
  proof -
    have "load32 (k_mem st') (q + 4 * of_nat j) = load32 (k_mem st) (A + 4 * of_nat j)"
    proof (rule load32_same)
      show "k_mem st' (q + 4 * of_nat j + of_nat i) = k_mem st (A + 4 * of_nat j + of_nat i)" if "i < 4" for i
        using cp [of "4 * j + i"] that j d(4) by (simp add: add.assoc)
    qed
    then show ?thesis using d(8) [OF j] by simp
  qed
  then have "toks N s ?X q (n + 1) ts ws st'" using d(4,7) l' q(1) s' ts by (intro toksI) auto
  then show ?thesis using e n' q ag by blast
qed

lemma toks_store:
  assumes t: "toks N s X A n ts ws st" and A: "A \<noteq> 0" and i: "length ts \<le> i" "i < n"
  shows "\<exists>st'. on_mem (\<lambda>m. store32 m (A + 4 * word_of_int (int i)) w) st = Some st' \<and> toks N s X A n ts ws st' \<and>
    load32 (k_mem st') (A + 4 * of_nat i) = Some w \<and> k_next st' = k_next st \<and>
    (\<forall>x k. x \<noteq> A \<longrightarrow> X x = Some k \<longrightarrow> agree x k (k_mem st) (k_mem st'))"
proof -
  note d = toks_simps [OF t]
  note x = d(3) [OF A]
  have n: "4 * n < 2 ^ 32" using live_size [OF d(1) x] by simp
  have a: "A + 4 * word_of_int (int i) = A + of_nat (4 * i)" "A + 4 * of_nat i = A + of_nat (4 * i)" by simp_all
  have "block (k_mem st) (A + of_nat (4 * i)) 4"
    unfolding block_def
  proof (intro allI impI)
    fix j :: nat assume "j < 4"
    then have "4 * i + j < 4 * n" using i(2) by simp
    then have "k_mem st (A + of_nat (4 * i + j)) \<noteq> None" using live_block [OF d(1) x] unfolding block_def by blast
    then show "k_mem st (A + of_nat (4 * i) + of_nat j) \<noteq> None" by (simp add: add.assoc)
  qed
  from store32_load32 [OF this] obtain m where
    m: "store32 (k_mem st) (A + of_nat (4 * i)) w = Some m" "load32 m (A + of_nat (4 * i)) = Some w" "within (A + of_nat (4 * i)) 4 (k_mem st) m"
    by blast
  have wi: "within A (4 * n) (k_mem st) m" and be: "agree A (4 * i) (k_mem st) m"
    using within_part [OF m(3), of "4 * n"] within_before [OF m(3), of "4 * n"] i(2) n by auto
  have l: "live N s X (st\<lparr>k_mem := m\<rparr>)" using live_write [OF d(1) x wi] .
  have ag: "agree y k (k_mem st) m" if "y \<noteq> A" "X y = Some k" for y k
    using within_same [OF wi] by (intro agree_live [OF l that(2) x that(1)])
  have "toks N s X A n ts ws (st\<lparr>k_mem := m\<rparr>)"
  proof (rule toksI)
    show "list_all2 (\<lambda>t v. X t = Some (length v + 1) \<and> cstr (k_mem (st\<lparr>k_mem := m\<rparr>)) t v) ts ws"
      using ag d(6) by (intro strings_frame [OF d(1,5)]) (simp, metis)
    show "load32 (k_mem (st\<lparr>k_mem := m\<rparr>)) (A + 4 * of_nat j) = Some (ts ! j)" if j: "j < length ts" for j
      using load32_agree [OF be, of j] d(8) [OF j] j i n by simp
  qed (use l A x d in simp_all)
  moreover have "on_mem (\<lambda>m. store32 m (A + of_nat (4 * i)) w) st = Some (st\<lparr>k_mem := m\<rparr>)" using m(1) by (simp add: on_mem_def)
  ultimately show ?thesis unfolding a using m(2) ag by (intro exI [of _ "st\<lparr>k_mem := m\<rparr>"]) simp
qed

lemma toks_add:
  assumes t: "toks N s X A n ts ws st" and A: "A \<noteq> 0" and i: "length ts < n"
    and l: "load32 (k_mem st) (A + 4 * of_nat (length ts)) = Some t" and v: "X t = Some (length v + 1)" "cstr (k_mem st) t v" "t \<notin> insert A (set ts)"
  shows "toks N s X A n (ts @ [t]) (ws @ [v]) st"
proof (rule toksI)
  note d = toks_simps [OF t]
  show "list_all2 (\<lambda>t v. X t = Some (length v + 1) \<and> cstr (k_mem st) t v) (ts @ [t]) (ws @ [v])"
    using d(5) v by (simp add: list_all2_appendI)
  show "load32 (k_mem st) (A + 4 * of_nat j) = Some ((ts @ [t]) ! j)" if "j < length (ts @ [t])" for j
    using that d(8) [of j] l by (cases "j = length ts") (auto simp: nth_append)
qed (use toks_simps [OF t] A i v in auto)

lemma grabtok_live:
  assumes l: "live N s X st" and nx: "k_next st = t # ps" and c: "cstr (k_mem st) p w" and p: "p \<noteq> 0" and n: "length w < N" "length w + 1 < 2 ^ 31"
    and v: "v = takeWhile (\<lambda>b. b \<noteq> cc) w"
  shows "\<exists>st'. grabtok p (sint cc) st = Some (t, int (length v), st') \<and> live N s (X(t \<mapsto> length v + 1)) st' \<and> k_next st' = ps \<and>
    X t = None \<and> t \<noteq> 0 \<and> cstr (k_mem st') t v \<and> (\<forall>x k. X x = Some k \<longrightarrow> agree x k (k_mem st) (k_mem st'))"
proof -
  have g: "grab_loop p (sint cc) 0 (k_mem st) = Some (int (length v))" using grab_loop_cstr [OF c, of 0 cc] n(2) v by simp
  have k: "length v \<le> length w" unfolding v by (rule length_takeWhile_le)
  have tk: "take (length v) w = v" unfolding v by (rule takeWhile_eq_take [symmetric])
  have "length v < N" "length v + 1 < 2 ^ 31" using k n by auto
  from alloc_copy_live [OF l nx c k this] obtain st1 st2 st3 where
    s1: "kmalloc (word_of_int (int (length v) + 1)) st = (t, st1)" and
    s2: "on_mem (\<lambda>m. map_option snd (memset t 0 (word_of_int (int (length v) + 1)) m)) st1 = Some st2" and
    s3: "on_mem (\<lambda>m. map_option snd (safestrcpy t p (int (length v) + 1) m)) st2 = Some st3" and
    r: "live N s (X(t \<mapsto> length v + 1)) st3" "k_next st3 = ps" "X t = None" "t \<noteq> 0" "cstr (k_mem st3) t v"
      "\<And>a. \<not> unat (a - t) < length v + 1 \<Longrightarrow> k_mem st3 a = k_mem st a"
    unfolding tk by blast
  have "grabtok p (sint cc) st = Some (t, int (length v), st3)"
    using p g s1 s2 s3 by (simp add: grabtok_def del: of_int_add)
  moreover have "agree x k (k_mem st) (k_mem st3)" if "X x = Some k" for x k
    using that r(3) by (intro agree_live [OF r(1) _ _ _ r(6)]) auto
  ultimately show ?thesis using r(1-5) by blast
qed

section \<open>The loop over the string\<close>

text \<open>The blocks in use are the buffer, the array and the tokens.\<close>

definition tstate :: "nat \<Rightarrow> kst \<Rightarrow> (u32 \<Rightarrow> nat option) \<Rightarrow> u32 \<Rightarrow> nat \<Rightarrow> u32 \<Rightarrow> u32 list \<Rightarrow> u8 list list \<Rightarrow> kst \<Rightarrow> bool" where
  "tstate N s X buf sz A ts ws st \<longleftrightarrow> toks N s X A (length ts) ts ws st \<and> X buf = Some sz \<and> buf \<notin> insert A (set ts) \<and>
    dom X = insert buf (insert A (set ts) - {0})"

lemma tstate_dom:
  assumes "tstate N s X buf sz A ts ws st"
  shows "dom X - {A} = insert buf (set ts)"
proof -
  have tk: "toks N s X A (length ts) ts ws st" and nb: "buf \<notin> insert A (set ts)"
    and dm: "dom X = insert buf (insert A (set ts) - {0})" using assms unfolding tstate_def by auto
  show ?thesis unfolding dm using nb toks_simps(6) [OF tk] toks_some(2) [OF tk] by auto
qed

lemma offset_nonzero:
  assumes "p \<noteq> 0" and "unat p + N \<le> 2 ^ 32" and "k < N"
  shows "p + of_nat k \<noteq> (0 :: u32)"
proof -
  have "unat (p + of_nat k) = (unat p + k) mod 2 ^ 32" by (simp add: unat_word_ariths unat_of_nat mod_simps)
  moreover have "0 < unat p" using assms(1) by (simp add: unat_gt_0)
  ultimately have "unat (p + of_nat k) \<noteq> 0" using assms(2,3) by simp
  then show ?thesis by auto
qed

lemma token_step:
  assumes t: "tstate N s X buf sz A ts ws st" and nx: "k_next st = q # t # ps" and N: "4 * (length ts + 1) \<le> N" "N < 2 ^ 31"
    and c: "cstr (k_mem st) (buf + of_nat k) w" "k + length w < sz" and u: "dropWhile (\<lambda>b. b = cc) w = u" "u \<noteq> []"
    and v: "v = takeWhile (\<lambda>b. b \<noteq> cc) u"
  shows "\<exists>st' X' k'. token_loop (buf + of_nat k) (sint cc) A (int (length ts)) st =
      token_loop (buf + of_nat k') (sint cc) q (int (length (ts @ [t]))) st' \<and>
    tstate N s X' buf sz q (ts @ [t]) (ws @ [v]) st' \<and> k_next st' = ps \<and>
    cstr (k_mem st') (buf + of_nat k') (dropWhile (\<lambda>b. b \<noteq> cc) u) \<and> k' + length (dropWhile (\<lambda>b. b \<noteq> cc) u) < sz"
proof -
  let ?n = "length ts"
  have tk: "toks N s X A ?n ts ws st" and xb: "X buf = Some sz" and nb: "buf \<noteq> A" "buf \<notin> set ts"
    and dm: "dom X = insert buf (insert A (set ts) - {0})" using t unfolding tstate_def by auto
  note d = toks_simps [OF tk]
  have sz: "sz \<le> N" "sz < 2 ^ 31" "sz < 2 ^ 32" "buf \<noteq> 0" "unat buf + N \<le> 2 ^ 32" using live_size [OF d(1) xb] N(2) by auto
  from toks_grow [OF tk nx N(1)] obtain st1 where
    s1: "krealloc A (of_nat (4 * (?n + 1))) st = Some (q, st1)" and t1: "toks N s (X(A := None, q \<mapsto> 4 * (?n + 1))) q (?n + 1) ts ws st1"
    and n1: "k_next st1 = t # ps" and q: "X q = None" "q \<noteq> 0" and ag1: "\<And>x k. x \<noteq> A \<Longrightarrow> X x = Some k \<Longrightarrow> agree x k (k_mem st) (k_mem st1)"
    by blast
  let ?X1 = "X(A := None, q \<mapsto> 4 * (?n + 1))"
  note d1 = toks_simps [OF t1]
  have bq: "buf \<noteq> q" using xb q(1) by auto
  have xb1: "?X1 buf = Some sz" using xb nb bq by simp
  have c1: "cstr (k_mem st1) (buf + of_nat k) w" using cstr_agree [OF c(1) ag1 [OF nb(1) xb] c(2) sz(3)] .
  let ?j = "length (takeWhile (\<lambda>b. b = cc) w)"
  have sk: "skip_loop (buf + of_nat k) (sint cc) (k_mem st1) = Some (buf + of_nat (k + ?j))"
    using skip_loop_cstr [OF c1] by (simp add: add.assoc)
  have jl: "?j \<le> length w" by (rule length_takeWhile_le)
  have uw: "u = drop ?j w" using u(1) by (simp add: dropWhile_eq_drop)
  have cu: "cstr (k_mem st1) (buf + of_nat (k + ?j)) u" using cstr_drop [OF c1 jl] uw by (simp add: add.assoc)
  have lu: "k + ?j + length u < sz" using uw jl c(2) by simp
  have p0: "buf + of_nat (k + ?j) \<noteq> 0" using lu sz(1) by (intro offset_nonzero [OF sz(4,5)]) simp
  from grabtok_live [OF d1(1) n1 cu p0 _ _ v] lu sz obtain st2 where
    s2: "grabtok (buf + of_nat (k + ?j)) (sint cc) st1 = Some (t, int (length v), st2)" and l2: "live N s (?X1(t \<mapsto> length v + 1)) st2"
    and n2: "k_next st2 = ps" and tn: "?X1 t = None" "t \<noteq> 0" and ct: "cstr (k_mem st2) t v"
    and ag2: "\<And>x k. ?X1 x = Some k \<Longrightarrow> agree x k (k_mem st1) (k_mem st2)" by force
  let ?X2 = "?X1(t \<mapsto> length v + 1)"
  have tq: "t \<noteq> q" and tb: "t \<noteq> buf" using tn xb1 by auto
  have tt: "t \<notin> set ts" using toks_some(1) [OF t1] tn(1) by blast
  have t2: "toks N s ?X2 q (?n + 1) ts ws st2"
  proof (rule toks_frame [OF t1 q(2) l2])
    fix x k' assume "x \<in> insert q (set ts)" "?X1 x = Some k'"
    then show "?X2 x = Some k' \<and> agree x k' (k_mem st1) (k_mem st2)" using ag2 [of x k'] tn(1) by (metis fun_upd_other option.distinct(1))
  qed
  from toks_store [OF t2 q(2), of ?n t] obtain st3 where
    s3: "on_mem (\<lambda>m. store32 m (q + 4 * word_of_int (int ?n)) t) st2 = Some st3" and t3: "toks N s ?X2 q (?n + 1) ts ws st3"
    and ld: "load32 (k_mem st3) (q + 4 * of_nat ?n) = Some t" and n3: "k_next st3 = k_next st2"
    and ag3: "\<And>x k. x \<noteq> q \<Longrightarrow> ?X2 x = Some k \<Longrightarrow> agree x k (k_mem st2) (k_mem st3)" by auto
  have xt: "?X2 t = Some (length v + 1)" by simp
  have lv: "length v + 1 < 2 ^ 32" using live_size [OF l2 xt] by simp
  have ct3: "cstr (k_mem st3) t v" using cstr_agree [of "k_mem st2" t 0 v "length v + 1"] ct ag3 [OF tq xt] lv by simp
  have t4: "toks N s ?X2 q (?n + 1) (ts @ [t]) (ws @ [v]) st3"
    using tt tq by (intro toks_add [OF t3 q(2) _ ld xt ct3]) auto
  have xb2: "?X2 buf = Some sz" using xb1 tb by simp
  have dw: "dropWhile (\<lambda>b. b \<noteq> cc) u = drop (length v) u" unfolding v by (rule dropWhile_eq_drop)
  have vl: "length v \<le> length u" unfolding v by (rule length_takeWhile_le)
  have cu2: "cstr (k_mem st2) (buf + of_nat (k + ?j)) u" using cstr_agree [OF cu ag2 [OF xb1] lu sz(3)] .
  have cu3: "cstr (k_mem st3) (buf + of_nat (k + ?j)) u" using cstr_agree [OF cu2 ag3 [OF bq xb2] lu sz(3)] .
  let ?k = "k + ?j + length v"
  have cw: "cstr (k_mem st3) (buf + of_nat ?k) (dropWhile (\<lambda>b. b \<noteq> cc) u)"
    using cstr_drop [OF cu3 vl] unfolding dw by (simp add: add.assoc)
  have lw: "?k + length (dropWhile (\<lambda>b. b \<noteq> cc) u) < sz" using lu vl unfolding dw by simp
  have nz: "\<exists>b. k_mem st (buf + of_nat k) = Some b \<and> b \<noteq> 0"
    using c(1) u by (cases w) auto
  have "token_loop (buf + of_nat k) (sint cc) A (int ?n) st = token_loop (buf + of_nat ?k) (sint cc) q (int (length (ts @ [t]))) st3"
  proof -
    have w: "word_of_int (4 * (int ?n + 1)) = (of_nat (4 * (?n + 1)) :: u32)" by (simp add: algebra_simps)
    obtain b where b: "k_mem st (buf + of_nat k) = Some b" "b \<noteq> 0" using nz by blast
    have p: "buf + of_nat (k + ?j) + word_of_int (int (length v)) = buf + of_nat ?k" "int ?n + 1 = int (length (ts @ [t]))" by (simp_all add: add.assoc)
    show ?thesis
      by (subst token_loop.simps, unfold b(1) bind.bind_lunit w s1) (simp only: b(2) if_False bind.bind_lunit case_prod_conv sk s2 s3 tn(2) p)
  qed
  moreover have "tstate N s ?X2 buf sz q (ts @ [t]) (ws @ [v]) st3"
  proof -
    have "dom ?X2 = insert t (insert q (dom X - {A}))" by (simp add: insert_commute)
    also have "\<dots> = insert buf (insert q (set (ts @ [t])) - {0})"
      unfolding tstate_dom [OF t] using q(2) tn(2) sz(4) toks_some(2) [OF tk] by auto
    finally show ?thesis using t4 xb2 nb bq tb tq unfolding tstate_def by auto
  qed
  ultimately show ?thesis using cw lw n2 n3 by blast
qed

lemma token_loop_words:
  assumes "tstate N s X buf sz A ts ws st" and "cstr (k_mem st) (buf + of_nat k) w" and "k + length w < sz" and "w = [] \<or> last w \<noteq> cc"
    and "2 * length (words cc w) \<le> length (k_next st)" and "4 * (length ts + length (words cc w)) \<le> N" and "N < 2 ^ 31"
  shows "\<exists>st' X' A' ts'. token_loop (buf + of_nat k) (sint cc) A (int (length ts)) st = Some (A', int (length ts'), st') \<and>
    tstate N s X' buf sz A' ts' (ws @ words cc w) st' \<and> k_next st' = drop (2 * length (words cc w)) (k_next st)"
  using assms
proof (induction cc w arbitrary: X A ts ws st k rule: words.induct)
  case (1 cc w)
  show ?case
  proof (cases "w = []")
    case True
    then have "token_loop (buf + of_nat k) (sint cc) A (int (length ts)) st = Some (A, int (length ts), st)"
      using "1.prems"(2) by (subst token_loop.simps) simp
    moreover have "words cc w = []" using True by (simp add: words_none)
    ultimately show ?thesis using "1.prems"(1) by (intro exI [of _ st] exI [of _ X] exI [of _ A] exI [of _ ts]) simp
  next
    case False
    let ?u = "dropWhile (\<lambda>b. b = cc) w"
    let ?v = "takeWhile (\<lambda>b. b \<noteq> cc) ?u" and ?w = "dropWhile (\<lambda>b. b \<noteq> cc) ?u"
    have "last w \<in> set w" "last w \<noteq> cc" using False "1.prems"(4) by auto
    then have u: "?u \<noteq> []" by (auto simp: dropWhile_eq_Nil_conv)
    have wd: "words cc w = ?v # words cc ?w" using words_some [OF refl u] .
    from "1.prems"(5) obtain q t ps where nx: "k_next st = q # t # ps" "2 * length (words cc ?w) \<le> length ps"
      unfolding wd by (cases "k_next st"; cases "tl (k_next st)") auto
    have "4 * (length ts + 1) \<le> N" using "1.prems"(6) unfolding wd by simp
    from token_step [OF "1.prems"(1) nx(1) this "1.prems"(7,2,3) refl u refl] obtain st' X' k' where
      s: "token_loop (buf + of_nat k) (sint cc) A (int (length ts)) st = token_loop (buf + of_nat k') (sint cc) q (int (length (ts @ [t]))) st'"
        "tstate N s X' buf sz q (ts @ [t]) (ws @ [?v]) st'" "k_next st' = ps" "cstr (k_mem st') (buf + of_nat k') ?w" "k' + length ?w < sz"
      by blast
    have l: "?w = [] \<or> last ?w \<noteq> cc"
    proof (rule disj_imp [THEN iffD2], rule impI)
      assume "?w \<noteq> []"
      then have "last ?w = last w" by (rule trans [OF last_dropWhile last_dropWhile [OF u]])
      then show "last ?w \<noteq> cc" using \<open>last w \<noteq> cc\<close> by (simp only: simp_thms)
    qed
    have le: "2 * length (words cc ?w) \<le> length (k_next st')" "4 * (length (ts @ [t]) + length (words cc ?w)) \<le> N"
      using nx(2) s(3) "1.prems"(6) unfolding wd by simp_all
    from "1.IH" [OF refl u s(2,4,5) l le "1.prems"(7)] obtain st'' X'' A' ts' where
      "token_loop (buf + of_nat k') (sint cc) q (int (length (ts @ [t]))) st' = Some (A', int (length ts'), st'')"
      "tstate N s X'' buf sz A' ts' ((ws @ [?v]) @ words cc ?w) st''" "k_next st'' = drop (2 * length (words cc ?w)) ps"
      unfolding s(3) by blast
    then show ?thesis unfolding s(1) wd nx(1) by (intro exI [of _ st''] exI [of _ X''] exI [of _ A'] exI [of _ ts']) simp
  qed
qed

definition token_array :: "nat \<Rightarrow> kst \<Rightarrow> (u32 \<Rightarrow> nat option) \<Rightarrow> u32 \<Rightarrow> u32 list \<Rightarrow> u8 list list \<Rightarrow> kst \<Rightarrow> bool" where
  "token_array N s X A ts ws st \<longleftrightarrow> toks N s X A (length ts + 1) ts ws st \<and> A \<noteq> 0 \<and>
    load32 (k_mem st) (A + 4 * of_nat (length ts)) = Some 0 \<and> dom X = insert A (set ts)"

lemma token_finish:
  assumes t: "tstate N s X buf sz A ts ws st" and nx: "k_next st = q # ps" and N: "4 * (length ts + 1) \<le> N"
  shows "\<exists>st1 st2 st3 X'. krealloc A (of_nat (4 * (length ts + 1))) st = Some (q, st1) \<and>
    on_mem (\<lambda>m. store32 m (q + 4 * word_of_int (int (length ts))) 0) st1 = Some st2 \<and> kfree buf st2 = Some st3 \<and> token_array N s X' q ts ws st3"
proof -
  let ?n = "length ts"
  have tk: "toks N s X A ?n ts ws st" and xb: "X buf = Some sz" and nb: "buf \<noteq> A" "buf \<notin> set ts"
    and dm: "dom X = insert buf (insert A (set ts) - {0})" using t unfolding tstate_def by auto
  note d = toks_simps [OF tk]
  let ?X = "X(A := None, q \<mapsto> 4 * (?n + 1))"
  from toks_grow [OF tk nx N] obtain st1 where
    s1: "krealloc A (of_nat (4 * (?n + 1))) st = Some (q, st1)" "toks N s ?X q (?n + 1) ts ws st1" "X q = None" "q \<noteq> 0" by blast
  from toks_store [OF s1(2,4), of ?n 0] obtain st2 where
    s2: "on_mem (\<lambda>m. store32 m (q + 4 * word_of_int (int ?n)) 0) st1 = Some st2" "toks N s ?X q (?n + 1) ts ws st2"
      "load32 (k_mem st2) (q + 4 * of_nat ?n) = Some 0" by auto
  note d2 = toks_simps [OF s2(2)]
  have bq: "buf \<noteq> q" using xb s1(3) by auto
  have xb2: "?X buf = Some sz" using xb nb bq by simp
  from kfree_live [OF d2(1) xb2] obtain st3 where
    s3: "kfree buf st2 = Some st3" "live N s (?X(buf := None)) st3" "\<And>a. \<not> unat (a - buf) < sz \<Longrightarrow> k_mem st3 a = k_mem st2 a" by blast
  have ag: "agree x k (k_mem st2) (k_mem st3)" if "x \<noteq> buf" "?X x = Some k" for x k
    using agree_live [OF d2(1) that(2) xb2 that(1) s3(3)] .
  have t3: "toks N s (?X(buf := None)) q (?n + 1) ts ws st3"
  proof (rule toks_frame [OF s2(2) s1(4) s3(2)])
    fix x k assume x: "x \<in> insert q (set ts)" "?X x = Some k"
    then have "x \<noteq> buf" using nb bq by auto
    then show "(?X(buf := None)) x = Some k \<and> agree x k (k_mem st2) (k_mem st3)" using ag [OF _ x(2)] x(2) by simp
  qed
  have xq: "?X q = Some (4 * (?n + 1))" by simp
  have "4 * (?n + 1) < 2 ^ 32" using live_size [OF d2(1) xq] by simp
  then have l3: "load32 (k_mem st3) (q + 4 * of_nat ?n) = Some 0"
    using load32_agree [OF ag [OF bq [symmetric] xq], of ?n] s2(3) by simp
  have "dom (?X(buf := None)) = insert q (dom X - {A}) - {buf}" by simp
  also have "\<dots> = insert q (set ts)" unfolding tstate_dom [OF t] using nb bq by auto
  finally show ?thesis using s1 s2 s3(1) t3 l3 unfolding token_array_def by blast
qed




text \<open>The buffer: a copy of the string.\<close>

lemma tokenize_buffer:
  assumes p: "pool N st" and c: "cstr (k_mem st) s w" and n: "length w < N" "N < 2 ^ 31" and nx: "k_next st = buf # ps"
  obtains st1 st2 st3 where "strlen s (k_mem st) = Some (int (length w))" "kmalloc (word_of_int (int (length w) + 1)) st = (buf, st1)"
    "on_mem (\<lambda>m. map_option snd (memset buf 0 (word_of_int (int (length w) + 1)) m)) st1 = Some st2"
    "on_mem (\<lambda>m. map_option snd (safestrcpy buf s (int (length w) + 1) m)) st2 = Some st3"
    "live N st [buf \<mapsto> length w + 1] st3" "k_next st3 = ps" "buf \<noteq> 0" "cstr (k_mem st3) buf w" "strlen buf (k_mem st3) = Some (int (length w))"
    "\<forall>a. \<not> unat (a - buf) < length w + 1 \<longrightarrow> k_mem st3 a = k_mem st a"
proof -
  have l: "length w < 2 ^ 31" "length w + 1 < 2 ^ 31" using n by auto
  from alloc_copy_live [OF live_start [OF p] nx c order_refl n(1) l(2)] obtain st1 st2 st3 where
    "kmalloc (word_of_int (int (length w) + 1)) st = (buf, st1)"
    "on_mem (\<lambda>m. map_option snd (memset buf 0 (word_of_int (int (length w) + 1)) m)) st1 = Some st2"
    "on_mem (\<lambda>m. map_option snd (safestrcpy buf s (int (length w) + 1) m)) st2 = Some st3"
    "live N st [buf \<mapsto> length w + 1] st3" "k_next st3 = ps" "buf \<noteq> 0" "cstr (k_mem st3) buf w"
    "\<forall>a. \<not> unat (a - buf) < length w + 1 \<longrightarrow> k_mem st3 a = k_mem st a"
    unfolding take_all [OF order_refl] by blast
  then show ?thesis using that strlen_cstr [OF c l(1)] strlen_cstr [OF _ l(1)] by blast
qed

lemma tokenize_array:
  assumes p: "pool N st" and c: "cstr (k_mem st) s w" and s: "s \<noteq> 0" "cc \<noteq> 0" and w: "\<exists>b \<in> set w. b \<noteq> cc"
    and n: "4 * (length w + 1) \<le> N" "N < 2 ^ 31" "2 * length w + 2 \<le> length (k_next st)"
  shows "\<exists>A st' X ts. tokenize s (sint cc) st = Some (A, st') \<and> token_array N st X A ts (words cc w) st'"
proof -
  from n(3) obtain buf ps where nx: "k_next st = buf # ps" "2 * length w + 1 \<le> length ps" by (cases "k_next st") auto
  have lw: "length w < N" using n(1) by simp
  from tokenize_buffer [OF p c lw n(2) nx(1)] obtain st1 st2 st3 where
    s1: "strlen s (k_mem st) = Some (int (length w))" "kmalloc (word_of_int (int (length w) + 1)) st = (buf, st1)"
      "on_mem (\<lambda>m. map_option snd (memset buf 0 (word_of_int (int (length w) + 1)) m)) st1 = Some st2"
      "on_mem (\<lambda>m. map_option snd (safestrcpy buf s (int (length w) + 1) m)) st2 = Some st3"
    and l3: "live N st [buf \<mapsto> length w + 1] st3" and n3: "k_next st3 = ps" "buf \<noteq> 0"
    and c3: "cstr (k_mem st3) buf w" "strlen buf (k_mem st3) = Some (int (length w))" by blast
  from trim_split [OF w] obtain u x k where ux: "w = u @ [x] @ replicate k cc" "x \<noteq> cc" by blast
  have lu: "length w = length u + k + 1" unfolding ux(1) by simp
  have "length u + k + 1 < 2 ^ 32" using lu lw n(2) by simp
  from trim_loop_cstr [OF c3(1) [unfolded ux(1)] ux(2) this] obtain m where
    m: "trim_loop (buf + of_nat (length u + k)) (sint cc) (k_mem st3) = Some m" "cstr m buf (u @ [x])" "within buf (length w) (k_mem st3) m"
    unfolding lu by blast
  let ?X = "[buf \<mapsto> length w + 1]" and ?st = "st3\<lparr>k_mem := m\<rparr>" and ?v = "u @ [x]"
  have xb: "?X buf = Some (length w + 1)" by simp
  have l4: "live N st ?X ?st" using within_mono [OF m(3)] by (intro live_write [OF l3 xb]) simp
  have tr: "on_mem (trim_loop (buf + word_of_int (int (length w) - 1)) (sint cc)) st3 = Some ?st"
    using m(1) unfolding lu by (simp add: on_mem_def)
  have ts: "tstate N st ?X buf (length w + 1) 0 [] [] ?st"
    using l4 n3(2) unfolding tstate_def toks_def by simp
  have wd: "words cc ?v = words cc w" unfolding ux(1) append_assoc [symmetric] by (rule words_trim [symmetric])
  have lwd: "length (words cc w) \<le> length w" by (rule length_words)
  have "\<exists>st' X' A' ts'. token_loop (buf + of_nat 0) (sint cc) 0 (int (length ([] :: u32 list))) ?st = Some (A', int (length ts'), st') \<and>
    tstate N st X' buf (length w + 1) A' ts' ([] @ words cc ?v) st' \<and> k_next st' = drop (2 * length (words cc ?v)) (k_next ?st)"
    using m(2) ux(2) n n3(1) nx(2) lwd lu wd by (intro token_loop_words [OF ts]) (simp_all del: fun_upd_apply)
  then obtain st' X' A' ts' where
    tl: "token_loop buf (sint cc) 0 0 ?st = Some (A', int (length ts'), st')" "tstate N st X' buf (length w + 1) A' ts' (words cc w) st'"
      "k_next st' = drop (2 * length (words cc w)) ps" using wd n3(1) by auto
  have "toks N st X' A' (length ts') ts' (words cc w) st'" using tl(2) unfolding tstate_def by simp
  then have lt: "length ts' = length (words cc w)" using toks_simps(5) list_all2_lengthD by blast
  have "k_next st' \<noteq> []" using tl(3) nx(2) lwd by simp
  then obtain q qs where nq: "k_next st' = q # qs" by (cases "k_next st'") auto
  have "4 * (length ts' + 1) \<le> N" using lt lwd n(1) by simp
  from token_finish [OF tl(2) nq this] obtain s1' s2' s3' X'' where
    f: "krealloc A' (of_nat (4 * (length ts' + 1))) st' = Some (q, s1')"
      "on_mem (\<lambda>m. store32 m (q + 4 * word_of_int (int (length ts'))) 0) s1' = Some s2'" "kfree buf s2' = Some s3'"
      "token_array N st X'' q ts' (words cc w) s3'" by blast
  have sz: "word_of_int (4 * (int (length ts') + 1)) = (of_nat (4 * (length ts' + 1)) :: u32)" by (simp add: algebra_simps)
  have nz: "sint cc \<noteq> 0" using s(2) sint_u8_eq [of cc 0] by simp
  have "tokenize s (sint cc) st = Some (q, s3')"
    unfolding tokenize_def s1(1) bind.bind_lunit Let_def s1(2) case_prod_conv s1(3,4) c3(2) tr tl(1) sz f(1-3) using s(1) nz by simp
  then show ?thesis using f(4) by blast
qed

lemma tokens_loop_frees:
  assumes "live N s X st" and "X A = Some (4 * n)" and "j + length us < n" and "distinct us" and "A \<notin> set us" and "\<And>u. u \<in> set us \<Longrightarrow> X u \<noteq> None"
    and "\<And>i. i < length us \<Longrightarrow> load32 (k_mem st) (A + 4 * of_nat (j + i)) = Some (us ! i)"
    and "load32 (k_mem st) (A + 4 * of_nat (j + length us)) = Some 0"
  shows "\<exists>st'. tokens_loop (A + 4 * of_nat j) st = Some st' \<and> live N s (X |` (- set us)) st'"
  using assms
proof (induction us arbitrary: X st j)
  case Nil
  then show ?case by (subst tokens_loop.simps) (simp add: Compl_eq_Diff_UNIV restrict_map_def)
next
  case (Cons u us)
  obtain k where u: "X u = Some k" using Cons.prems(6) [of u] by auto
  have ne: "A \<noteq> u" using Cons.prems(5) by auto
  have n: "4 * n < 2 ^ 32" using live_size [OF Cons.prems(1,2)] by simp
  from kfree_live [OF Cons.prems(1) u] obtain st1 where
    s1: "kfree u st = Some st1" "live N s (X(u := None)) st1" "\<And>a. \<not> unat (a - u) < k \<Longrightarrow> k_mem st1 a = k_mem st a" by blast
  have ag: "agree A (4 * n) (k_mem st) (k_mem st1)" using agree_live [OF Cons.prems(1,2) u ne s1(3)] .
  have ld: "load32 (k_mem st1) (A + 4 * of_nat i) = load32 (k_mem st) (A + 4 * of_nat i)" if "i < n" for i
    using load32_agree [OF ag, of i] that n by simp
  have "\<exists>st'. tokens_loop (A + 4 * of_nat (Suc j)) st1 = Some st' \<and> live N s (X(u := None) |` (- set us)) st'"
  proof (rule Cons.IH [OF s1(2)])
    show "(X(u := None)) A = Some (4 * n)" using Cons.prems(2) ne by simp
    show "Suc j + length us < n" using Cons.prems(3) by simp
    show "load32 (k_mem st1) (A + 4 * of_nat (Suc j + i)) = Some (us ! i)" if "i < length us" for i
      using Cons.prems(7) [of "Suc i"] ld [of "Suc j + i"] that Cons.prems(3) by simp
    show "load32 (k_mem st1) (A + 4 * of_nat (Suc j + length us)) = Some 0"
      using Cons.prems(8) ld [of "Suc j + length us"] Cons.prems(3) by simp
  qed (use Cons.prems in auto)
  then obtain st' where st': "tokens_loop (A + 4 * of_nat (Suc j)) st1 = Some st'" "live N s (X(u := None) |` (- set us)) st'" by blast
  have "load32 (k_mem st) (A + 4 * of_nat j) = Some u" using Cons.prems(7) [of 0] by simp
  moreover have "u \<noteq> 0" using live_size [OF Cons.prems(1) u] by simp
  moreover have "A + 4 * of_nat j + 4 = A + 4 * of_nat (Suc j)" by (simp add: algebra_simps)
  ultimately have "tokens_loop (A + 4 * of_nat j) st = Some st'"
    using s1(1) st'(1) by (subst tokens_loop.simps) (simp only: bind.bind_lunit if_False)
  moreover have "X(u := None) |` (- set us) = X |` (- set (u # us))" by (rule ext) (simp add: restrict_map_def)
  ultimately show ?case using st'(2) by (simp only:) blast
qed

lemma tokens_free_array:
  assumes t: "token_array N s X A ts ws st"
  shows "\<exists>st'. tokens_free A st = Some st' \<and> k_mem st' = k_mem s \<and> k_blk st' = k_blk s"
proof -
  have tk: "toks N s X A (length ts + 1) ts ws st" and A: "A \<noteq> 0" and z: "load32 (k_mem st) (A + 4 * of_nat (length ts)) = Some 0"
    and dm: "dom X = insert A (set ts)" using t unfolding token_array_def by auto
  note d = toks_simps [OF tk]
  have "\<exists>st'. tokens_loop (A + 4 * of_nat 0) st = Some st' \<and> live N s (X |` (- set ts)) st'"
    using d(6,7,8) z toks_some(1) [OF tk] by (intro tokens_loop_frees [OF d(1) d(3) [OF A]]) simp_all
  then obtain st1 where s1: "tokens_loop A st = Some st1" "live N s (X |` (- set ts)) st1" by auto
  have xa: "(X |` (- set ts)) A = Some (4 * (length ts + 1))" using d(3) [OF A] d(6) by simp
  from kfree_live [OF s1(2) xa] obtain st2 where s2: "kfree A st1 = Some st2" "live N s ((X |` (- set ts))(A := None)) st2" by blast
  have "((X |` (- set ts))(A := None)) x = None" for x using dm by (auto simp: restrict_map_def)
  then have "(X |` (- set ts))(A := None) = Map.empty" by blast
  then have "k_mem st2 = k_mem s \<and> k_blk st2 = k_blk s" using live_done s2(2) by (simp only:)
  then show ?thesis using s1(1) s2(1) A by (auto simp: tokens_free_def)
qed


section \<open>Properties\<close>

text \<open>A supply of addresses at distances of at least \<open>N\<close>, above all memory in use, is a pool.\<close>

lemma region_bounds:
  assumes "unat (a - p :: u32) < N" and "unat p + N \<le> 2 ^ 32"
  shows "unat p \<le> unat a \<and> unat a < unat p + N"
proof -
  have "p + (a - p) = a" by simp
  then have "unat a = unat (p + (a - p))" by (simp only:)
  also have "\<dots> = (unat p + unat (a - p)) mod 2 ^ 32" by (simp only: unat_word_ariths) simp
  also have "\<dots> = unat p + unat (a - p)" using assms by (intro mod_less) linarith
  finally show ?thesis using assms(1) by simp
qed

lemma pool_spaced:
  assumes "sorted_wrt (\<lambda>p q. unat p + N \<le> unat q) (k_next st)" and "0 < N" and "N < 2 ^ 32"
    and "\<And>q. q \<in> set (k_next st) \<Longrightarrow> q \<noteq> 0 \<and> unat q + N \<le> 2 ^ 32 \<and> k_blk st q = None \<and> lim \<le> unat q"
    and "\<And>a. lim \<le> unat a \<Longrightarrow> k_mem st a = None"
  shows "pool N st"
proof -
  have "k_mem st a = None" if "q \<in> set (k_next st)" "unat (a - q) < N" for q a
    using region_bounds [OF that(2)] assms(4) [OF that(1)] assms(5) by simp
  moreover have "distinct (k_next st)"
  proof (rule ccontr)
    assume "\<not> distinct (k_next st)"
    then obtain i j where ij: "i < j" "j < length (k_next st)" "k_next st ! i = k_next st ! j"
      by (metis distinct_conv_nth nat_neq_iff)
    then have "unat (k_next st ! i) + N \<le> unat (k_next st ! j)" using sorted_wrt_nth_less [OF assms(1)] by blast
    then show False using ij(3) assms(2) by simp
  qed
  moreover have "\<not> unat (a - q) < N" if "p \<in> set (k_next st)" "q \<in> set (k_next st)" "p \<noteq> q" "unat (a - p) < N" for p q a
  proof
    assume "unat (a - q) < N"
    then have b: "unat q \<le> unat a" "unat a < unat q + N" "unat p \<le> unat a" "unat a < unat p + N"
      using region_bounds [OF that(4)] region_bounds [of a q N] assms(4) that(1,2) by auto
    from that(1,2) obtain i j where ij: "i < length (k_next st)" "j < length (k_next st)" "k_next st ! i = p" "k_next st ! j = q"
      by (metis in_set_conv_nth)
    then have "unat p + N \<le> unat q \<or> unat q + N \<le> unat p"
      using sorted_wrt_nth_less [OF assms(1), of i j] sorted_wrt_nth_less [OF assms(1), of j i] that(3) by (cases i j rule: linorder_cases) auto
    then show False using b by linarith
  qed
  ultimately show ?thesis using assms(2,3,4) unfolding pool_def by blast
qed

definition demo :: "u8 list \<Rightarrow> kst" where
  "demo w = \<lparr>k_mem = [16 \<mapsto> w ! 0, 17 \<mapsto> w ! 1, 18 \<mapsto> 0], k_blk = Map.empty, k_next = [0x100, 0x200, 0x300, 0x400, 0x500, 0x600], k_junk = (\<lambda>_. 85)\<rparr>"

lemma demo_pool: "pool 16 (demo w)"
proof (rule pool_spaced)
  show "k_mem (demo w) a = None" if "32 \<le> unat a" for a using that by (auto simp: demo_def)
qed (auto simp: demo_def)



text \<open>C36. \<^verbatim>\<open>tokens_free\<close> of the array that \<^verbatim>\<open>tokenize\<close> returns frees every block that was allocated on the way, the
  buffer and the outgrown arrays included: the memory and the table of blocks are as before the call.\<close>

theorem tokens_no_leak:
  assumes "pool N st" and "cstr (k_mem st) s w" and "s \<noteq> 0" and "cc \<noteq> 0" and "\<exists>b \<in> set w. b \<noteq> cc"
    and "4 * (length w + 1) \<le> N" and "N < 2 ^ 31" and "2 * length w + 2 \<le> length (k_next st)"
  shows "\<exists>tokens st' st''. tokenize s (sint cc) st = Some (tokens, st') \<and> tokens_free tokens st' = Some st'' \<and>
    k_mem st'' = k_mem st \<and> k_blk st'' = k_blk st"
  using tokenize_array [OF assms] tokens_free_array by blast

theorem tokens_no_leak_witness:
  "\<exists>tokens st' st''. tokenize 16 47 (demo [47, 97]) = Some (tokens, st') \<and> tokens_free tokens st' = Some st'' \<and> k_blk st'' = Map.empty"
proof -
  have c: "cstr (k_mem (demo [47, 97])) 16 [47, 97]" by (simp add: demo_def)
  have "\<exists>tokens st' st''. tokenize 16 (sint (47 :: u8)) (demo [47, 97]) = Some (tokens, st') \<and> tokens_free tokens st' = Some st'' \<and>
    k_mem st'' = k_mem (demo [47, 97]) \<and> k_blk st'' = k_blk (demo [47, 97])"
    by (rule tokens_no_leak [OF demo_pool c]) (simp_all add: demo_def)
  then show ?thesis by (auto simp: demo_def)
qed

lemma trim_loop_all:
  assumes "cstr m p (replicate k cc)" and "k < 2 ^ 31" and "m (p - 1) = None"
  shows "trim_loop (p + word_of_int (int k - 1)) (sint cc) m = None"
  using assms
proof (induction k arbitrary: m)
  case 0
  then show ?case by (subst trim_loop.simps) simp
next
  case (Suc k)
  have e: "replicate (Suc k) cc = replicate k cc @ [cc]" by (simp add: replicate_append_same)
  have c: "cstr m p (replicate k cc @ [cc])" using Suc.prems(1) unfolding e .
  have "(replicate k cc @ [cc, 0]) ! k = cc" by (simp add: nth_append)
  then have b: "m (p + of_nat k) = Some cc" using cstr_nth [OF c, of k] by simp
  have z: "cc \<noteq> 0" using cstr_nonzero [OF c] by auto
  have c1: "cstr (m(p + of_nat k \<mapsto> 0)) p (replicate k cc)" using cstr_cut [OF c] Suc.prems(2) by simp
  have "p + of_nat k \<noteq> p - 1"
  proof
    assume "p + of_nat k = p - 1"
    then have "of_nat (Suc k) = (0 :: u32)" by (simp add: algebra_simps)
    then show False using Suc.prems(2) unat_nat [of "Suc k"] by simp
  qed
  then have "(m(p + of_nat k \<mapsto> 0)) (p - 1) = None" using Suc.prems(3) by simp
  moreover have "k < 2 ^ 31" using Suc.prems(2) by simp
  ultimately have "trim_loop (p + word_of_int (int k - 1)) (sint cc) (m(p + of_nat k \<mapsto> 0)) = None" by (intro Suc.IH [OF c1])
  moreover have "p + word_of_int (int (Suc k) - 1) = p + of_nat k" "p + of_nat k - 1 = p + word_of_int (int k - 1)" by simp_all
  ultimately show ?case using b z by (subst trim_loop.simps) (simp only: bind.bind_lunit store_Some, simp)
qed

text \<open>C37. \<^verbatim>\<open>tokenize\<close> of a string of separators only, the empty string included, reads the byte before its buffer: it does
  not return when that byte is outside every object.\<close>

theorem tokenize_separators:
  assumes "pool N st" and "cstr (k_mem st) s (replicate k cc)" and "s \<noteq> 0" and "cc \<noteq> 0" and "k < N" and "N < 2 ^ 31"
    and "k_next st = buf # ps" and "k_mem st (buf - 1) = None"
  shows "tokenize s (sint cc) st = None"
proof -
  obtain w where w: "w = replicate k cc" by simp
  have c: "cstr (k_mem st) s w" using assms(2) w by simp
  have k: "length w < N" "length w = k" using assms(5) w by simp_all
  obtain st1 st2 st3 where
    s1: "strlen s (k_mem st) = Some (int (length w))" "kmalloc (word_of_int (int (length w) + 1)) st = (buf, st1)"
      "on_mem (\<lambda>m. map_option snd (memset buf 0 (word_of_int (int (length w) + 1)) m)) st1 = Some st2"
      "on_mem (\<lambda>m. map_option snd (safestrcpy buf s (int (length w) + 1) m)) st2 = Some st3"
    and l3: "live N st [buf \<mapsto> length w + 1] st3" "k_next st3 = ps" "buf \<noteq> 0"
    and c3: "cstr (k_mem st3) buf w" "strlen buf (k_mem st3) = Some (int (length w))"
      "\<forall>a. \<not> unat (a - buf) < length w + 1 \<longrightarrow> k_mem st3 a = k_mem st a"
    by (rule tokenize_buffer [OF assms(1) c k(1) assms(6,7)])
  have "buf - 1 - buf = - 1" by simp
  then have "unat (buf - 1 - buf) = 2 ^ 32 - 1" by (simp only: unsigned_minus_1_eq_mask mask_eq_exp_minus_1) simp
  moreover have "length w + 1 \<le> 2 ^ 32 - 1" using k(2) assms(5,6) by simp
  ultimately have "\<not> unat (buf - 1 - buf) < length w + 1" by linarith
  then have "k_mem st3 (buf - 1) = None" using c3(3) assms(8) by auto
  then have "trim_loop (buf + word_of_int (int k - 1)) (sint cc) (k_mem st3) = None"
    using c3(1) w assms(5,6) by (intro trim_loop_all) simp_all
  then have "on_mem (trim_loop (buf + word_of_int (int (length w) - 1)) (sint cc)) st3 = None" using k(2) by (simp add: on_mem_def)
  then show ?thesis
    unfolding tokenize_def s1(1) bind.bind_lunit Let_def s1(2) case_prod_conv s1(3,4) c3(2)
    using assms(3,4) sint_u8_eq [of cc 0] by simp
qed

theorem tokenize_separators_witness: "tokenize 16 47 (demo [47, 47]) = None"
proof -
  have r: "replicate 2 x = [x, x]" for x :: u8 by (simp add: numeral_2_eq_2)
  have c: "cstr (k_mem (demo [47, 47])) 16 (replicate 2 47)" unfolding r by (simp add: demo_def)
  have "tokenize 16 (sint (47 :: u8)) (demo [47, 47]) = None"
  proof (rule tokenize_separators [OF demo_pool c])
    show "k_next (demo [47, 47]) = 0x100 # [0x200, 0x300, 0x400, 0x500, 0x600]" by (simp add: demo_def)
    have "(0x100 :: u32) - 1 = 0xFF" by simp
    then show "k_mem (demo [47, 47]) (0x100 - 1) = None" by (simp add: demo_def)
  qed simp_all
  then show ?thesis by simp
qed

end
