(* ===== verification/Paging.thy ===== *)
theory Paging
  imports Zone Mmap
begin

text \<open>
  Page tables (\<^verbatim>\<open>kernel/arch/i386/mmu/page.c\<close>, \<^verbatim>\<open>table.c\<close>, \<^verbatim>\<open>kernel/include/arch/i386/32bit.h\<close>) on physical memory. The
  kernel reaches the page directory and the tables through the last directory entry, which points to the
  directory itself; here every such access is translated by the two-level walk of the processor. The frames
  and virtual addresses that \<^verbatim>\<open>pmman\<close> and \<^verbatim>\<open>vmman\<close> hand out are lists of results, 0 for a failure. The processor's write
  protection for the kernel is off (\<^verbatim>\<open>boot.asm\<close> sets no \<^verbatim>\<open>CR0.WP\<close>), so a kernel store needs a present page only; the
  translation cache is not modelled, its invalidations are recorded.
\<close>

declare neq0_conv [iff del] bot_nat_0.not_eq_extremum [simp del]

section \<open>Physical memory and the walk\<close>

datatype tlb_op = Invlpg u32 | Shootdown | Flush

text \<open>Physical memory: the 32-bit words of a frame, by the address of the frame and the index of the word.\<close>

record paging =
  pt_cr3 :: u32
  pt_phys :: "u32 \<Rightarrow> nat \<Rightarrow> u32"
  pt_frames :: "u32 list"
  pt_freed :: "u32 list"
  pt_vas :: "u32 list"
  pt_vfreed :: "u32 list"
  pt_incr :: "u32 list"
  pt_tlb :: "tlb_op list"

abbreviation pgoffset :: "u32 \<Rightarrow> u32" where "pgoffset a \<equiv> a AND 0xFFF"
abbreviation VM_PWT :: u32 where "VM_PWT \<equiv> 8"
abbreviation VM_PCD :: u32 where "VM_PCD \<equiv> 0x10"
abbreviation VM_KRW :: u32 where "VM_KRW \<equiv> 3"
abbreviation VM_UW :: u32 where "VM_UW \<equiv> 6"
abbreviation present :: "u32 \<Rightarrow> bool" where "present e \<equiv> bit e 0"

definition V_PDI :: "u32 \<Rightarrow> nat" where
  "V_PDI v = unat (drop_bit 22 v)"

definition V_PTI :: "u32 \<Rightarrow> nat" where
  "V_PTI v = unat (drop_bit 12 v AND 0x3FF)"

definition VADDR :: "nat \<Rightarrow> nat \<Rightarrow> u32" where
  "VADDR t p = push_bit 22 (of_nat t) OR push_bit 12 (of_nat p)"

text \<open>The entry that maps a page, as the processor finds it.\<close>

definition walk :: "paging \<Rightarrow> u32 \<Rightarrow> u32 option" where
  "walk st v =
    (let e = pt_phys st (pground (pt_cr3 st)) (V_PDI v) in
     if present e then
       let e = pt_phys st (pground e) (V_PTI v) in if present e then Some e else None
     else None)"

definition word_of :: "u32 \<Rightarrow> nat" where
  "word_of a = unat (drop_bit 2 (pgoffset a))"

definition vload :: "u32 \<Rightarrow> paging \<Rightarrow> u32 option" where
  "vload a st = do { e \<leftarrow> walk st a; Some (pt_phys st (pground e) (word_of a)) }"

definition set_word :: "u32 \<Rightarrow> nat \<Rightarrow> u32 \<Rightarrow> paging \<Rightarrow> paging" where
  "set_word f i w st = st\<lparr>pt_phys := (pt_phys st)(f := (pt_phys st f)(i := w))\<rparr>"

definition vstore :: "u32 \<Rightarrow> u32 \<Rightarrow> paging \<Rightarrow> paging option" where
  "vstore a w st = do { e \<leftarrow> walk st a; Some (set_word (pground e) (word_of a) w st) }"

text \<open>\<^verbatim>\<open>PDE\<close> and \<^verbatim>\<open>PTE\<close>: the addresses of the entries in the window of the page tables.\<close>

definition PDE :: "nat \<Rightarrow> u32" where
  "PDE t = 0xFFFFF000 + 4 * of_nat t"

definition PTE :: "nat \<Rightarrow> nat \<Rightarrow> u32" where
  "PTE t p = 0xFFC00000 + 0x1000 * of_nat t + 4 * of_nat p"

definition CHECKBOUNDS :: "nat \<Rightarrow> nat \<Rightarrow> bool" where
  "CHECKBOUNDS t p \<longleftrightarrow> \<not> t > 1023 \<or> p > 1023"

definition tlb :: "tlb_op \<Rightarrow> paging \<Rightarrow> paging" where
  "tlb e st = st\<lparr>pt_tlb := pt_tlb st @ [e]\<rparr>"

definition pm_alloc :: "paging \<Rightarrow> u32 \<times> paging" where
  "pm_alloc st = (fst_or 0 (pt_frames st), st\<lparr>pt_frames := tl (pt_frames st)\<rparr>)"

definition pm_free :: "u32 \<Rightarrow> paging \<Rightarrow> paging" where
  "pm_free a st = st\<lparr>pt_freed := pt_freed st @ [a]\<rparr>"

definition vm_alloc :: "paging \<Rightarrow> u32 \<times> paging" where
  "vm_alloc st = (fst_or 0 (pt_vas st), st\<lparr>pt_vas := tl (pt_vas st)\<rparr>)"

definition vm_free :: "u32 \<Rightarrow> paging \<Rightarrow> paging" where
  "vm_free a st = st\<lparr>pt_vfreed := pt_vfreed st @ [a]\<rparr>"

definition tlb_flush :: "paging \<Rightarrow> paging" where
  "tlb_flush st = tlb Flush (st\<lparr>pt_cr3 := pt_cr3 st\<rparr>)"

definition paging_switch :: "u32 \<Rightarrow> paging \<Rightarrow> u32 \<times> paging" where
  "paging_switch pgdir st =
    (let old = pt_cr3 st in
     if pgdir = 0 then (old, tlb Flush st) else (old, tlb Flush (st\<lparr>pt_cr3 := pground pgdir\<rparr>)))"

definition paging_switchkvm :: "u32 \<Rightarrow> paging \<Rightarrow> paging" where
  "paging_switchkvm kdir st = tlb Flush (st\<lparr>pt_cr3 := kdir\<rparr>)"


section \<open>Tables and pages\<close>

fun clear_table :: "nat \<Rightarrow> nat \<Rightarrow> nat \<Rightarrow> paging \<Rightarrow> paging option" where
  "clear_table t i 0 st = Some st"
| "clear_table t i (Suc n) st = do { st \<leftarrow> vstore (PTE t i) 0 st; clear_table t (Suc i) n st }"

definition maptable :: "nat \<Rightarrow> u32 \<Rightarrow> paging \<Rightarrow> (int \<times> paging) option" where
  "maptable t fl st =
    (let (addr, st) = pm_alloc st in
     if addr = 0 then Some (- ENOMEM, st)
     else do {
       let e = (if fl AND VM_U \<noteq> 0 then pground addr OR pgoffset (fl OR VM_PWT OR VM_UW) else pground addr OR pgoffset (fl OR VM_PWT));
       st \<leftarrow> vstore (PDE t) e st;
       let st = (if t \<ge> 768 then tlb Shootdown st else st);
       let st = tlb (Invlpg (PTE t 0)) st;
       st \<leftarrow> clear_table t 0 1024 st;
       Some (0, tlb (Invlpg (PTE t 0)) st)
     })"

definition unmaptable :: "nat \<Rightarrow> paging \<Rightarrow> (int \<times> paging) option" where
  "unmaptable t st = do {
     kassert (CHECKBOUNDS t 0);
     e \<leftarrow> vload (PDE t) st;
     kassert (present e);
     let st = pm_free (pground e) st;
     st \<leftarrow> vstore (PDE t) 0 st;
     Some (0, tlb (Invlpg (PTE t 0)) st)
   }"

text \<open>The common beginning of \<^verbatim>\<open>_32bit_map\<close> and \<^verbatim>\<open>_32bit_map_err\<close>: the table is created when it is missing.\<close>

definition ensure_table :: "u32 \<Rightarrow> nat \<Rightarrow> nat \<Rightarrow> u32 \<Rightarrow> paging \<Rightarrow> (int \<times> paging) option" where
  "ensure_table frame t p fl st = do {
     kassert (pgoffset frame = 0);
     kassert (CHECKBOUNDS t p);
     e \<leftarrow> vload (PDE t) st;
     if \<not> present e then maptable t fl st else Some (0, st)
   }"

definition map_page :: "u32 \<Rightarrow> nat \<Rightarrow> nat \<Rightarrow> u32 \<Rightarrow> paging \<Rightarrow> (int \<times> paging) option" where
  "map_page frame t p fl st = do {
     (err, st) \<leftarrow> ensure_table frame t p fl st;
     if err \<noteq> 0 then Some (err, st)
     else do {
       e \<leftarrow> vload (PTE t p) st;
       kassert (\<not> present e);
       st \<leftarrow> vstore (PTE t p) (pground frame OR fl) st;
       Some (0, tlb (Invlpg (VADDR t p)) st)
     }
   }"

definition map_page_err :: "u32 \<Rightarrow> nat \<Rightarrow> nat \<Rightarrow> u32 \<Rightarrow> paging \<Rightarrow> (int \<times> paging) option" where
  "map_page_err frame t p fl st = do {
     (err, st) \<leftarrow> ensure_table frame t p fl st;
     if err \<noteq> 0 then Some (err, st)
     else do {
       e \<leftarrow> vload (PTE t p) st;
       if present e then Some (- EEXIST, st)
       else do {
         st \<leftarrow> vstore (PTE t p) (pground frame OR fl) st;
         Some (0, tlb (Invlpg (VADDR t p)) st)
       }
     }
   }"

text \<open>\<^verbatim>\<open>GET_FRAMEADDR\<close> reads the entry again, through the indices of the address.\<close>

definition unmap_page :: "nat \<Rightarrow> nat \<Rightarrow> paging \<Rightarrow> (int \<times> paging) option" where
  "unmap_page t p st = do {
     kassert (CHECKBOUNDS t p);
     d \<leftarrow> vload (PDE t) st;
     kassert (present d);
     e \<leftarrow> vload (PTE t p) st;
     kassert (present e);
     fe \<leftarrow> vload (PTE (V_PDI (VADDR t p)) (V_PTI (VADDR t p))) st;
     let st = pm_free (pground fe) st;
     st \<leftarrow> vstore (PTE t p) 0 st;
     Some (0, tlb (Invlpg (VADDR t p)) st)
   }"

definition unmap_mapped :: "nat \<Rightarrow> nat \<Rightarrow> paging \<Rightarrow> (int \<times> paging) option" where
  "unmap_mapped t p st = do {
     kassert (CHECKBOUNDS t p);
     d \<leftarrow> vload (PDE t) st;
     if \<not> present d then Some (- ENOENT, tlb (Invlpg (VADDR t p)) st)
     else do {
       e \<leftarrow> vload (PTE t p) st;
       if \<not> present e then Some (- ENOENT, tlb (Invlpg (VADDR t p)) st)
       else do {
         fe \<leftarrow> vload (PTE (V_PDI (VADDR t p)) (V_PTI (VADDR t p))) st;
         let st = pm_free (pground fe) st;
         st \<leftarrow> vstore (PTE t p) 0 st;
         Some (0, tlb (Invlpg (VADDR t p)) st)
       }
     }
   }"

definition paging_unmap_table :: "nat \<Rightarrow> paging \<Rightarrow> (int \<times> paging) option" where
  "paging_unmap_table t st = do {
     kassert (CHECKBOUNDS t 0);
     e \<leftarrow> vload (PDE t) st;
     kassert (present e);
     st \<leftarrow> vstore (PDE t) 0 st;
     Some (0, tlb (Invlpg (PTE t 0)) (tlb Shootdown st))
   }"

definition paging_map :: "u32 \<Rightarrow> u32 \<Rightarrow> u32 \<Rightarrow> paging \<Rightarrow> (int \<times> paging) option" where
  "paging_map frame v fl st = do {
     kassert (pgoffset v = 0);
     kassert (pgoffset frame = 0);
     map_page frame (V_PDI v) (V_PTI v) fl st
   }"

definition paging_map_err :: "u32 \<Rightarrow> u32 \<Rightarrow> u32 \<Rightarrow> paging \<Rightarrow> (int \<times> paging) option" where
  "paging_map_err frame v fl st = do {
     kassert (pgoffset v = 0);
     kassert (pgoffset frame = 0);
     map_page_err frame (V_PDI v) (V_PTI v) fl st
   }"

fun unmap_mapped_loop :: "nat \<Rightarrow> u32 \<Rightarrow> paging \<Rightarrow> (int \<times> paging) option" where
  "unmap_mapped_loop 0 p st = Some (0, st)"
| "unmap_mapped_loop (Suc n) p st = do {
     (err, st) \<leftarrow> unmap_mapped (V_PDI p) (V_PTI p) st;
     if err \<noteq> 0 then Some (err, st) else unmap_mapped_loop n (p + 0x1000) st
   }"

definition paging_unmap_mapped :: "u32 \<Rightarrow> u32 \<Rightarrow> paging \<Rightarrow> (int \<times> paging) option" where
  "paging_unmap_mapped p sz st = unmap_mapped_loop (unat (sz div 0x1000 + (if sz mod 0x1000 \<noteq> 0 then 1 else 0))) p st"

definition paging_unmap :: "u32 \<Rightarrow> paging \<Rightarrow> (int \<times> paging) option" where
  "paging_unmap v st = do { kassert (pgoffset v = 0); unmap_page (V_PDI v) (V_PTI v) st }"


section \<open>Ranges\<close>

definition range_pages :: "u32 \<Rightarrow> u32 \<Rightarrow> nat" where
  "range_pages v sz = unat ((pgroundup (v + sz) - pground v) div 0x1000)"

fun identity_loop :: "nat \<Rightarrow> u32 \<Rightarrow> u32 \<Rightarrow> u32 \<Rightarrow> paging \<Rightarrow> (int \<times> paging) option" where
  "identity_loop 0 frame v fl st = Some (0, st)"
| "identity_loop (Suc n) frame v fl st = do {
     (err, st) \<leftarrow> paging_map frame v fl st;
     if err \<noteq> 0 then Some (err, st) else identity_loop n (frame + 0x1000) (v + 0x1000) fl st
   }"

definition paging_identity_map :: "u32 \<Rightarrow> u32 \<Rightarrow> u32 \<Rightarrow> u32 \<Rightarrow> paging \<Rightarrow> (int \<times> paging) option" where
  "paging_identity_map frame v sz fl st = do {
     kassert (pgoffset v = 0);
     kassert (pgoffset frame = 0);
     kassert (pgoffset sz = 0);
     identity_loop (range_pages v sz) frame v fl st
   }"

text \<open>The loop of \<^verbatim>\<open>paging_mappages\<close> and \<^verbatim>\<open>paging_mappages_err\<close>, with the operation that maps one page.\<close>

fun mappages_loop :: "(u32 \<Rightarrow> u32 \<Rightarrow> u32 \<Rightarrow> paging \<Rightarrow> (int \<times> paging) option) \<Rightarrow> nat \<Rightarrow> u32 \<Rightarrow> u32 \<Rightarrow> paging \<Rightarrow> (int \<times> paging) option" where
  "mappages_loop mp 0 v fl st = Some (0, st)"
| "mappages_loop mp (Suc n) v fl st =
    (let (p, st) = pm_alloc st in
     if p = 0 then Some (- ENOMEM, st)
     else do {
       (err, st) \<leftarrow> mp p v fl st;
       if err \<noteq> 0 then Some (err, st) else mappages_loop mp n (v + 0x1000) fl st
     })"

definition paging_mappages :: "u32 \<Rightarrow> u32 \<Rightarrow> u32 \<Rightarrow> paging \<Rightarrow> (int \<times> paging) option" where
  "paging_mappages v sz fl st = do {
     kassert (pgoffset v = 0);
     kassert (pgoffset sz = 0);
     mappages_loop paging_map (range_pages v sz) v fl st
   }"

definition paging_mappages_err :: "u32 \<Rightarrow> u32 \<Rightarrow> u32 \<Rightarrow> paging \<Rightarrow> (int \<times> paging) option" where
  "paging_mappages_err v sz fl st = do {
     kassert (pgoffset v = 0);
     kassert (pgoffset sz = 0);
     mappages_loop paging_map_err (range_pages v sz) v fl st
   }"

fun unmap_loop_pages :: "nat \<Rightarrow> u32 \<Rightarrow> paging \<Rightarrow> (int \<times> paging) option" where
  "unmap_loop_pages 0 v st = Some (0, st)"
| "unmap_loop_pages (Suc n) v st = do {
     (err, st) \<leftarrow> paging_unmap v st;
     if err \<noteq> 0 then Some (err, st) else unmap_loop_pages n (v + 0x1000) st
   }"

definition paging_unmappages :: "u32 \<Rightarrow> u32 \<Rightarrow> paging \<Rightarrow> (int \<times> paging) option" where
  "paging_unmappages v sz st = do {
     kassert (pgoffset v = 0);
     kassert (pgoffset sz = 0);
     unmap_loop_pages (range_pages v sz) v st
   }"

text \<open>The user half of an address space.\<close>

fun proc_unmap_ptes :: "nat \<Rightarrow> nat \<Rightarrow> nat \<Rightarrow> paging \<Rightarrow> paging option" where
  "proc_unmap_ptes pdi pte 0 st = Some st"
| "proc_unmap_ptes pdi pte (Suc n) st = do {
     e \<leftarrow> vload (PTE pdi pte) st;
     st \<leftarrow> (if present e then do { (_, st) \<leftarrow> unmap_page pdi pte st; Some st } else Some st);
     proc_unmap_ptes pdi (Suc pte) n st
   }"

fun proc_unmap_pdes :: "nat \<Rightarrow> nat \<Rightarrow> paging \<Rightarrow> paging option" where
  "proc_unmap_pdes pdi 0 st = Some st"
| "proc_unmap_pdes pdi (Suc n) st = do {
     e \<leftarrow> vload (PDE pdi) st;
     st \<leftarrow> (if present e then do {
             st \<leftarrow> proc_unmap_ptes pdi 0 1024 st;
             (_, st) \<leftarrow> unmaptable pdi st;
             Some st
           } else Some st);
     proc_unmap_pdes (Suc pdi) n st
   }"

definition paging_proc_unmap :: "u32 \<Rightarrow> paging \<Rightarrow> paging option" where
  "paging_proc_unmap pgd st = do {
     let (old, st) = paging_switch pgd st;
     st \<leftarrow> proc_unmap_pdes 0 768 st;
     let (_, st) = paging_switch old st;
     Some st
   }"

text \<open>\<^verbatim>\<open>paging_getmapping\<close>: the entry's address, 0 when there is none.\<close>

definition paging_getmapping :: "u32 \<Rightarrow> paging \<Rightarrow> u32 option" where
  "paging_getmapping v st = do {
     d \<leftarrow> vload (PDE (V_PDI v)) st;
     if \<not> present d then Some 0
     else do {
       e \<leftarrow> vload (PTE (V_PDI v) (V_PTI v)) st;
       if \<not> present e then Some 0 else Some (PTE (V_PDI v) (V_PTI v))
     }
   }"

definition paging_mapvmr :: "vmr \<Rightarrow> paging \<Rightarrow> (int \<times> paging) option" where
  "paging_mapvmr r st =
    (if v_paddr r \<noteq> 0 then paging_identity_map (v_paddr r) (v_start r) (vmr_size r) (v_vflags r) st
     else paging_mappages (v_start r) (vmr_size r) (v_vflags r) st)"


section \<open>Mounts and allocation\<close>

definition paging_alloc :: "u32 \<Rightarrow> paging \<Rightarrow> (u32 \<times> paging) option" where
  "paging_alloc sz st = do {
     kassert (pgoffset sz = 0);
     let (base, st) = vm_alloc st;
     if base = 0 then Some (0, st)
     else do {
       (err, st) \<leftarrow> paging_mappages base sz VM_KRW st;
       Some (if err \<noteq> 0 then 0 else base, st)
     }
   }"

definition paging_free :: "u32 \<Rightarrow> u32 \<Rightarrow> paging \<Rightarrow> paging option" where
  "paging_free v sz st = do {
     kassert (pgoffset v = 0);
     kassert (pgoffset sz = 0);
     (_, st) \<leftarrow> paging_unmappages v sz st;
     Some (vm_free v st)
   }"

text \<open>The address from \<^verbatim>\<open>vmman\<close> is used without a test.\<close>

definition paging_mount :: "u32 \<Rightarrow> paging \<Rightarrow> (u32 \<times> paging) option" where
  "paging_mount p st = do {
     kassert (p \<noteq> 0);
     kassert (pgoffset p = 0);
     let (v, st) = vm_alloc st;
     (err, st) \<leftarrow> paging_map p v (VM_KRW OR VM_PWT OR VM_PCD) st;
     Some (if err \<noteq> 0 then (0, vm_free v st) else (v, st))
   }"

definition paging_unmount :: "u32 \<Rightarrow> paging \<Rightarrow> paging option" where
  "paging_unmount v st = do {
     kassert (pgoffset v = 0);
     d \<leftarrow> vload (PDE (V_PDI v)) st;
     kassert (present d);
     e \<leftarrow> vload (PTE (V_PDI v) (V_PTI v)) st;
     kassert (present e);
     st \<leftarrow> vstore (PTE (V_PDI v) (V_PTI v)) 0 st;
     Some (vm_free v (tlb (Invlpg v) st))
   }"

text \<open>A new directory: the kernel's entries are copied, and the last one points to the directory itself.\<close>

fun zero_words :: "u32 \<Rightarrow> nat \<Rightarrow> nat \<Rightarrow> paging \<Rightarrow> paging option" where
  "zero_words v i 0 st = Some st"
| "zero_words v i (Suc n) st = do { st \<leftarrow> vstore (v + 4 * of_nat i) 0 st; zero_words v (Suc i) n st }"

fun copy_words :: "u32 \<Rightarrow> u32 \<Rightarrow> nat \<Rightarrow> nat \<Rightarrow> paging \<Rightarrow> paging option" where
  "copy_words v src i 0 st = Some st"
| "copy_words v src i (Suc n) st = do {
     w \<leftarrow> vload (src + 4 * of_nat i) st;
     st \<leftarrow> vstore (v + 4 * of_nat i) w st;
     copy_words v src (Suc i) n st
   }"

definition paging_getpgdir :: "paging \<Rightarrow> (u32 \<times> paging) option" where
  "paging_getpgdir st = do {
     let (p, st) = pm_alloc st;
     (v, st) \<leftarrow> paging_mount p st;
     if v = 0 then Some (0, pm_free p st)
     else do {
       (cur, st) \<leftarrow> paging_mount (pground (pt_cr3 st)) st;
       if cur = 0 then do { st \<leftarrow> paging_unmount v st; Some (0, st) }
       else do {
         st \<leftarrow> zero_words v 0 1024 st;
         st \<leftarrow> copy_words v cur 768 255 st;
         st \<leftarrow> vstore (v + 4 * 1023) (p OR VM_KRW OR VM_PCD OR VM_PWT) st;
         st \<leftarrow> paging_unmount cur st;
         st \<leftarrow> paging_unmount v st;
         Some (p, st)
       }
     }
   }"


section \<open>Copies between physical and virtual memory\<close>

definition vload8 :: "u32 \<Rightarrow> paging \<Rightarrow> u8 option" where
  "vload8 a st = do { w \<leftarrow> vload a st; Some (ucast (drop_bit (8 * unat (a AND 3)) w)) }"

definition vstore8 :: "u32 \<Rightarrow> u8 \<Rightarrow> paging \<Rightarrow> paging option" where
  "vstore8 a b st = do {
     w \<leftarrow> vload a st;
     let sh = 8 * unat (a AND 3);
     vstore a ((w AND NOT (push_bit sh 0xFF)) OR push_bit sh (ucast b)) st
   }"

fun vcopy :: "nat \<Rightarrow> u32 \<Rightarrow> u32 \<Rightarrow> paging \<Rightarrow> paging option" where
  "vcopy 0 d s st = Some st"
| "vcopy (Suc n) d s st = do { b \<leftarrow> vload8 s st; st \<leftarrow> vstore8 d b st; vcopy n (d + 1) (s + 1) st }"

partial_function (option) paging_memcpypp :: "u32 \<Rightarrow> u32 \<Rightarrow> u32 \<Rightarrow> paging \<Rightarrow> (int \<times> paging) option" where
  "paging_memcpypp pdst psrc sz st =
    (if sz = 0 then Some (0, st)
     else do {
       (vdst, st) \<leftarrow> paging_mount (pground pdst) st;
       if vdst = 0 then Some (- ENOMEM, st)
       else do {
         (vsrc, st) \<leftarrow> paging_mount (pground psrc) st;
         if vsrc = 0 then do { st \<leftarrow> paging_unmount vdst st; Some (- ENOMEM, st) }
         else do {
           let len = min (min (0x1000 - max (pgoffset psrc) (pgoffset pdst)) 0x1000) sz;
           st \<leftarrow> vcopy (unat len) (vdst + pgoffset pdst) (vsrc + pgoffset psrc) st;
           st \<leftarrow> paging_unmount vsrc st;
           st \<leftarrow> paging_unmount vdst st;
           paging_memcpypp (pdst + len) (psrc + len) (sz - len) st
         }
       }
     })"

partial_function (option) paging_memcpyvp :: "u32 \<Rightarrow> u32 \<Rightarrow> u32 \<Rightarrow> paging \<Rightarrow> (int \<times> paging) option" where
  "paging_memcpyvp p v sz st =
    (if sz = 0 then Some (0, st)
     else do {
       (vdst, st) \<leftarrow> paging_mount (pground p) st;
       if vdst = 0 then Some (- ENOMEM, st)
       else do {
         let len = min (0x1000 - pgoffset p) sz;
         st \<leftarrow> vcopy (unat len) (vdst + pgoffset p) v st;
         st \<leftarrow> paging_unmount vdst st;
         paging_memcpyvp (p + len) (v + len) (sz - len) st
       }
     })"

partial_function (option) paging_memcpypv :: "u32 \<Rightarrow> u32 \<Rightarrow> u32 \<Rightarrow> paging \<Rightarrow> (int \<times> paging) option" where
  "paging_memcpypv v p sz st =
    (if sz = 0 then Some (0, st)
     else do {
       (vsrc, st) \<leftarrow> paging_mount (pground p) st;
       if vsrc = 0 then Some (- ENOMEM, st)
       else do {
         let len = min (0x1000 - pgoffset p) sz;
         st \<leftarrow> vcopy (unat len) v (vsrc + pgoffset p) st;
         st \<leftarrow> paging_unmount vsrc st;
         paging_memcpypv (v + len) (p + len) (sz - len) st
       }
     })"


section \<open>Initialisation and copy on write\<close>

fun init_tables :: "nat \<Rightarrow> nat \<Rightarrow> paging \<Rightarrow> paging option" where
  "init_tables pdi 0 st = Some st"
| "init_tables pdi (Suc n) st = do {
     e \<leftarrow> vload (PDE pdi) st;
     st \<leftarrow> (if \<not> present e then do { (_, st) \<leftarrow> maptable pdi (VM_KRW OR VM_PCD OR VM_PWT) st; Some st } else Some st);
     init_tables (Suc pdi) n st
   }"

definition paging_init :: "paging \<Rightarrow> (int \<times> paging) option" where
  "paging_init st = do { st \<leftarrow> init_tables 772 (V_PDI 0xFE000000 - 772) st; Some (0, st) }"

text \<open>
  \<^verbatim>\<open>paging_lazycopy\<close>: in the directory \<open>dst\<close> every page of the user half of \<open>src\<close> is entered without the write bit, which is
  removed from the source too, and the frame's references are counted up. The error exits keep the
  directory \<open>dst\<close> and the mounts.
\<close>

fun lazy_ptes :: "nat \<Rightarrow> u32 \<Rightarrow> nat \<Rightarrow> nat \<Rightarrow> paging \<Rightarrow> paging option" where
  "lazy_ptes i srcpt j 0 st = Some st"
| "lazy_ptes i srcpt j (Suc n) st = do {
     e \<leftarrow> vload (srcpt + 4 * of_nat j) st;
     st \<leftarrow> (if \<not> present e then Some st
           else do {
             st \<leftarrow> vstore (PTE i j) (e AND NOT VM_W) st;
             e \<leftarrow> vload (srcpt + 4 * of_nat j) st;
             st \<leftarrow> (if bit e 1 then vstore (srcpt + 4 * of_nat j) (e AND NOT VM_W) st else Some st);
             let st = tlb Shootdown st;
             e \<leftarrow> vload (srcpt + 4 * of_nat j) st;
             Some (st\<lparr>pt_incr := pt_incr st @ [pground e]\<rparr>)
           });
     lazy_ptes i srcpt (Suc j) n st
   }"

fun lazy_pdes :: "u32 \<Rightarrow> nat \<Rightarrow> nat \<Rightarrow> paging \<Rightarrow> (int \<times> paging) option" where
  "lazy_pdes srcpd i 0 st = Some (0, st)"
| "lazy_pdes srcpd i (Suc n) st = do {
     e \<leftarrow> vload (srcpd + 4 * of_nat i) st;
     if \<not> present e then lazy_pdes srcpd (Suc i) n st
     else do {
       (err, st) \<leftarrow> maptable i (pgoffset e) st;
       if err \<noteq> 0 then Some (err, st)
       else do {
         e \<leftarrow> vload (srcpd + 4 * of_nat i) st;
         (srcpt, st) \<leftarrow> paging_mount (pground e) st;
         if srcpt = 0 then Some (- ENOMEM, st)
         else do {
           st \<leftarrow> lazy_ptes i srcpt 0 1024 st;
           st \<leftarrow> paging_unmount srcpt st;
           lazy_pdes srcpd (Suc i) n st
         }
       }
     }
   }"

definition paging_lazycopy :: "u32 \<Rightarrow> u32 \<Rightarrow> paging \<Rightarrow> (int \<times> paging) option" where
  "paging_lazycopy dst src st = do {
     (srcpd, st) \<leftarrow> paging_mount src st;
     if srcpd = 0 then Some (- ENOMEM, st)
     else do {
       let (old, st) = paging_switch dst st;
       (err, st) \<leftarrow> lazy_pdes srcpd 0 768 st;
       if err \<noteq> 0 then Some (err, st)
       else do {
         let (_, st) = paging_switch old st;
         st \<leftarrow> paging_unmount srcpd st;
         Some (0, st)
       }
     }
   }"

end
