(* ===== verification/Paging_Props.thy ===== *)
theory Paging_Props
  imports Paging
begin

text \<open>
  What the page-table operations do to the translation of addresses: the window of the last directory
  entry reaches exactly the entries it is meant to reach, \<^verbatim>\<open>paging_map\<close> adds one translation and
  \<^verbatim>\<open>paging_unmap\<close> takes one away, and the tables stay disjoint.
\<close>

declare neq0_conv [iff del] bot_nat_0.not_eq_extremum [simp del]

section \<open>The window of the page tables\<close>

lemma unat_drop_u32: "unat (drop_bit n (v :: u32)) = unat v div 2 ^ n"
proof -
  have "unat (drop_bit n v) = drop_bit n (unat v)"
    by (simp only: unsigned_drop_bit_eq take_bit_nat_eq_self [OF unsigned_less])
  then show ?thesis
    by (simp only: drop_bit_eq_div)
qed

lemma unat_mask_u32: "n < 32 \<Longrightarrow> unat ((v :: u32) AND mask n) = unat v mod 2 ^ n"
proof -
  assume "n < 32"
  then have "unat (take_bit n v) = take_bit n (unat v)"
    by (simp add: unsigned_take_bit_eq)
  then show ?thesis
    by (simp only: take_bit_eq_mask [of n v]) (simp only: take_bit_eq_mod)
qed

lemma V_PDI_nat: "V_PDI v = unat v div 2 ^ 22"
  by (simp only: V_PDI_def unat_drop_u32)

lemma V_PTI_nat: "V_PTI v = unat v div 2 ^ 12 mod 2 ^ 10"
proof -
  have "(0x3FF :: u32) = mask 10"
    by (simp add: mask_eq_exp_minus_1)
  then show ?thesis
    by (simp only: V_PTI_def unat_mask_u32 unat_drop_u32)
qed

lemma word_of_nat: "word_of v = unat v mod 2 ^ 12 div 2 ^ 2"
proof -
  have "(0xFFF :: u32) = mask 12"
    by (simp add: mask_eq_exp_minus_1)
  then show ?thesis
    by (simp only: word_of_def unat_mask_u32 unat_drop_u32)
qed

lemma V_PDI_less: "V_PDI v < 1024"
proof -
  have "unat v < 2 ^ 32"
    using unsigned_less [of v, where ?'a = nat] by simp
  then show ?thesis
    by (simp add: V_PDI_nat)
qed

lemma V_PTI_less: "V_PTI v < 1024"
  by (simp add: V_PTI_nat)

lemma unat_PTE: "t < 1024 \<Longrightarrow> p < 1024 \<Longrightarrow> unat (PTE t p) = 0xFFC00000 + 0x1000 * t + 4 * p"
proof -
  assume t: "t < 1024" and p: "p < 1024"
  have "PTE t p = of_nat (0xFFC00000 + 0x1000 * t + 4 * p)"
    by (simp add: PTE_def)
  moreover have "0xFFC00000 + 0x1000 * t + 4 * p < 2 ^ 32"
    using t p by simp
  ultimately show ?thesis
    by (simp only: unat_of_nat len_num1 len_bit0 len_bit1) (simp add: take_bit_nat_eq_self_iff)
qed

lemma PDE_PTE: "PDE t = PTE 1023 t"
  by (simp add: PDE_def PTE_def)

lemma div_mod_split: "x = r + b * q \<Longrightarrow> r < b \<Longrightarrow> x div b = (q :: nat) \<and> x mod b = r"
  by simp

lemma PTE_indices:
  assumes t: "t < 1024" and p: "p < 1024"
  shows "V_PDI (PTE t p) = 1023" "V_PTI (PTE t p) = t" "word_of (PTE t p) = p"
proof -
  have u: "unat (PTE t p) = 4 * p + 2 ^ 12 * (0xFFC00 + t)" "unat (PTE t p) = (0x1000 * t + 4 * p) + 2 ^ 22 * 1023"
    using unat_PTE [OF t p] by simp_all
  have s: "4 * p < 2 ^ 12" "0x1000 * t + 4 * p < 2 ^ 22"
    using t p by simp_all
  show "V_PDI (PTE t p) = 1023"
    using div_mod_split [OF u(2) s(2)] by (simp only: V_PDI_nat)
  have "0xFFC00 + t = t + 2 ^ 10 * 1023"
    by simp
  then show "V_PTI (PTE t p) = t"
    using div_mod_split [OF u(1) s(1)] div_mod_split [of "0xFFC00 + t" t "2 ^ 10" 1023] t by (simp only: V_PTI_nat)
  show "word_of (PTE t p) = p"
    using div_mod_split [OF u(1) s(1)] by (simp only: word_of_nat) simp
qed

text \<open>The directory, and the table of an entry.\<close>

abbreviation pgdir :: "paging \<Rightarrow> u32" where "pgdir st \<equiv> pground (pt_cr3 st)"
abbreviation pde :: "paging \<Rightarrow> nat \<Rightarrow> u32" where "pde st t \<equiv> pt_phys st (pgdir st) t"

definition tables_ok :: "paging \<Rightarrow> bool" where
  "tables_ok st \<longleftrightarrow> present (pde st 1023) \<and> pground (pde st 1023) = pgdir st
    \<and> (\<forall>t < 1023. present (pde st t) \<longrightarrow> pground (pde st t) \<noteq> pgdir st)
    \<and> (\<forall>t < 1023. \<forall>u < 1023. present (pde st t) \<longrightarrow> present (pde st u) \<longrightarrow> t \<noteq> u \<longrightarrow> pground (pde st t) \<noteq> pground (pde st u))"

definition fresh :: "paging \<Rightarrow> u32 \<Rightarrow> bool" where
  "fresh st f \<longleftrightarrow> f \<noteq> 0 \<and> pgoffset f = 0 \<and> f \<noteq> pgdir st \<and> (\<forall>t < 1023. present (pde st t) \<longrightarrow> pground (pde st t) \<noteq> f)"

lemma tables_okD:
  assumes "tables_ok st"
  shows "present (pde st 1023)" "pground (pde st 1023) = pgdir st"
    "t < 1023 \<Longrightarrow> present (pde st t) \<Longrightarrow> pground (pde st t) \<noteq> pgdir st"
    "t < 1023 \<Longrightarrow> u < 1023 \<Longrightarrow> present (pde st t) \<Longrightarrow> present (pde st u) \<Longrightarrow> t \<noteq> u \<Longrightarrow> pground (pde st t) \<noteq> pground (pde st u)"
  using assms by (auto simp: tables_ok_def)

text \<open>Only the directory's own entry is needed to reach the entries of the tables.\<close>

definition self_mapped :: "paging \<Rightarrow> bool" where
  "self_mapped st \<longleftrightarrow> present (pde st 1023) \<and> pground (pde st 1023) = pgdir st"

lemma tables_self [simp]: "tables_ok st \<Longrightarrow> self_mapped st"
  by (simp add: tables_ok_def self_mapped_def)

lemma window_walk:
  assumes "self_mapped st" "t < 1024" "p < 1024"
  shows "walk st (PTE t p) = (if present (pde st t) then Some (pde st t) else None)"
  using assms by (simp add: walk_def PTE_indices self_mapped_def Let_def)

lemma vload_PTE:
  assumes "self_mapped st" "t < 1024" "p < 1024" "present (pde st t)"
  shows "vload (PTE t p) st = Some (pt_phys st (pground (pde st t)) p)"
  using assms by (simp add: vload_def window_walk PTE_indices)

lemma vload_PDE:
  assumes "self_mapped st" "t < 1024"
  shows "vload (PDE t) st = Some (pde st t)"
  using assms vload_PTE [of st 1023 t] by (simp add: PDE_PTE self_mapped_def)

lemma vstore_PTE:
  assumes "self_mapped st" "t < 1024" "p < 1024" "present (pde st t)"
  shows "vstore (PTE t p) w st = Some (set_word (pground (pde st t)) p w st)"
  using assms by (simp add: vstore_def window_walk PTE_indices)

lemma vstore_PDE:
  assumes "self_mapped st" "t < 1024"
  shows "vstore (PDE t) w st = Some (set_word (pgdir st) t w st)"
  using assms vstore_PTE [of st 1023 t w] by (simp add: PDE_PTE self_mapped_def)

lemmas window = vload_PTE vload_PDE vstore_PTE vstore_PDE


lemma set_word_simps [simp]:
  "pt_phys (set_word f i w st) = (pt_phys st)(f := (pt_phys st f)(i := w))"
  "pt_cr3 (set_word f i w st) = pt_cr3 st" "pt_frames (set_word f i w st) = pt_frames st"
  "pt_freed (set_word f i w st) = pt_freed st" "pt_vas (set_word f i w st) = pt_vas st"
  "pt_vfreed (set_word f i w st) = pt_vfreed st" "pt_incr (set_word f i w st) = pt_incr st"
  by (simp_all add: set_word_def)

lemma tlb_simps [simp]:
  "pt_phys (tlb e st) = pt_phys st" "pt_cr3 (tlb e st) = pt_cr3 st" "pt_frames (tlb e st) = pt_frames st"
  "pt_freed (tlb e st) = pt_freed st" "pt_vas (tlb e st) = pt_vas st" "pt_vfreed (tlb e st) = pt_vfreed st"
  "pt_incr (tlb e st) = pt_incr st"
  by (simp_all add: tlb_def)

lemma pm_free_simps [simp]:
  "pt_phys (pm_free a st) = pt_phys st" "pt_cr3 (pm_free a st) = pt_cr3 st" "pt_frames (pm_free a st) = pt_frames st"
  "pt_freed (pm_free a st) = pt_freed st @ [a]" "pt_vas (pm_free a st) = pt_vas st"
  "pt_vfreed (pm_free a st) = pt_vfreed st" "pt_incr (pm_free a st) = pt_incr st"
  by (simp_all add: pm_free_def)

lemma self_mapped_cong: "pt_phys st = pt_phys st' \<Longrightarrow> pt_cr3 st = pt_cr3 st' \<Longrightarrow> self_mapped st = self_mapped st'"
  by (simp add: self_mapped_def)

lemma walk_cong: "pt_phys st = pt_phys st' \<Longrightarrow> pt_cr3 st = pt_cr3 st' \<Longrightarrow> walk st = walk st'"
  by (rule ext) (simp add: walk_def Let_def)

lemma tables_ok_cong: "pt_phys st = pt_phys st' \<Longrightarrow> pt_cr3 st = pt_cr3 st' \<Longrightarrow> tables_ok st = tables_ok st'"
  by (simp add: tables_ok_def)


section \<open>A new table\<close>

lemma clear_table_eq:
  assumes "self_mapped st" "t < 1023" "present (pde st t)" "pground (pde st t) \<noteq> pgdir st" "i + n \<le> 1024"
  shows "clear_table t i n st = Some (st\<lparr>pt_phys := (pt_phys st)
    (pground (pde st t) := (\<lambda>j. if i \<le> j \<and> j < i + n then 0 else pt_phys st (pground (pde st t)) j))\<rparr>)"
  using assms
proof (induction n arbitrary: i st)
  case 0
  have "(\<lambda>j. if i \<le> j \<and> j < i + 0 then 0 else pt_phys st (pground (pde st t)) j) = pt_phys st (pground (pde st t))"
    by (rule ext) auto
  then show ?case by simp
next
  case (Suc n)
  let ?g = "pground (pde st t)" and ?st = "set_word (pground (pde st t)) i 0 st"
  have st: "vstore (PTE t i) 0 st = Some ?st"
    using Suc.prems by (intro vstore_PTE) simp_all
  have "self_mapped ?st" "present (pde ?st t)" "pground (pde ?st t) \<noteq> pgdir ?st"
    using Suc.prems by (simp_all add: self_mapped_def)
  then have c: "clear_table t (Suc i) n ?st = Some (?st\<lparr>pt_phys := (pt_phys ?st)
    (pground (pde ?st t) := (\<lambda>j. if Suc i \<le> j \<and> j < Suc i + n then 0 else pt_phys ?st (pground (pde ?st t)) j))\<rparr>)"
    using Suc.prems by (intro Suc.IH) simp_all
  have g: "pground (pde ?st t) = ?g"
    using Suc.prems(4) by simp
  have e: "?st\<lparr>pt_phys := (pt_phys ?st)(?g := (\<lambda>j. if Suc i \<le> j \<and> j < Suc i + n then 0 else pt_phys ?st ?g j))\<rparr>
    = st\<lparr>pt_phys := (pt_phys st)(?g := (\<lambda>j. if i \<le> j \<and> j < i + Suc n then 0 else pt_phys st ?g j))\<rparr>"
    unfolding set_word_def by (rule paging.equality) (auto intro!: ext)
  show ?case
    using c unfolding g e by (simp only: clear_table.simps st Option.bind.simps)
qed


lemma mask12: "(0xFFF :: u32) = mask 12"
  by (simp add: mask_eq_exp_minus_1)

lemma bit_pgoffset_zero: "(f :: u32) AND mask 12 = 0 \<Longrightarrow> bit f n \<Longrightarrow> n < 12 \<Longrightarrow> False"
proof -
  assume z: "f AND mask 12 = 0" and n: "bit f n" "n < 12"
  from n have "bit (f AND mask 12) n"
    by (simp add: bit_and_iff bit_mask_iff)
  with z show False by simp
qed

lemma pground_entry: "pgoffset f = 0 \<Longrightarrow> pground (pground f OR pgoffset x) = f"
  by (rule bit_word_eqI) (auto simp: mask12 bit_simps dest: bit_pgoffset_zero)

lemma present_entry: "pgoffset f = 0 \<Longrightarrow> present (pground f OR pgoffset x) = present x"
  by (auto simp: mask12 bit_simps)

definition untouched :: "paging \<Rightarrow> paging \<Rightarrow> bool" where
  "untouched st st' \<longleftrightarrow> pt_cr3 st' = pt_cr3 st \<and> pt_vas st' = pt_vas st \<and> pt_vfreed st' = pt_vfreed st \<and> pt_incr st' = pt_incr st"

lemma maptable_none:
  assumes "fst_or 0 (pt_frames st) = 0"
  shows "maptable t fl st = Some (- ENOMEM, st\<lparr>pt_frames := tl (pt_frames st)\<rparr>)"
  using assms by (simp add: maptable_def pm_alloc_def)

lemma maptable_new:
  assumes ok: "tables_ok st" and t: "t < 1023" and fl: "present fl"
    and f: "pt_frames st = f # fs" "fresh st f"
  obtains st' e where "maptable t fl st = Some (0, st')" "present e" "pground e = f"
    "untouched st st'" "pt_freed st' = pt_freed st" "pt_frames st' = fs"
    "pt_phys st' = (pt_phys st)(pgdir st := (pt_phys st (pgdir st))(t := e), f := (\<lambda>j. if j < 1024 then 0 else pt_phys st f j))"
proof -
  define e where "e = (if fl AND VM_U \<noteq> 0 then pground f OR pgoffset (fl OR VM_PWT OR VM_UW) else pground f OR pgoffset (fl OR VM_PWT))"
  have f0: "f \<noteq> 0" "pgoffset f = 0" "f \<noteq> pgdir st"
    using f(2) by (auto simp: fresh_def)
  have e: "present e" "pground e = f"
    using fl f0(2) by (simp_all only: e_def pground_entry present_entry split: if_split) (auto simp: bit_simps)
  define st1 where "st1 = st\<lparr>pt_frames := fs\<rparr>"
  define st2 where "st2 = set_word (pgdir st) t e st1"
  define st3 where "st3 = tlb (Invlpg (PTE t 0)) (if t \<ge> 768 then tlb Shootdown st2 else st2)"
  have v: "vstore (PDE t) e st1 = Some st2"
  proof -
    have "self_mapped st1"
      using ok by (simp add: st1_def self_mapped_def tables_ok_def)
    from vstore_PDE [OF this, of t e] t show ?thesis
      by (simp add: st2_def) (simp add: st1_def)
  qed
  have s2: "pt_phys st2 = (pt_phys st)(pgdir st := (pt_phys st (pgdir st))(t := e))" "pt_cr3 st2 = pt_cr3 st"
    by (simp_all add: st2_def st1_def)
  have s3: "pt_phys st3 = pt_phys st2" "pt_cr3 st3 = pt_cr3 st"
    by (simp_all add: st3_def s2)
  have p3: "pde st3 t = e" "self_mapped st3"
    using t tables_okD(1,2) [OF ok] by (simp_all add: s3 s2 self_mapped_def)
  have c: "clear_table t 0 1024 st3 = Some (st3\<lparr>pt_phys := (pt_phys st3)(f := (\<lambda>j. if 0 \<le> j \<and> j < 0 + 1024 then 0 else pt_phys st3 f j))\<rparr>)"
    using clear_table_eq [of st3 t 0 1024] p3 e t f0(3) by (simp only: s3 e) simp
  show thesis
  proof (rule that [OF _ e])
    show "maptable t fl st = Some (0, tlb (Invlpg (PTE t 0)) (st3\<lparr>pt_phys := (pt_phys st3)(f := (\<lambda>j. if 0 \<le> j \<and> j < 0 + 1024 then 0 else pt_phys st3 f j))\<rparr>))"
      using f(1) f0(1) v c unfolding maptable_def pm_alloc_def
      by (simp add: e_def [symmetric] st1_def [symmetric] st3_def [symmetric] Let_def del: clear_table.simps)
  qed (simp_all add: s3 s2 f0(3) [simplified] untouched_def cong: if_cong, simp_all add: st3_def st2_def st1_def)
qed


lemma new_table:
  assumes ok: "tables_ok st" and t: "t < 1023" "\<not> present (pde st t)" and f: "fresh st f" and e: "present e" "pground e = f"
    and cr3: "pt_cr3 st' = pt_cr3 st"
    and phys: "pt_phys st' = (pt_phys st)(pgdir st := (pt_phys st (pgdir st))(t := e), f := (\<lambda>j. if j < 1024 then 0 else pt_phys st f j))"
  shows "tables_ok st'" "V_PDI v < 1023 \<Longrightarrow> walk st' v = walk st v" "pde st' t = e"
    "p < 1024 \<Longrightarrow> pt_phys st' f p = 0"
proof -
  obtain D where D: "D = pgdir st" by simp
  have f0: "f \<noteq> D" "\<And>u. u < 1023 \<Longrightarrow> present (pt_phys st D u) \<Longrightarrow> pground (pt_phys st D u) \<noteq> f"
    using f by (auto simp: fresh_def D)
  have dir: "pt_phys st' D u = (if u = t then e else pt_phys st D u)" for u
    unfolding phys D [symmetric] using f0(1) by simp
  have ok': "present (pt_phys st D 1023)" "pground (pt_phys st D 1023) = D"
    "\<And>u. u < 1023 \<Longrightarrow> present (pt_phys st D u) \<Longrightarrow> pground (pt_phys st D u) \<noteq> D"
    "\<And>u w. u < 1023 \<Longrightarrow> w < 1023 \<Longrightarrow> present (pt_phys st D u) \<Longrightarrow> present (pt_phys st D w) \<Longrightarrow> u \<noteq> w
      \<Longrightarrow> pground (pt_phys st D u) \<noteq> pground (pt_phys st D w)"
    using ok unfolding tables_ok_def D by blast+
  show "tables_ok st'"
    unfolding tables_ok_def cr3 D [symmetric] dir
    using ok' f0 [folded e(2)] f0(2) [folded e(2), symmetric] e(1) t(1) by (auto split: if_splits)
  show "pde st' t = e"
    unfolding cr3 D [symmetric] dir by simp
  show "p < 1024 \<Longrightarrow> pt_phys st' f p = 0"
    by (simp add: phys)
  assume v: "V_PDI v < 1023"
  have other: "pt_phys st' g = pt_phys st g" if "g \<noteq> D" "g \<noteq> f" for g
    unfolding phys D [symmetric] using that by simp
  show "walk st' v = walk st v"
  proof (cases "V_PDI v = t")
    case True
    have "pt_phys st' f (V_PTI v) = 0"
      by (simp add: phys V_PTI_less)
    with True t(2) e show ?thesis
      unfolding walk_def cr3 D [symmetric] dir Let_def by (simp add: D)
  next
    case False
    with v f0(2) ok'(3) other show ?thesis
      unfolding walk_def cr3 D [symmetric] dir Let_def by simp
  qed
qed

lemma set_entry:
  assumes ok: "tables_ok st" and t: "t < 1023" "present (pde st t)"
    and cr3: "pt_cr3 st' = pt_cr3 st" and phys: "pt_phys st' = pt_phys (set_word (pground (pde st t)) p w st)"
  shows "tables_ok st'" "V_PDI v < 1023 \<Longrightarrow> walk st' v = (if V_PDI v = t \<and> V_PTI v = p then (if present w then Some w else None) else walk st v)"
    "pde st' = pde st"
proof -
  obtain D where D: "D = pgdir st" by simp
  define g where "g = pground (pt_phys st D t)"
  have ok': "present (pt_phys st D 1023)" "pground (pt_phys st D 1023) = D"
    "\<And>u. u < 1023 \<Longrightarrow> present (pt_phys st D u) \<Longrightarrow> pground (pt_phys st D u) \<noteq> D"
    "\<And>u w. u < 1023 \<Longrightarrow> w < 1023 \<Longrightarrow> present (pt_phys st D u) \<Longrightarrow> present (pt_phys st D w) \<Longrightarrow> u \<noteq> w
      \<Longrightarrow> pground (pt_phys st D u) \<noteq> pground (pt_phys st D w)"
    using ok unfolding tables_ok_def D by blast+
  have gD: "g \<noteq> D" and pt: "present (pt_phys st D t)"
    using t ok'(3) by (auto simp: g_def D)
  have ph: "pt_phys st' = (pt_phys st)(g := (pt_phys st g)(p := w))"
    unfolding phys D [symmetric] g_def [symmetric] by simp
  have dir: "pt_phys st' D = pt_phys st D"
    using gD by (simp add: ph)
  show "pde st' = pde st"
    unfolding cr3 D [symmetric] dir ..
  show "tables_ok st'"
    using ok unfolding tables_ok_def cr3 D [symmetric] dir .
  assume v: "V_PDI v < 1023"
  show "walk st' v = (if V_PDI v = t \<and> V_PTI v = p then (if present w then Some w else None) else walk st v)"
  proof (cases "V_PDI v = t")
    case True
    show ?thesis
      unfolding walk_def cr3 D [symmetric] dir Let_def True g_def [symmetric] using pt by (simp add: ph)
  next
    case False
    have "pground (pt_phys st D (V_PDI v)) \<noteq> g" if "present (pt_phys st D (V_PDI v))"
      unfolding g_def using ok'(4) [OF v t(1) that pt False] .
    with False show ?thesis
      unfolding walk_def cr3 D [symmetric] dir Let_def by (simp add: ph)
  qed
qed


section \<open>One page\<close>

definition pageno :: "u32 \<Rightarrow> nat" where
  "pageno v = unat v div 2 ^ 12"

lemma pageno_indices: "V_PDI v = pageno v div 1024" "V_PTI v = pageno v mod 1024"
  by (simp_all add: V_PDI_nat V_PTI_nat pageno_def div_mult2_eq [symmetric])

lemma pageno_eq: "V_PDI w = V_PDI v \<and> V_PTI w = V_PTI v \<longleftrightarrow> pageno w = pageno v"
  unfolding pageno_indices by (metis div_mult_mod_eq)

text \<open>The addresses outside the window of the tables.\<close>

abbreviation below_window :: "u32 \<Rightarrow> bool" where "below_window v \<equiv> V_PDI v < 1023"

definition frames_ok :: "paging \<Rightarrow> bool" where
  "frames_ok st \<longleftrightarrow> distinct (pt_frames st) \<and> (\<forall>f \<in> set (pt_frames st). fresh st f)"

definition vm_ok :: "paging \<Rightarrow> bool" where
  "vm_ok st \<longleftrightarrow> tables_ok st \<and> frames_ok st"

lemma ensure_table_spec:
  assumes ok: "vm_ok st" and t: "t < 1023" and fl: "present fl" and fr: "pgoffset frame = 0"
    and f: "pt_frames st \<noteq> []"
  obtains st' where "ensure_table frame t p fl st = Some (0, st')" "vm_ok st'" "untouched st st'" "pt_freed st' = pt_freed st"
    "present (pde st' t)" "\<forall>v. below_window v \<longrightarrow> walk st' v = walk st v"
    "pt_frames st' = pt_frames st \<or> pt_frames st' = tl (pt_frames st)"
    "\<forall>g. g \<notin> set (pt_frames st) \<longrightarrow> fresh st g \<longrightarrow> fresh st' g"
proof (cases "present (pde st t)")
  case True
  have "ensure_table frame t p fl st = Some (0, st)"
    using ok t fr True by (simp add: ensure_table_def CHECKBOUNDS_def vload_PDE vm_ok_def)
  then show thesis
    using ok True by (intro that [of st]) (simp_all add: untouched_def)
next
  case False
  obtain f fs where fs: "pt_frames st = f # fs"
    using f by (cases "pt_frames st") auto
  have tok: "tables_ok st" and fr1: "fresh st f" "f \<notin> set fs" "distinct fs" "\<And>g. g \<in> set fs \<Longrightarrow> fresh st g"
    using ok fs by (auto simp: vm_ok_def frames_ok_def)
  obtain st' e where m: "maptable t fl st = Some (0, st')" "present e" "pground e = f"
    "untouched st st'" "pt_freed st' = pt_freed st" "pt_frames st' = fs"
    "pt_phys st' = (pt_phys st)(pgdir st := (pt_phys st (pgdir st))(t := e), f := (\<lambda>j. if j < 1024 then 0 else pt_phys st f j))"
    by (rule maptable_new [OF tok t fl fs fr1(1)])
  have cr3: "pt_cr3 st' = pt_cr3 st"
    using m(4) by (simp add: untouched_def)
  note nt = new_table [OF tok t False fr1(1) m(2,3) cr3 m(7)]
  have dir: "pde st' u = (if u = t then e else pde st u)" for u
    using fr1(1) by (auto simp: m(7) cr3 fresh_def)
  have fr2: "fresh st' g" if "g \<noteq> f" "fresh st g" for g
    using that m(3) unfolding fresh_def dir by (auto simp: cr3 split: if_splits)
  then have "\<forall>g. g \<notin> set (pt_frames st) \<longrightarrow> fresh st g \<longrightarrow> fresh st' g"
    by (simp add: fs)
  moreover have "vm_ok st'"
  proof -
    have "fresh st' g" if "g \<in> set fs" for g
      using that fr1(2) by (intro fr2 fr1(4)) auto
    then show ?thesis
      unfolding vm_ok_def frames_ok_def m(6) using nt(1) fr1(3) by blast
  qed
  moreover have "ensure_table frame t p fl st = Some (0, st')"
    using tok t fr False m(1) by (simp add: ensure_table_def CHECKBOUNDS_def vload_PDE)
  moreover have "present (pde st' t)"
    unfolding nt(3) by (rule m(2))
  ultimately show thesis
    using m(4-6) nt(2) fs by (intro that [of st']) simp_all
qed


lemma fresh_cong:
  assumes "pde st' = pde st" "pt_cr3 st' = pt_cr3 st"
  shows "fresh st' f = fresh st f"
  unfolding fresh_def assms(1) unfolding assms(2) ..

lemma frames_ok_cong:
  assumes "pde st' = pde st" "pt_cr3 st' = pt_cr3 st" "pt_frames st' = pt_frames st"
  shows "frames_ok st' = frames_ok st"
  unfolding frames_ok_def fresh_cong [OF assms(1,2)] assms(3) ..

lemma walk_entry:
  assumes "present (pde st (V_PDI v))"
  shows "walk st v = (let e = pt_phys st (pground (pde st (V_PDI v))) (V_PTI v) in if present e then Some e else None)"
  using assms by (simp add: walk_def Let_def)

lemma paging_map_spec:
  assumes ok: "vm_ok st" and v: "below_window v" "pgoffset v = 0" "walk st v = None"
    and fr: "pgoffset frame = 0" and fl: "present fl" and f: "pt_frames st \<noteq> []"
  obtains st' where "paging_map frame v fl st = Some (0, st')" "vm_ok st'" "untouched st st'" "pt_freed st' = pt_freed st"
    "pt_frames st' = pt_frames st \<or> pt_frames st' = tl (pt_frames st)"
    "\<forall>w. below_window w \<longrightarrow> walk st' w = (if pageno w = pageno v then Some (frame OR fl) else walk st w)"
    "\<forall>g. g \<notin> set (pt_frames st) \<longrightarrow> fresh st g \<longrightarrow> fresh st' g"
proof -
  let ?t = "V_PDI v" and ?p = "V_PTI v"
  obtain s where s: "ensure_table frame ?t ?p fl st = Some (0, s)" "vm_ok s" "untouched st s" "pt_freed s = pt_freed st"
    "present (pde s ?t)" "\<forall>v. below_window v \<longrightarrow> walk s v = walk st v"
    "pt_frames s = pt_frames st \<or> pt_frames s = tl (pt_frames st)"
    "\<forall>g. g \<notin> set (pt_frames st) \<longrightarrow> fresh st g \<longrightarrow> fresh s g"
    by (rule ensure_table_spec [OF ok v(1) fl fr f])
  have tok: "tables_ok s"
    using s(2) by (simp add: vm_ok_def)
  have ne: "\<not> present (pt_phys s (pground (pde s ?t)) ?p)"
    using s(6) v(1,3) walk_entry [OF s(5)] by (auto simp: Let_def split: if_splits)
  define st' where "st' = tlb (Invlpg (VADDR ?t ?p)) (set_word (pground (pde s ?t)) ?p (frame OR fl) s)"
  have fe: "pground frame = frame"
    using pground_entry [OF fr, of 0] by simp
  have fields: "pt_cr3 st' = pt_cr3 s" "pt_phys st' = pt_phys (set_word (pground (pde s ?t)) ?p (frame OR fl) s)"
    "pt_frames st' = pt_frames s" "pt_freed st' = pt_freed s" "untouched s st'"
    by (simp_all add: st'_def untouched_def)
  note se = set_entry [OF tok v(1) s(5) fields(1,2)]
  have "paging_map frame v fl st = Some (0, st')"
    using s(1,5) v(1,2) fr ne tok V_PTI_less [of v]
    by (simp add: paging_map_def map_page_def vload_PTE vstore_PTE st'_def fe [simplified])
  moreover have "vm_ok st'"
    using s(2) se(1) frames_ok_cong [OF se(3) fields(1,3)] by (simp add: vm_ok_def)
  moreover have "untouched st st'"
    using s(3) fields(5) by (simp add: untouched_def)
  moreover have "\<forall>w. below_window w \<longrightarrow> walk st' w = (if pageno w = pageno v then Some (frame OR fl) else walk st w)"
    using se(2) s(6) fl by (simp add: pageno_eq bit_or_iff)
  ultimately show thesis
    using s(4,7,8) fields(3,4) fresh_cong [OF se(3) fields(1)] by (intro that [of st']) simp_all
qed


lemma bit_of_small: "t < 1024 \<Longrightarrow> bit (of_nat t :: u32) n \<Longrightarrow> n < 10"
proof -
  assume t: "t < 1024" and b: "bit (of_nat t :: u32) n"
  have "take_bit 10 (of_nat t :: u32) = of_nat t"
    using t by (simp add: take_bit_of_nat take_bit_nat_eq_self)
  with b have "bit (take_bit 10 (of_nat t :: u32)) n"
    by simp
  then show ?thesis
    by (simp add: bit_take_bit_iff)
qed

lemma VADDR_indices:
  assumes t: "t < 1024" and p: "p < 1024"
  shows "V_PDI (VADDR t p) = t" "V_PTI (VADDR t p) = p"
proof -
  have u: "unat (of_nat t :: u32) = t" "unat (of_nat p :: u32) = p"
    using t p by (simp_all add: unat_of_nat take_bit_nat_eq_self)
  have "drop_bit 22 (VADDR t p) = of_nat t"
    unfolding VADDR_def using bit_of_small [OF t] bit_of_small [OF p] by (intro bit_word_eqI) (force simp: bit_simps)
  then show "V_PDI (VADDR t p) = t"
    by (simp only: V_PDI_def u)
  have "drop_bit 12 (VADDR t p) AND mask 10 = of_nat p"
    unfolding VADDR_def using bit_of_small [OF t] bit_of_small [OF p] by (intro bit_word_eqI) (force simp: bit_simps)
  moreover have "(0x3FF :: u32) = mask 10"
    by (simp add: mask_eq_exp_minus_1)
  ultimately show "V_PTI (VADDR t p) = p"
    by (simp only: V_PTI_def u)
qed

lemma unmap_page_eq:
  assumes "self_mapped st" "t < 1024" "p < 1024" "present (pde st t)" "pt_phys st (pground (pde st t)) p = e" "present e"
  shows "unmap_page t p st = Some (0, tlb (Invlpg (VADDR t p)) (set_word (pground (pde st t)) p 0 (pm_free (pground e) st)))"
proof -
  define s where "s = pm_free (pground e) st"
  have s: "self_mapped s" "present (pde s t)" "pde s t = pde st t"
    using assms by (simp_all add: s_def self_mapped_def)
  show ?thesis
    unfolding unmap_page_def VADDR_indices [OF assms(2,3)] vload_PDE [OF assms(1,2)] vload_PTE [OF assms(1-4)] assms(5) Option.bind.simps
      s_def [symmetric] Let_def vstore_PTE [OF s(1) assms(2,3) s(2)] s(3)
    using assms by (simp add: CHECKBOUNDS_def)
qed

lemma paging_unmap_spec:
  assumes ok: "vm_ok st" and v: "below_window v" "pgoffset v = 0" "walk st v = Some e"
  obtains st' where "paging_unmap v st = Some (0, st')" "vm_ok st'" "untouched st st'"
    "pt_freed st' = pt_freed st @ [pground e]" "pt_frames st' = pt_frames st" "\<forall>g. fresh st' g = fresh st g"
    "\<forall>w. below_window w \<longrightarrow> walk st' w = (if pageno w = pageno v then None else walk st w)"
proof -
  let ?t = "V_PDI v" and ?p = "V_PTI v"
  have tok: "tables_ok st"
    using ok by (simp add: vm_ok_def)
  have pr: "present (pde st ?t)" "present e" "pt_phys st (pground (pde st ?t)) ?p = e"
    using v(3) by (auto simp: walk_def Let_def split: if_splits)
  define st' where "st' = tlb (Invlpg (VADDR ?t ?p)) (set_word (pground (pde st ?t)) ?p 0 (pm_free (pground e) st))"
  have fields: "pt_cr3 st' = pt_cr3 st" "pt_phys st' = pt_phys (set_word (pground (pde st ?t)) ?p 0 st)"
    "pt_frames st' = pt_frames st" "pt_freed st' = pt_freed st @ [pground e]" "untouched st st'"
    by (simp_all add: st'_def untouched_def)
  note se = set_entry [OF tok v(1) pr(1) fields(1,2)]
  have un: "unmap_page ?t ?p st = Some (0, st')"
    unfolding st'_def using tok v(1) pr by (intro unmap_page_eq) (simp_all add: V_PTI_less)
  have "paging_unmap v st = Some (0, st')"
    using un v(2) by (simp add: paging_unmap_def)
  moreover have "vm_ok st'"
    using ok se(1) frames_ok_cong [OF se(3) fields(1,3)] by (simp add: vm_ok_def)
  moreover have "\<forall>w. below_window w \<longrightarrow> walk st' w = (if pageno w = pageno v then None else walk st w)"
    using se(2) by (simp add: pageno_eq)
  ultimately show thesis
    using fields(3-5) fresh_cong [OF se(3) fields(1)] by (intro that [of st']) simp_all
qed


section \<open>Ranges of pages\<close>

lemma pgoffset_nat: "pgoffset v = 0 \<longleftrightarrow> unat v mod 2 ^ 12 = 0"
proof -
  have "unat (pgoffset v) = unat v mod 2 ^ 12"
    unfolding mask12 by (rule unat_mask_u32) simp
  then show ?thesis
    by (metis unat_eq_zero)
qed

lemma below_window_nat: "below_window v \<longleftrightarrow> unat v < 0xFFC00000"
  by (simp add: V_PDI_nat div_less_iff_less_mult)

lemma next_page:
  assumes "pgoffset v = 0" "unat v + n * 0x1000 \<le> 0xFFC00000" "0 < n"
  shows "unat (v + 0x1000) = unat v + 0x1000" "pgoffset (v + 0x1000) = 0" "pageno (v + 0x1000) = Suc (pageno v)"
proof -
  have "0x1000 \<le> n * 0x1000"
    using assms(3) by simp
  then have "unat v + 0x1000 < 2 ^ 32"
    using assms(2) by simp
  then show u: "unat (v + 0x1000) = unat v + 0x1000"
    by (subst unat_add_lem [THEN iffD1]) simp_all
  show "pgoffset (v + 0x1000) = 0"
    using assms(1) unfolding pgoffset_nat u by simp
  show "pageno (v + 0x1000) = Suc (pageno v)"
    unfolding pageno_def u by simp
qed

definition in_pages :: "u32 \<Rightarrow> nat \<Rightarrow> u32 \<Rightarrow> bool" where
  "in_pages v n w \<longleftrightarrow> pageno v \<le> pageno w \<and> pageno w < pageno v + n"

definition mapped_pages :: "u32 \<Rightarrow> u32 \<Rightarrow> u32 list \<Rightarrow> paging \<Rightarrow> paging \<Rightarrow> bool" where
  "mapped_pages v fl fs st st' \<longleftrightarrow> (\<forall>w. below_window w \<longrightarrow>
     walk st' w = (if in_pages v (length fs) w then Some (fs ! (pageno w - pageno v) OR fl) else walk st w))"

lemma mapped_pages_Cons:
  assumes "\<forall>w. below_window w \<longrightarrow> walk s w = (if pageno w = pageno v then Some (f OR fl) else walk st w)"
    "mapped_pages v' fl fs s st'" "pageno v' = Suc (pageno v)"
  shows "mapped_pages v fl (f # fs) st st'"
  unfolding mapped_pages_def
proof (intro allI impI)
  fix w assume "below_window w"
  then show "walk st' w = (if in_pages v (length (f # fs)) w then Some ((f # fs) ! (pageno w - pageno v) OR fl) else walk st w)"
    using assms unfolding mapped_pages_def in_pages_def
    by (cases "pageno w = pageno v") (auto simp: nth_Cons' Suc_diff_Suc)
qed


lemma pm_alloc_Cons: "pt_frames st = f # fs \<Longrightarrow> pm_alloc st = (f, st\<lparr>pt_frames := fs\<rparr>)"
  by (simp add: pm_alloc_def)

lemma vm_ok_take:
  assumes "vm_ok st" "pt_frames st = f # fs"
  shows "vm_ok (st\<lparr>pt_frames := fs\<rparr>)" "fresh (st\<lparr>pt_frames := fs\<rparr>) f" "f \<notin> set fs" "f \<noteq> 0" "pgoffset f = 0"
    "walk (st\<lparr>pt_frames := fs\<rparr>) = walk st" "untouched st (st\<lparr>pt_frames := fs\<rparr>)"
  using assms walk_cong [of "st\<lparr>pt_frames := fs\<rparr>" st]
  by (auto simp: vm_ok_def frames_ok_def tables_ok_def fresh_def untouched_def)

lemma untouched_trans: "untouched a b \<Longrightarrow> untouched b c \<Longrightarrow> untouched a c"
  by (simp add: untouched_def)

lemma mappages_loop_spec:
  assumes "vm_ok st" "pgoffset v = 0" "unat v + n * 0x1000 \<le> 0xFFC00000" "present fl"
    "\<forall>w. below_window w \<longrightarrow> in_pages v n w \<longrightarrow> walk st w = None" "2 * n \<le> length (pt_frames st)"
  shows "\<exists>st' fs. mappages_loop paging_map n v fl st = Some (0, st') \<and> vm_ok st' \<and> untouched st st' \<and> pt_freed st' = pt_freed st
    \<and> length fs = n \<and> distinct fs \<and> set fs \<subseteq> set (pt_frames st) \<and> set (pt_frames st') \<subseteq> set (pt_frames st) - set fs
    \<and> (\<forall>f \<in> set fs. fresh st' f) \<and> (\<forall>g. g \<notin> set (pt_frames st) \<longrightarrow> fresh st g \<longrightarrow> fresh st' g) \<and> mapped_pages v fl fs st st'"
  using assms
proof (induction n arbitrary: v st)
  case 0
  then show ?case
    by (intro exI [of _ st] exI [of _ "[]"]) (simp add: untouched_def mapped_pages_def in_pages_def)
next
  case (Suc n)
  obtain f fs where fs: "pt_frames st = f # fs"
    using Suc.prems(6) by (cases "pt_frames st") auto
  define s where "s = st\<lparr>pt_frames := fs\<rparr>"
  note tk = vm_ok_take [OF Suc.prems(1) fs, folded s_def]
  have s1: "pt_frames s = fs" "pt_freed s = pt_freed st"
    by (simp_all add: s_def)
  have bw: "below_window v" and vn: "walk s v = None"
    using Suc.prems(3,5) by (simp_all add: below_window_nat tk(6) in_pages_def)
  have ne: "pt_frames s \<noteq> []"
    using Suc.prems(6) by (cases fs) (auto simp: s1 fs)
  obtain u where u: "paging_map f v fl s = Some (0, u)" "vm_ok u" "untouched s u" "pt_freed u = pt_freed s"
    "pt_frames u = pt_frames s \<or> pt_frames u = tl (pt_frames s)"
    "\<forall>w. below_window w \<longrightarrow> walk u w = (if pageno w = pageno v then Some (f OR fl) else walk s w)"
    "\<forall>g. g \<notin> set (pt_frames s) \<longrightarrow> fresh s g \<longrightarrow> fresh u g"
    by (rule paging_map_spec [OF tk(1) bw Suc.prems(2) vn tk(5) Suc.prems(4) ne])
  note np = next_page [OF Suc.prems(2,3) zero_less_Suc]
  have fu: "set (pt_frames u) \<subseteq> set fs" "2 * n \<le> length (pt_frames u)" "f \<notin> set (pt_frames u)"
    using u(5) Suc.prems(6) tk(3) by (cases fs; auto simp: s1 fs)+
  have wn: "\<forall>w. below_window w \<longrightarrow> in_pages (v + 0x1000) n w \<longrightarrow> walk u w = None"
    using u(6) Suc.prems(5) by (simp add: in_pages_def np(3) tk(6))
  have un: "unat (v + 0x1000) + n * 0x1000 \<le> 0xFFC00000"
    using Suc.prems(3) by (simp add: np(1))
  obtain st' gs where r: "mappages_loop paging_map n (v + 0x1000) fl u = Some (0, st')" "vm_ok st'" "untouched u st'" "pt_freed st' = pt_freed u"
    "length gs = n" "distinct gs" "set gs \<subseteq> set (pt_frames u)" "set (pt_frames st') \<subseteq> set (pt_frames u) - set gs"
    "\<forall>f \<in> set gs. fresh st' f" "\<forall>g. g \<notin> set (pt_frames u) \<longrightarrow> fresh u g \<longrightarrow> fresh st' g" "mapped_pages (v + 0x1000) fl gs u st'"
    using Suc.IH [OF u(2) np(2) un Suc.prems(4) wn fu(2)] by blast
  have "mappages_loop paging_map (Suc n) v fl st = Some (0, st')"
    by (simp add: pm_alloc_Cons [OF fs] s_def [symmetric] tk(4) u(1) r(1))
  moreover have "mapped_pages v fl (f # gs) st st'"
    using mapped_pages_Cons [OF u(6) r(11) np(3)] by (simp add: mapped_pages_def tk(6))
  moreover have "untouched st st'"
    using untouched_trans [OF tk(7) untouched_trans [OF u(3) r(3)]] .
  moreover have "\<forall>g. g \<notin> set (pt_frames st) \<longrightarrow> fresh st g \<longrightarrow> fresh st' g"
  proof -
    have "fresh s g = fresh st g" for g
      by (simp add: s_def fresh_def)
    then show ?thesis
      using u(7) r(10) fu(1) by (auto simp: fs s1)
  qed
  moreover have "fresh st' f"
    using u(7) tk(2,3) r(10) fu(3) by (simp add: s1)
  moreover have "distinct (f # gs)" "set (f # gs) \<subseteq> set (pt_frames st)" "set (pt_frames st') \<subseteq> set (pt_frames st) - set (f # gs)"
    using r(6,7,8) fu(1,3) by (auto simp: fs)
  ultimately show ?case
    using r(2,4,5,9) u(4) by (intro exI [of _ st'] exI [of _ "f # gs"]) (simp add: s1)
qed


definition unmapped_pages :: "u32 \<Rightarrow> nat \<Rightarrow> paging \<Rightarrow> paging \<Rightarrow> bool" where
  "unmapped_pages v n st st' \<longleftrightarrow> (\<forall>w. below_window w \<longrightarrow> walk st' w = (if in_pages v n w then None else walk st w))"

lemma unmap_loop_spec:
  assumes "vm_ok st" "pgoffset v = 0" "unat v + length es * 0x1000 \<le> 0xFFC00000"
    "\<forall>w. below_window w \<longrightarrow> in_pages v (length es) w \<longrightarrow> walk st w = Some (es ! (pageno w - pageno v))"
  shows "\<exists>st'. unmap_loop_pages (length es) v st = Some (0, st') \<and> vm_ok st' \<and> untouched st st' \<and> pt_frames st' = pt_frames st
    \<and> pt_freed st' = pt_freed st @ map (\<lambda>e. pground e) es \<and> unmapped_pages v (length es) st st'"
  using assms
proof (induction es arbitrary: v st)
  case Nil
  then show ?case
    by (simp add: untouched_def unmapped_pages_def in_pages_def)
next
  case (Cons e es)
  have len: "unat v + Suc (length es) * 0x1000 \<le> 0xFFC00000"
    using Cons.prems(3) by simp
  have bw: "below_window v" and wv: "walk st v = Some e"
    using Cons.prems(3,4) by (simp_all add: below_window_nat in_pages_def)
  obtain u where u: "paging_unmap v st = Some (0, u)" "vm_ok u" "untouched st u"
    "pt_freed u = pt_freed st @ [pground e]" "pt_frames u = pt_frames st" "\<forall>g. fresh u g = fresh st g"
    "\<forall>w. below_window w \<longrightarrow> walk u w = (if pageno w = pageno v then None else walk st w)"
    by (rule paging_unmap_spec [OF Cons.prems(1) bw Cons.prems(2) wv])
  note np = next_page [OF Cons.prems(2) len zero_less_Suc]
  have un: "unat (v + 0x1000) + length es * 0x1000 \<le> 0xFFC00000"
    using len by (simp add: np(1))
  have wn: "\<forall>w. below_window w \<longrightarrow> in_pages (v + 0x1000) (length es) w \<longrightarrow> walk u w = Some (es ! (pageno w - pageno (v + 0x1000)))"
    using u(7) Cons.prems(4) by (auto simp: in_pages_def np(3) nth_Cons')
  obtain st' where r: "unmap_loop_pages (length es) (v + 0x1000) u = Some (0, st')" "vm_ok st'" "untouched u st'" "pt_frames st' = pt_frames u"
    "pt_freed st' = pt_freed u @ map (\<lambda>e. pground e) es" "unmapped_pages (v + 0x1000) (length es) u st'"
    using Cons.IH [OF u(2) np(2) un wn] by blast
  have "unmapped_pages v (length (e # es)) st st'"
    using r(6) u(7) unfolding unmapped_pages_def in_pages_def np(3)
    by (metis (no_types, opaque_lifting) Suc_le_eq add_Suc add_Suc_right length_Cons less_add_Suc1 linorder_not_le nless_le order_refl)
  then show ?case
    using u(1,4,5) r untouched_trans [OF u(3) r(3)] by simp
qed


lemma pgroundup_aligned: "pgoffset x = 0 \<Longrightarrow> pgroundup x = x"
proof -
  assume x: "pgoffset x = 0"
  have dj: "\<not> bit x n \<or> \<not> bit (mask 12 :: u32) n" for n
    using x [unfolded mask12] bit_pgoffset_zero [of x n] by (auto simp: bit_simps)
  have "x + 0xFFF = x OR mask 12"
    unfolding mask12 by (rule disjunctive_add [OF dj])
  then have "pgroundup x = (x OR mask 12) AND NOT (mask 12)"
    by (simp only: mask12)
  also have "\<dots> = x"
    using dj by (intro bit_word_eqI) (auto simp: bit_simps)
  finally show ?thesis .
qed

lemma range_pages_aligned:
  assumes "pgoffset v = 0" "pgoffset sz = 0" "unat v + unat sz \<le> 0xFFC00000"
  shows "range_pages v sz = unat sz div 0x1000" "unat v + range_pages v sz * 0x1000 \<le> 0xFFC00000"
proof -
  have "unat v + unat sz < 2 ^ 32"
    using assms(3) by simp
  then have u: "unat (v + sz) = unat v + unat sz"
    by (subst unat_add_lem [THEN iffD1]) simp_all
  have a: "pgoffset (v + sz) = 0"
    using assms(1,2) unfolding pgoffset_nat u by (simp add: mod_eq_0_iff_dvd)
  have "pground v = v"
    using pground_entry [OF assms(1), of 0] by simp
  then have r: "range_pages v sz = unat (sz div 0x1000)"
    unfolding range_pages_def pgroundup_aligned [OF a] by simp
  then show "range_pages v sz = unat sz div 0x1000"
    by (simp add: unat_div)
  moreover have "unat sz div 0x1000 * 0x1000 = unat sz"
    using assms(2) unfolding pgoffset_nat by (simp add: mod_0_imp_dvd)
  ultimately show "unat v + range_pages v sz * 0x1000 \<le> 0xFFC00000"
    using assms(3) by simp
qed


section \<open>Properties\<close>

text \<open>C11. When the page has no mapping and a frame is left for its table, \<^verbatim>\<open>paging_map\<close> returns 0 and adds
  exactly one translation, to the frame with the flags; every other address outside the window of the
  tables is translated as before. The tables stay disjoint, and no free frame is used as a table.
\<close>

theorem paging_map_adds_translation:
  assumes "vm_ok st" "below_window v" "pgoffset v = 0" "walk st v = None" "pgoffset frame = 0" "present fl" "pt_frames st \<noteq> []"
  shows "\<exists>st'. paging_map frame v fl st = Some (0, st') \<and> vm_ok st' \<and>
    (\<forall>w. below_window w \<longrightarrow> walk st' w = (if pageno w = pageno v then Some (frame OR fl) else walk st w))"
  by (rule paging_map_spec [OF assms]) blast

text \<open>A directory with nothing but its own entry, and free frames.\<close>

definition demo_pt :: paging where
  "demo_pt = \<lparr>pt_cr3 = 0x1000, pt_phys = (\<lambda>f i. if f = 0x1000 \<and> i = 1023 then 0x1003 else 0),
    pt_frames = [0x2000, 0x3000, 0x4000, 0x5000], pt_freed = [], pt_vas = [], pt_vfreed = [], pt_incr = [], pt_tlb = []\<rparr>"

lemma demo_pt_walk: "below_window w \<Longrightarrow> walk demo_pt w = None"
  by (simp add: walk_def demo_pt_def)

lemma demo_pt_ok: "vm_ok demo_pt"
  by (simp add: vm_ok_def tables_ok_def frames_ok_def fresh_def demo_pt_def)

lemma demo_pt_frames: "pt_frames demo_pt = [0x2000, 0x3000, 0x4000, 0x5000]"
  by (simp add: demo_pt_def)

theorem paging_map_adds_translation_witness:
  "\<exists>st'. paging_map 0x8000 0x400000 7 demo_pt = Some (0, st') \<and> vm_ok st' \<and> walk st' 0x400ABC = Some 0x8007 \<and> walk st' 0x401000 = None"
proof -
  have i: "V_PDI 0x400000 = 1" "V_PDI 0x400ABC = 1" "V_PDI 0x401000 = 1" "pageno 0x400ABC = pageno 0x400000" "pageno 0x401000 \<noteq> pageno 0x400000"
    by (simp_all add: V_PDI_nat pageno_def)
  show ?thesis
    using paging_map_adds_translation [of demo_pt "0x400000" "0x8000" 7] i
    by (auto simp: demo_pt_ok demo_pt_walk demo_pt_frames)
qed

text \<open>C39. The refusals: an existing mapping makes \<^verbatim>\<open>paging_map\<close> panic and \<^verbatim>\<open>paging_map_err\<close> return \<^verbatim>\<open>-EEXIST\<close> with
  nothing changed, and when the table is missing and no frame is left, both return \<^verbatim>\<open>-ENOMEM\<close> with every
  translation as before.
\<close>

theorem paging_map_refused:
  assumes ok: "vm_ok st" and v: "below_window v" "pgoffset v = 0" "pgoffset frame = 0"
  shows "(walk st v \<noteq> None \<longrightarrow> paging_map frame v fl st = None \<and> paging_map_err frame v fl st = Some (- EEXIST, st)) \<and>
    (\<not> present (pde st (V_PDI v)) \<and> pt_frames st = [] \<longrightarrow>
      paging_map frame v fl st = Some (- ENOMEM, st) \<and> paging_map_err frame v fl st = Some (- ENOMEM, st))"
proof (intro conjI impI)
  have tp: "V_PDI v < 1024" "V_PTI v < 1024" "self_mapped st" "CHECKBOUNDS (V_PDI v) (V_PTI v)"
    using v(1) ok by (simp_all add: V_PTI_less vm_ok_def CHECKBOUNDS_def)
  {
    assume "walk st v \<noteq> None"
    then have pr: "present (pde st (V_PDI v))" "present (pt_phys st (pground (pde st (V_PDI v))) (V_PTI v))"
      by (auto simp: walk_def Let_def split: if_splits)
    have e: "ensure_table frame (V_PDI v) (V_PTI v) fl st = Some (0, st)"
      using v(3) pr(1) tp by (simp add: ensure_table_def vload_PDE)
    show "paging_map frame v fl st = None" "paging_map_err frame v fl st = Some (- EEXIST, st)"
      using v pr tp by (simp_all add: paging_map_def paging_map_err_def map_page_def map_page_err_def e vload_PTE)
  next
    assume n: "\<not> present (pde st (V_PDI v)) \<and> pt_frames st = []"
    then have "ensure_table frame (V_PDI v) (V_PTI v) fl st = Some (- ENOMEM, st)"
      using v(3) tp by (simp add: ensure_table_def vload_PDE maptable_none)
    then show "paging_map frame v fl st = Some (- ENOMEM, st)" "paging_map_err frame v fl st = Some (- ENOMEM, st)"
      using v by (simp_all add: paging_map_def paging_map_err_def map_page_def map_page_err_def)
  }
qed

theorem paging_map_refused_witness:
  "paging_map 0x8000 0x400000 7 (demo_pt\<lparr>pt_frames := []\<rparr>) = Some (- ENOMEM, demo_pt\<lparr>pt_frames := []\<rparr>)
    \<and> paging_map_err 0x8000 0x400000 7 (demo_pt\<lparr>pt_frames := []\<rparr>) = Some (- ENOMEM, demo_pt\<lparr>pt_frames := []\<rparr>)"
proof -
  have "vm_ok (demo_pt\<lparr>pt_frames := []\<rparr>)"
    by (simp add: vm_ok_def tables_ok_def frames_ok_def demo_pt_def)
  moreover have "V_PDI 0x400000 = 1"
    by (simp add: V_PDI_nat)
  ultimately show ?thesis
    using paging_map_refused [of "demo_pt\<lparr>pt_frames := []\<rparr>" "0x400000" "0x8000" 7] by (simp add: demo_pt_def)
qed

text \<open>C7. A range that is mapped and unmapped again: \<^verbatim>\<open>paging_mappages\<close> gives every page of the range a frame of
  its own, none of them a page table, and leaves the other translations; \<^verbatim>\<open>paging_unmappages\<close> then gives back
  exactly these frames, in the order of the pages, and every address is translated as at first.
\<close>

theorem mappages_unmappages:
  assumes ok: "vm_ok st" and v: "pgoffset v = 0" "pgoffset sz = 0" "unat v + unat sz \<le> 0xFFC00000"
    and fl: "present fl" "pgoffset fl = fl"
    and free: "\<forall>w. below_window w \<longrightarrow> in_pages v (unat sz div 0x1000) w \<longrightarrow> walk st w = None"
    and enough: "2 * (unat sz div 0x1000) \<le> length (pt_frames st)"
  shows "\<exists>st1 st2 fs. paging_mappages v sz fl st = Some (0, st1) \<and> length fs = unat sz div 0x1000 \<and> distinct fs
    \<and> (\<forall>f \<in> set fs. f \<in> set (pt_frames st) \<and> fresh st1 f) \<and> mapped_pages v fl fs st st1
    \<and> paging_unmappages v sz st1 = Some (0, st2) \<and> vm_ok st2 \<and> pt_freed st2 = pt_freed st @ fs
    \<and> (\<forall>w. below_window w \<longrightarrow> walk st2 w = walk st w)"
proof -
  note rp = range_pages_aligned [OF v]
  obtain s1 fs where m: "mappages_loop paging_map (unat sz div 0x1000) v fl st = Some (0, s1)" "vm_ok s1" "pt_freed s1 = pt_freed st"
    "length fs = unat sz div 0x1000" "distinct fs" "set fs \<subseteq> set (pt_frames st)" "\<forall>f \<in> set fs. fresh s1 f" "mapped_pages v fl fs st s1"
    using mappages_loop_spec [OF ok v(1) _ fl(1) free enough] rp by auto
  define es where "es = map (\<lambda>f. f OR fl) fs"
  have "pground (f OR fl) = f" if "f \<in> set fs" for f
  proof -
    have a: "pgoffset f = 0"
      using m(7) that by (simp add: fresh_def)
    then have "pground f = f"
      using pground_entry [OF a, of 0] by simp
    then show ?thesis
      using pground_entry [OF a, of fl] unfolding fl(2) by simp
  qed
  then have pg: "map (\<lambda>e. pground e) es = fs"
    unfolding es_def by (simp add: map_idI)
  have len: "length es = unat sz div 0x1000"
    by (simp add: es_def m(4))
  have w: "\<forall>w. below_window w \<longrightarrow> in_pages v (length es) w \<longrightarrow> walk s1 w = Some (es ! (pageno w - pageno v))"
    using m(8) unfolding mapped_pages_def by (simp add: len m(4) es_def in_pages_def less_diff_conv2)
  obtain s2 where u: "unmap_loop_pages (unat sz div 0x1000) v s1 = Some (0, s2)" "vm_ok s2" "pt_freed s2 = pt_freed s1 @ fs"
    "unmapped_pages v (unat sz div 0x1000) s1 s2"
    using unmap_loop_spec [OF m(2) v(1) _ w] rp unfolding len pg by auto
  have "paging_mappages v sz fl st = Some (0, s1)" "paging_unmappages v sz s1 = Some (0, s2)"
    using v(1,2) m(1) u(1) by (simp_all add: paging_mappages_def paging_unmappages_def rp(1))
  moreover have "\<forall>w. below_window w \<longrightarrow> walk s2 w = walk st w"
    using u(4) m(8) free unfolding unmapped_pages_def mapped_pages_def m(4) by auto
  ultimately show ?thesis
    using m(3-8) u(2,3) by (intro exI [of _ s1] exI [of _ s2] exI [of _ fs]) auto
qed

theorem mappages_unmappages_witness:
  "\<exists>st1 st2 fs. paging_mappages 0x400000 0x2000 7 demo_pt = Some (0, st1) \<and> length fs = 2 \<and> distinct fs
    \<and> paging_unmappages 0x400000 0x2000 st1 = Some (0, st2) \<and> pt_freed st2 = fs \<and> walk st2 0x401000 = None"
proof -
  have i: "V_PDI 0x401000 = 1" "pt_freed demo_pt = []"
    by (simp_all add: V_PDI_nat demo_pt_def)
  show ?thesis
    using mappages_unmappages [of demo_pt "0x400000" "0x2000" 7] i demo_pt_walk [of "0x401000"]
    by (force simp: demo_pt_ok demo_pt_walk demo_pt_frames)
qed

end
