(* ===== verification/Paging_Teardown.thy ===== *)
theory Paging_Teardown
  imports Paging_Props
begin

text \<open>
  The end of an address space: \<^verbatim>\<open>paging_proc_unmap\<close> takes down the user half of a directory, gives back every
  frame that it maps and every table, and leaves the kernel's half alone.
\<close>

declare neq0_conv [iff del] bot_nat_0.not_eq_extremum [simp del]

section \<open>One table\<close>

definition mapped_frames :: "(nat \<Rightarrow> u32) \<Rightarrow> nat list \<Rightarrow> u32 list" where
  "mapped_frames tab js = map (\<lambda>e. pground e) (filter (\<lambda>e. present e) (map tab js))"

lemma mapped_frames_Cons: "mapped_frames tab (j # js) = (if present (tab j) then [pground (tab j)] else []) @ mapped_frames tab js"
  by (simp add: mapped_frames_def)

lemma mapped_frames_cong: "(\<And>j. j \<in> set js \<Longrightarrow> tab j = tab' j) \<Longrightarrow> mapped_frames tab js = mapped_frames tab' js"
  unfolding mapped_frames_def by (metis map_cong)

lemma proc_unmap_ptes_spec:
  assumes "tables_ok st" "t < 1023" "present (pde st t)" "i + n \<le> 1024" "g = pground (pde st t)"
  shows "\<exists>st'. proc_unmap_ptes t i n st = Some st' \<and> untouched st st' \<and> pt_frames st' = pt_frames st \<and> tables_ok st'
    \<and> pt_freed st' = pt_freed st @ mapped_frames (pt_phys st g) [i ..< i + n]
    \<and> (\<forall>h. h \<noteq> g \<longrightarrow> pt_phys st' h = pt_phys st h)"
  using assms
proof (induction n arbitrary: i st)
  case 0
  then show ?case
    by (simp add: untouched_def mapped_frames_def)
next
  case (Suc n)
  let ?e = "pt_phys st g i"
  have sm: "self_mapped st" and ti: "t < 1024" "i < 1024"
    using Suc.prems by simp_all
  have ld: "vload (PTE t i) st = Some ?e"
    using vload_PTE [OF sm ti Suc.prems(3)] by (simp add: Suc.prems(5))
  define s where "s = (if present ?e then tlb (Invlpg (VADDR t i)) (set_word g i 0 (pm_free (pground ?e) st)) else st)"
  have gd: "g \<noteq> pgdir st"
    using tables_okD(3) [OF Suc.prems(1-3)] Suc.prems(5) by simp
  have st: "(if present ?e then do { (_, st) \<leftarrow> unmap_page t i st; Some st } else Some st) = Some s"
    unfolding s_def using unmap_page_eq [OF sm ti Suc.prems(3), of ?e] by (simp add: Suc.prems(5))
  have s: "untouched st s" "pt_cr3 s = pt_cr3 st" "pt_frames s = pt_frames st" "pt_freed s = pt_freed st @ (if present ?e then [pground ?e] else [])"
    "\<And>h. h \<noteq> g \<Longrightarrow> pt_phys s h = pt_phys st h" "\<And>j. j \<noteq> i \<Longrightarrow> pt_phys s g j = pt_phys st g j"
    by (simp_all add: s_def untouched_def)
  have ok: "tables_ok s" "present (pde s t)" "g = pground (pde s t)"
    using Suc.prems(1,3,5) unfolding tables_ok_def s(2) s(5) [OF gd [symmetric]] by blast+
  obtain st' where r: "proc_unmap_ptes t (Suc i) n s = Some st'" "untouched s st'" "pt_frames st' = pt_frames s" "tables_ok st'"
    "pt_freed st' = pt_freed s @ mapped_frames (pt_phys s g) [Suc i ..< Suc i + n]" "\<forall>h. h \<noteq> g \<longrightarrow> pt_phys st' h = pt_phys s h"
    using Suc.IH [OF ok(1) Suc.prems(2) ok(2) _ ok(3), of "Suc i"] Suc.prems(4) by auto
  have "mapped_frames (pt_phys s g) [Suc i ..< Suc i + n] = mapped_frames (pt_phys st g) [Suc i ..< Suc i + n]"
    by (intro mapped_frames_cong s(6)) auto
  moreover have "[i ..< i + Suc n] = i # [Suc i ..< Suc i + n]"
    by (simp add: upt_conv_Cons)
  ultimately have fr: "pt_freed st' = pt_freed st @ mapped_frames (pt_phys st g) [i ..< i + Suc n]"
    using r(5) s(4) by (simp only: mapped_frames_Cons append_assoc)
  have "proc_unmap_ptes t i (Suc n) st = Some st'"
    unfolding proc_unmap_ptes.simps ld Option.bind.simps st using r(1) by simp
  then show ?case
    using r(3,4,6) s(3,5) fr untouched_trans [OF s(1) r(2)] by simp
qed

lemma unmaptable_eq:
  assumes "self_mapped st" "t < 1023" "present (pde st t)"
  shows "unmaptable t st = Some (0, tlb (Invlpg (PTE t 0)) (set_word (pgdir st) t 0 (pm_free (pground (pde st t)) st)))"
proof -
  have t: "t < 1024"
    using assms(2) by simp
  define s where "s = pm_free (pground (pde st t)) st"
  have s: "self_mapped s" "pgdir s = pgdir st"
    using assms(1) by (simp_all add: s_def self_mapped_def)
  show ?thesis
    unfolding unmaptable_def vload_PDE [OF assms(1) t] Option.bind.simps s_def [symmetric] Let_def vstore_PDE [OF s(1) t] s(2)
    using assms(2,3) by (simp add: CHECKBOUNDS_def)
qed


section \<open>The user half\<close>

definition table_frames :: "paging \<Rightarrow> nat \<Rightarrow> u32 list" where
  "table_frames st t =
    (if present (pde st t) then mapped_frames (pt_phys st (pground (pde st t))) [0 ..< 1024] @ [pground (pde st t)] else [])"

text \<open>Directory entry and table of an index are the same in both states.\<close>

definition same_table :: "paging \<Rightarrow> paging \<Rightarrow> nat \<Rightarrow> bool" where
  "same_table st st' t \<longleftrightarrow> pde st' t = pde st t \<and> (present (pde st t) \<longrightarrow> pt_phys st' (pground (pde st t)) = pt_phys st (pground (pde st t)))"

lemma same_table_frames: "same_table st st' t \<Longrightarrow> table_frames st' t = table_frames st t"
  by (simp add: same_table_def table_frames_def)

lemma same_table_trans: "same_table a b t \<Longrightarrow> same_table b c t \<Longrightarrow> same_table a c t"
  by (simp add: same_table_def)

lemma same_table_walk: "same_table st st' (V_PDI w) \<Longrightarrow> walk st' w = walk st w"
  by (simp add: same_table_def walk_def Let_def)

definition torn :: "nat list \<Rightarrow> paging \<Rightarrow> paging \<Rightarrow> bool" where
  "torn ts st st' \<longleftrightarrow> untouched st st' \<and> pt_frames st' = pt_frames st \<and> tables_ok st'
    \<and> pt_freed st' = pt_freed st @ concat (map (table_frames st) ts)
    \<and> (\<forall>t < 1023. if t \<in> set ts then \<not> present (pde st' t) else same_table st st' t)"

lemma torn_gone: "torn ts st st' \<Longrightarrow> t < 1023 \<Longrightarrow> t \<in> set ts \<Longrightarrow> \<not> present (pde st' t)"
  unfolding torn_def by presburger

lemma torn_same: "torn ts st st' \<Longrightarrow> t < 1023 \<Longrightarrow> t \<notin> set ts \<Longrightarrow> same_table st st' t"
  unfolding torn_def by presburger

lemma torn_table:
  assumes ok: "tables_ok st" and t: "t < 1023" "present (pde st t)"
  obtains st' s e where "proc_unmap_ptes t 0 1024 st = Some s" "unmaptable t s = Some (e, st')" "torn [t] st st'"
proof -
  let ?g = "pground (pde st t)" and ?D = "pgdir st"
  obtain s where s: "proc_unmap_ptes t 0 1024 st = Some s" "untouched st s" "pt_frames s = pt_frames st" "tables_ok s"
    "pt_freed s = pt_freed st @ mapped_frames (pt_phys st ?g) [0 ..< 1024]" "\<And>h. h \<noteq> ?g \<Longrightarrow> pt_phys s h = pt_phys st h"
    using proc_unmap_ptes_spec [OF ok t, of 0 1024] by auto
  have cr3: "pt_cr3 s = pt_cr3 st"
    using s(2) by (simp add: untouched_def)
  have gD: "?g \<noteq> ?D"
    using tables_okD(3) [OF ok t] .
  note dir = s(6) [OF gD [symmetric]]
  define st' where "st' = tlb (Invlpg (PTE t 0)) (set_word ?D t 0 (pm_free ?g s))"
  have un: "unmaptable t s = Some (0, st')"
    using unmaptable_eq [of s t] s(4) t unfolding cr3 dir st'_def by simp
  have f: "pt_cr3 st' = pt_cr3 st" "untouched st st'" "pt_frames st' = pt_frames st"
    "pt_freed st' = pt_freed st @ table_frames st t" "pt_phys st' ?D = (pt_phys st ?D)(t := 0)"
    "\<And>h. h \<noteq> ?D \<Longrightarrow> h \<noteq> ?g \<Longrightarrow> pt_phys st' h = pt_phys st h"
    using s(2,3,5,6) t(2) dir by (simp_all add: st'_def cr3 untouched_def table_frames_def)
  have "tables_ok st'"
    using ok t(1) unfolding tables_ok_def f(1,5) by auto
  moreover have "same_table st st' u" if u: "u < 1023" "u \<noteq> t" for u
    unfolding same_table_def f(1,5)
    using u f(6) tables_okD(3) [OF ok u(1)] tables_okD(4) [OF ok u(1) t(1) _ t(2) u(2)] by simp
  moreover have "\<not> present (pde st' t)"
    unfolding f(1,5) by simp
  ultimately have "torn [t] st st'"
    using f(2,3,4) unfolding torn_def by auto
  with s(1) un show thesis
    by (rule that)
qed

lemma torn_none: "tables_ok st \<Longrightarrow> t < 1023 \<Longrightarrow> \<not> present (pde st t) \<Longrightarrow> torn [t] st st"
  by (simp add: torn_def untouched_def table_frames_def same_table_def)

lemma torn_append:
  assumes "torn ts st s" "torn us s st'" "set us \<inter> set ts = {}" "\<forall>u \<in> set us. u < 1023"
  shows "torn (ts @ us) st st'"
proof -
  have "table_frames s u = table_frames st u" if "u \<in> set us" for u
  proof (rule same_table_frames)
    have "u \<notin> set ts" "u < 1023"
      using assms(3,4) that by auto
    then show "same_table st s u"
      using assms(1) by (simp add: torn_def)
  qed
  then have "concat (map (table_frames s) us) = concat (map (table_frames st) us)"
    by (simp cong: map_cong)
  moreover have "\<not> present (pde st' t)" if "t < 1023" "t \<in> set ts" for t
  proof -
    have "t \<notin> set us" "\<not> present (pde s t)"
      using assms(1,3) that by (auto simp: torn_def)
    then show ?thesis
      using assms(2) that(1) by (auto simp: torn_def same_table_def)
  qed
  ultimately show ?thesis
    using assms(1,2) untouched_trans [of st s st'] same_table_trans [of st s _ st'] unfolding torn_def by auto
qed

lemma proc_unmap_pdes_spec:
  assumes "tables_ok st" "i + n \<le> 1023"
  shows "\<exists>st'. proc_unmap_pdes i n st = Some st' \<and> torn [i ..< i + n] st st'"
  using assms
proof (induction n arbitrary: i st)
  case 0
  then show ?case
    by (simp add: torn_def untouched_def same_table_def)
next
  case (Suc n)
  have i: "i < 1023" "i < 1024"
    using Suc.prems by simp_all
  have "\<exists>s. (if present (pde st i) then do { st \<leftarrow> proc_unmap_ptes i 0 1024 st; (_, st) \<leftarrow> unmaptable i st; Some st } else Some st) = Some s
    \<and> torn [i] st s"
  proof (cases "present (pde st i)")
    case True
    obtain st' s e where "proc_unmap_ptes i 0 1024 st = Some s" "unmaptable i s = Some (e, st')" "torn [i] st st'"
      by (rule torn_table [OF Suc.prems(1) i(1) True])
    then show ?thesis
      using True by (simp del: proc_unmap_ptes.simps)
  qed (use torn_none Suc.prems(1) i(1) in simp)
  then obtain s where s: "(if present (pde st i) then do { st \<leftarrow> proc_unmap_ptes i 0 1024 st; (_, st) \<leftarrow> unmaptable i st; Some st } else Some st) = Some s"
    "torn [i] st s"
    by blast
  have "tables_ok s"
    using s(2) by (simp add: torn_def)
  then obtain st' where r: "proc_unmap_pdes (Suc i) n s = Some st'" "torn [Suc i ..< Suc i + n] s st'"
    using Suc.IH [of s "Suc i"] Suc.prems(2) by auto
  have "torn ([i] @ [Suc i ..< Suc i + n]) st st'"
    using Suc.prems(2) by (intro torn_append [OF s(2) r(2)]) auto
  moreover have "[i ..< i + Suc n] = [i] @ [Suc i ..< Suc i + n]"
    by (simp add: upt_conv_Cons)
  moreover have "proc_unmap_pdes i (Suc n) st = Some st'"
    unfolding proc_unmap_pdes.simps vload_PDE [OF tables_self [OF Suc.prems(1)] i(2)] Option.bind.simps s(1) by (rule r(1))
  ultimately show ?case
    by simp
qed


text \<open>C6. \<^verbatim>\<open>paging_proc_unmap\<close> on the directory of a dying process returns to the directory it was called with,
  leaves no address of the user half (below entry 768) translated in the dead one and every other
  translation as it was, and gives back, once for each entry, the frame of every page and of every table.
\<close>

theorem proc_unmap_frees_user_half:
  assumes old: "pt_cr3 st \<noteq> 0" "pgdir st = pt_cr3 st" and pgd: "pgd \<noteq> 0" and ok: "tables_ok (st\<lparr>pt_cr3 := pground pgd\<rparr>)"
  shows "\<exists>st'. paging_proc_unmap pgd st = Some st' \<and> pt_cr3 st' = pt_cr3 st
    \<and> pt_freed st' = pt_freed st @ concat (map (table_frames (st\<lparr>pt_cr3 := pground pgd\<rparr>)) [0 ..< 768])
    \<and> (\<forall>w. below_window w \<longrightarrow> walk (st'\<lparr>pt_cr3 := pground pgd\<rparr>) w
        = (if V_PDI w < 768 then None else walk (st\<lparr>pt_cr3 := pground pgd\<rparr>) w))"
proof -
  define a where "a = st\<lparr>pt_cr3 := pground pgd\<rparr>"
  define b where "b = tlb Flush a"
  have sw: "paging_switch pgd st = (pt_cr3 st, b)"
    using pgd by (simp add: paging_switch_def b_def a_def Let_def)
  have "tables_ok b"
    using ok by (simp add: b_def a_def tables_ok_def)
  then obtain c where c: "proc_unmap_pdes 0 768 b = Some c" "torn [0 ..< 768] b c"
    using proc_unmap_pdes_spec [of b 0 768] by auto
  define st' where "st' = tlb Flush (c\<lparr>pt_cr3 := pground (pt_cr3 st)\<rparr>)"
  have "paging_proc_unmap pgd st = Some st'"
    unfolding paging_proc_unmap_def sw using c(1) old(1)
    by (simp add: paging_switch_def st'_def Let_def del: proc_unmap_pdes.simps)
  moreover have "pt_cr3 st' = pt_cr3 st"
    using old(2) by (simp add: st'_def)
  moreover have "pt_freed st' = pt_freed st @ concat (map (table_frames a) [0 ..< 768])"
  proof -
    have "table_frames b = table_frames a" "pt_freed b = pt_freed st"
      by (simp_all add: b_def a_def table_frames_def fun_eq_iff)
    then show ?thesis
      using c(2) by (simp add: torn_def st'_def del: upt_rec_numeral)
  qed
  moreover have "walk (st'\<lparr>pt_cr3 := pground pgd\<rparr>) w = (if V_PDI w < 768 then None else walk a w)" if w: "below_window w" for w
  proof -
    have "pt_cr3 c = pground pgd"
      using c(2) by (simp add: torn_def untouched_def b_def a_def)
    then have "walk (st'\<lparr>pt_cr3 := pground pgd\<rparr>) = walk c"
      by (intro walk_cong) (simp_all add: st'_def)
    moreover have "walk a = walk b"
      by (intro walk_cong) (simp_all add: b_def)
    moreover have "walk c w = (if V_PDI w < 768 then None else walk b w)"
    proof (cases "V_PDI w < 768")
      case True
      with torn_gone [OF c(2) w] have "\<not> present (pde c (V_PDI w))"
        by simp
      with True show ?thesis
        by (simp add: walk_def)
    next
      case False
      with torn_same [OF c(2) w] have "same_table b c (V_PDI w)"
        by simp
      with False show ?thesis
        by (simp add: same_table_walk)
    qed
    ultimately show ?thesis
      by simp
  qed
  ultimately show ?thesis
    unfolding a_def by blast
qed

text \<open>A dying directory at 0x6000 that maps one user page, at 0x400000, with the table at 0x7000 and the frame 0x8000.\<close>

definition dying_pt :: paging where
  "dying_pt = demo_pt\<lparr>pt_phys := (\<lambda>f i. if f = 0x1000 \<and> i = 1023 then 0x1003 else if f = 0x6000 \<and> i = 1023 then 0x6003
     else if f = 0x6000 \<and> i = 1 then 0x7007 else if f = 0x7000 \<and> i = 0 then 0x8007 else 0)\<rparr>"

lemma dying_pt_ok: "tables_ok (dying_pt\<lparr>pt_cr3 := 0x6000\<rparr>)"
  by (simp add: tables_ok_def dying_pt_def)

theorem proc_unmap_frees_user_half_witness:
  "\<exists>st'. paging_proc_unmap 0x6000 dying_pt = Some st' \<and> pt_cr3 st' = 0x1000
    \<and> walk dying_pt 0x400000 = None \<and> walk (dying_pt\<lparr>pt_cr3 := 0x6000\<rparr>) 0x400000 = Some 0x8007
    \<and> walk (st'\<lparr>pt_cr3 := 0x6000\<rparr>) 0x400000 = None"
proof -
  have i: "V_PDI 0x400000 = 1" "V_PTI 0x400000 = 0" "pt_cr3 dying_pt = 0x1000"
    by (simp_all add: V_PDI_nat V_PTI_nat dying_pt_def demo_pt_def)
  have w: "walk dying_pt 0x400000 = None" "walk (dying_pt\<lparr>pt_cr3 := 0x6000\<rparr>) 0x400000 = Some 0x8007"
    using i by (simp_all add: walk_def dying_pt_def Let_def)
  show ?thesis
    using proc_unmap_frees_user_half [of dying_pt "0x6000"] i w dying_pt_ok by (auto simp del: upt_rec_numeral)
qed

end
