(* ===== verification/Sched.thy ===== *)
theory Sched
  imports Spinlock
begin

text \<open>
  Threads on queues (\<^verbatim>\<open>kernel/sys/sched/queues.c\<close>, \<^verbatim>\<open>sched.c\<close>, the queue operations of \<^verbatim>\<open>kernel/sys/threads/thread.c\<close> and
  \<^verbatim>\<open>thread_helpers.c\<close>), and the condition variables, mutexes and events of \<^verbatim>\<open>kernel/locks\<close> that put threads to sleep.
  Queues are taken by their contents, which is what \<open>Queue\<close> shows of \<^verbatim>\<open>enqueue\<close>, \<^verbatim>\<open>dequeue\<close> and \<^verbatim>\<open>queue_remove\<close>; a thread
  is on a queue exactly when the queue is on the thread's own list of queues. An operation that sleeps is
  split where \<^verbatim>\<open>sched\<close> leaves the thread. The interrupt nesting is state of the CPU and not part of this state, and neither are the
  register contexts, the FPU and the page directory that \<^verbatim>\<open>schedule\<close> switches; \<^verbatim>\<open>sched\<close> is taken to leave the thread, without
  its early return for a thread that was parked and woken at once.
\<close>

section \<open>State\<close>

datatype tstate = T_EMBRYO | T_ISLEEP | T_READY | T_RUNNING | T_ZOMBIE | T_STOPPED | T_TERMINATED

record kqueue =
  kq_items :: "ptr list"
  kq_lk :: spinlock

record thread =
  t_tid :: int
  t_state :: tstate
  t_exit :: int
  t_killer :: int
  t_flags :: u32
  t_lk :: spinlock
  t_core :: ptr
  t_affinity :: u32
  t_priority :: u32
  t_timeslice :: u32
  t_group :: ptr
  t_queues :: ptr
  sleep_queue :: ptr
  sleep_guard :: ptr
  t_wait :: ptr

record cond =
  cv_guard :: ptr
  cv_count :: u32
  cv_waiters :: ptr

record mutex =
  mx_lock :: u32
  mx_waiters :: ptr
  mx_thread :: ptr
  mx_guard :: ptr

record event =
  ev_event :: u32
  ev_queue :: ptr
  ev_guard :: ptr

text \<open>
  The ready queues of a core are pairs of a queue and its quantum, by level. \<open>sc_nodes\<close> holds the outcomes of
  the allocations of queue nodes to come; an empty list is a failure.
\<close>

record sched =
  sc_threads :: "ptr \<Rightarrow> thread option"
  sc_queues :: "ptr \<Rightarrow> kqueue option"
  sc_levels :: "ptr \<Rightarrow> (ptr \<times> u32) list"
  sc_guards :: "ptr \<Rightarrow> spinlock option"
  sc_conds :: "ptr \<Rightarrow> cond option"
  sc_nthreads :: "ptr \<Rightarrow> u32"
  sc_embryo :: ptr
  sc_zombie :: ptr
  sc_nodes :: "bool list"

abbreviation THREAD_SETPARK :: u32 where "THREAD_SETPARK \<equiv> 4"
abbreviation THREAD_SETWAKEUP :: u32 where "THREAD_SETWAKEUP \<equiv> 8"
abbreviation THREAD_KILLED :: u32 where "THREAD_KILLED \<equiv> 0x10"
abbreviation SCHED_LOWEST_PRIORITY :: u32 where "SCHED_LOWEST_PRIORITY \<equiv> 255"
abbreviation ESRCH :: int where "ESRCH \<equiv> 3"

section \<open>Queues and locks\<close>

definition sq_lock :: "ptr \<Rightarrow> ptr \<Rightarrow> sched \<Rightarrow> sched option" where
  "sq_lock cpu q st = do {
     k \<leftarrow> sc_queues st q;
     lk \<leftarrow> lk_acquire cpu (kq_lk k);
     Some (st\<lparr>sc_queues := (sc_queues st)(q \<mapsto> k\<lparr>kq_lk := lk\<rparr>)\<rparr>)
   }"

definition sq_unlock :: "ptr \<Rightarrow> ptr \<Rightarrow> sched \<Rightarrow> sched option" where
  "sq_unlock cpu q st = do {
     k \<leftarrow> sc_queues st q;
     lk \<leftarrow> lk_release cpu (kq_lk k);
     Some (st\<lparr>sc_queues := (sc_queues st)(q \<mapsto> k\<lparr>kq_lk := lk\<rparr>)\<rparr>)
   }"

definition sq_enqueue :: "ptr \<Rightarrow> ptr \<Rightarrow> ptr \<Rightarrow> sched \<Rightarrow> (bool \<times> sched) option" where
  "sq_enqueue cpu q x st = do {
     k \<leftarrow> sc_queues st q;
     kassert (spin_holding cpu (kq_lk k));
     let ok = fst_or False (sc_nodes st);
     let st = st\<lparr>sc_nodes := tl (sc_nodes st)\<rparr>;
     if ok then Some (True, st\<lparr>sc_queues := (sc_queues st)(q \<mapsto> k\<lparr>kq_items := kq_items k @ [x]\<rparr>)\<rparr>)
     else Some (False, st)
   }"

definition sq_dequeue :: "ptr \<Rightarrow> ptr \<Rightarrow> sched \<Rightarrow> (ptr \<times> sched) option" where
  "sq_dequeue cpu q st = do {
     k \<leftarrow> sc_queues st q;
     kassert (spin_holding cpu (kq_lk k));
     case kq_items k of
       [] \<Rightarrow> Some (NULL, st)
     | x # xs \<Rightarrow> Some (x, st\<lparr>sc_queues := (sc_queues st)(q \<mapsto> k\<lparr>kq_items := xs\<rparr>)\<rparr>)
   }"

definition sq_remove :: "ptr \<Rightarrow> ptr \<Rightarrow> ptr \<Rightarrow> sched \<Rightarrow> (int \<times> sched) option" where
  "sq_remove cpu q x st = do {
     k \<leftarrow> sc_queues st q;
     kassert (spin_holding cpu (kq_lk k));
     if x \<in> set (kq_items k) then Some (0, st\<lparr>sc_queues := (sc_queues st)(q \<mapsto> k\<lparr>kq_items := remove1 x (kq_items k)\<rparr>)\<rparr>)
     else Some (- ENOENT, st)
   }"

definition set_thread :: "ptr \<Rightarrow> thread \<Rightarrow> sched \<Rightarrow> sched" where
  "set_thread t th st = st\<lparr>sc_threads := (sc_threads st)(t \<mapsto> th)\<rparr>"

definition thread_lock :: "ptr \<Rightarrow> ptr \<Rightarrow> sched \<Rightarrow> sched option" where
  "thread_lock cpu t st = do {
     th \<leftarrow> sc_threads st t;
     lk \<leftarrow> lk_acquire cpu (t_lk th);
     Some (set_thread t (th\<lparr>t_lk := lk\<rparr>) st)
   }"

definition thread_unlock :: "ptr \<Rightarrow> ptr \<Rightarrow> sched \<Rightarrow> sched option" where
  "thread_unlock cpu t st = do {
     th \<leftarrow> sc_threads st t;
     lk \<leftarrow> lk_release cpu (t_lk th);
     Some (set_thread t (th\<lparr>t_lk := lk\<rparr>) st)
   }"

text \<open>\<^verbatim>\<open>thread_assert_lock\<close>; the thread is returned for its fields.\<close>

definition thread_locked :: "ptr \<Rightarrow> ptr \<Rightarrow> sched \<Rightarrow> thread option" where
  "thread_locked cpu t st = do { th \<leftarrow> sc_threads st t; kassert (spin_holding cpu (t_lk th)); Some th }"

definition thread_enter_state :: "ptr \<Rightarrow> ptr \<Rightarrow> tstate \<Rightarrow> sched \<Rightarrow> sched option" where
  "thread_enter_state cpu t s st = do { th \<leftarrow> thread_locked cpu t st; Some (set_thread t (th\<lparr>t_state := s\<rparr>) st) }"

definition guard_lock :: "ptr \<Rightarrow> ptr \<Rightarrow> sched \<Rightarrow> sched option" where
  "guard_lock cpu g st = do {
     lk \<leftarrow> sc_guards st g;
     lk \<leftarrow> lk_acquire cpu lk;
     Some (st\<lparr>sc_guards := (sc_guards st)(g \<mapsto> lk)\<rparr>)
   }"

definition guard_unlock :: "ptr \<Rightarrow> ptr \<Rightarrow> sched \<Rightarrow> sched option" where
  "guard_unlock cpu g st = do {
     lk \<leftarrow> sc_guards st g;
     lk \<leftarrow> lk_release cpu lk;
     Some (st\<lparr>sc_guards := (sc_guards st)(g \<mapsto> lk)\<rparr>)
   }"


section \<open>Threads on queues\<close>

definition thread_enqueue :: "ptr \<Rightarrow> ptr \<Rightarrow> ptr \<Rightarrow> sched \<Rightarrow> (int \<times> sched) option" where
  "thread_enqueue cpu q t st = do {
     th \<leftarrow> sc_threads st t;
     let tq = t_queues th;
     st \<leftarrow> sq_lock cpu q st;
     st \<leftarrow> sq_lock cpu tq st;
     (ok, st) \<leftarrow> sq_enqueue cpu q t st;
     if \<not> ok then do {
       st \<leftarrow> sq_unlock cpu tq st;
       st \<leftarrow> sq_unlock cpu q st;
       Some (- ENOMEM, st)
     }
     else do {
       (ok, st) \<leftarrow> sq_enqueue cpu tq q st;
       if \<not> ok then do {
         (_, st) \<leftarrow> sq_remove cpu q t st;
         st \<leftarrow> sq_unlock cpu tq st;
         st \<leftarrow> sq_unlock cpu q st;
         Some (- ENOMEM, st)
       }
       else do {
         st \<leftarrow> sq_unlock cpu tq st;
         st \<leftarrow> sq_unlock cpu q st;
         Some (0, st)
       }
     }
   }"

definition thread_dequeue :: "ptr \<Rightarrow> ptr \<Rightarrow> sched \<Rightarrow> (ptr \<times> sched) option" where
  "thread_dequeue cpu q st = do {
     (t, st) \<leftarrow> sq_dequeue cpu q st;
     if t = NULL then Some (NULL, st)
     else do {
       st \<leftarrow> thread_lock cpu t st;
       th \<leftarrow> sc_threads st t;
       st \<leftarrow> sq_lock cpu (t_queues th) st;
       (err, st) \<leftarrow> sq_remove cpu (t_queues th) q st;
       kassert (err = 0);
       st \<leftarrow> sq_unlock cpu (t_queues th) st;
       Some (t, st)
     }
   }"

definition thread_remove_queue :: "ptr \<Rightarrow> ptr \<Rightarrow> ptr \<Rightarrow> sched \<Rightarrow> (int \<times> sched) option" where
  "thread_remove_queue cpu t q st = do {
     k \<leftarrow> sc_queues st q;
     kassert (spin_holding cpu (kq_lk k));
     th \<leftarrow> thread_locked cpu t st;
     st \<leftarrow> sq_lock cpu (t_queues th) st;
     (err, st) \<leftarrow> sq_remove cpu (t_queues th) q st;
     if err \<noteq> 0 then do { st \<leftarrow> sq_unlock cpu (t_queues th) st; Some (err, st) }
     else do {
       st \<leftarrow> sq_unlock cpu (t_queues th) st;
       sq_remove cpu q t st
     }
   }"


section \<open>The ready queues\<close>

definition SCHED_LEVEL :: "u32 \<Rightarrow> nat" where
  "SCHED_LEVEL p = unat p div 32"

definition sched_park :: "ptr \<Rightarrow> ptr \<Rightarrow> sched \<Rightarrow> (int \<times> sched) option" where
  "sched_park cpu t st = do {
     th \<leftarrow> thread_locked cpu t st;
     if t_state th = T_EMBRYO then thread_enqueue cpu (sc_embryo st) t st
     else do {
       let th = (if t_core th = NULL then th\<lparr>t_core := cpu\<rparr> else th);
       kassert (t_affinity th = 0 \<or> t_affinity th = 1);
       kassert (SCHED_LEVEL (t_priority th) < length (sc_levels st (t_core th)));
       let (q, quatum) = sc_levels st (t_core th) ! SCHED_LEVEL (t_priority th);
       thread_enqueue cpu q t (set_thread t (th\<lparr>t_timeslice := quatum\<rparr>) st)
     }
   }"

fun next_level :: "ptr \<Rightarrow> (ptr \<times> u32) list \<Rightarrow> sched \<Rightarrow> (ptr \<times> sched) option" where
  "next_level cpu [] st = Some (NULL, st)"
| "next_level cpu ((q, quatum) # ls) st = do {
     st \<leftarrow> sq_lock cpu q st;
     (t, st) \<leftarrow> thread_dequeue cpu q st;
     if t = NULL then do { st \<leftarrow> sq_unlock cpu q st; next_level cpu ls st }
     else do {
       th \<leftarrow> sc_threads st t;
       let st = set_thread t (th\<lparr>t_state := T_RUNNING, t_timeslice := quatum\<rparr>) st;
       st \<leftarrow> sq_unlock cpu q st;
       Some (t, st)
     }
   }"

definition sched_embryo :: "ptr \<Rightarrow> sched \<Rightarrow> sched option" where
  "sched_embryo cpu st = do {
     st \<leftarrow> sq_lock cpu (sc_embryo st) st;
     (t, st) \<leftarrow> thread_dequeue cpu (sc_embryo st) st;
     st \<leftarrow> sq_unlock cpu (sc_embryo st) st;
     if t = NULL then Some st
     else do {
       st \<leftarrow> thread_enter_state cpu t T_READY st;
       (err, st) \<leftarrow> sched_park cpu t st;
       kassert (err = 0);
       thread_unlock cpu t st
     }
   }"

definition sched_next :: "ptr \<Rightarrow> sched \<Rightarrow> (ptr \<times> sched) option" where
  "sched_next cpu st = do { st \<leftarrow> sched_embryo cpu st; next_level cpu (sc_levels st cpu) st }"

definition sched_setattr :: "ptr \<Rightarrow> ptr \<Rightarrow> int \<Rightarrow> int \<Rightarrow> ptr list \<Rightarrow> sched \<Rightarrow> (int \<times> sched) option" where
  "sched_setattr cpu t affinity core cpus st = do {
     th \<leftarrow> thread_locked cpu t st;
     if affinity < 0 \<or> affinity > 1 then Some (- EINVAL, st)
     else if core < 0 \<or> core > int (length cpus) - 1 then Some (- EINVAL, st)
     else Some (0, set_thread t (th\<lparr>t_affinity := of_int affinity, t_core := cpus ! nat core\<rparr>) st)
   }"

definition sched_set_priority :: "ptr \<Rightarrow> ptr \<Rightarrow> int \<Rightarrow> sched \<Rightarrow> sched option" where
  "sched_set_priority cpu t priority st = do {
     th \<leftarrow> thread_locked cpu t st;
     let priority = (if priority < 0 \<or> priority > 255 then 255 else priority);
     Some (set_thread t (th\<lparr>t_priority := of_int priority\<rparr>) st)
   }"


section \<open>Sleeping and waking\<close>

text \<open>\<^verbatim>\<open>xched_sleep\<close> up to the call of \<^verbatim>\<open>sched\<close>, and from its return on; \<open>g\<close> is \<open>NULL\<close> when there is no guard.\<close>

definition xched_sleep_enter :: "ptr \<Rightarrow> ptr \<Rightarrow> ptr \<Rightarrow> ptr \<Rightarrow> sched \<Rightarrow> (int \<times> sched) option" where
  "xched_sleep_enter cpu cur q g st = do {
     th \<leftarrow> thread_locked cpu cur st;
     (err, st) \<leftarrow> thread_enqueue cpu q cur st;
     if err \<noteq> 0 then Some (err, st)
     else do {
       th \<leftarrow> sc_threads st cur;
       let st = set_thread cur (th\<lparr>sleep_guard := g, t_state := T_ISLEEP, sleep_queue := q\<rparr>) st;
       st \<leftarrow> (if g \<noteq> NULL then guard_unlock cpu g st else Some st);
       Some (0, st)
     }
   }"

definition xched_sleep_return :: "ptr \<Rightarrow> ptr \<Rightarrow> ptr \<Rightarrow> sched \<Rightarrow> (int \<times> sched) option" where
  "xched_sleep_return cpu cur g st = do {
     st \<leftarrow> (if g \<noteq> NULL then guard_lock cpu g st else Some st);
     th \<leftarrow> thread_locked cpu cur st;
     Some (if t_flags th AND THREAD_KILLED \<noteq> 0 then - EINTR else 0, set_thread cur (th\<lparr>sleep_queue := NULL\<rparr>) st)
   }"

text \<open>The variable \<^verbatim>\<open>woken\<close> of \<^verbatim>\<open>xched_wake1\<close> is never set: the result is 0 also when a thread was woken.\<close>

definition xched_wake1 :: "ptr \<Rightarrow> ptr \<Rightarrow> sched \<Rightarrow> (int \<times> sched) option" where
  "xched_wake1 cpu q st = do {
     st \<leftarrow> sq_lock cpu q st;
     (t, st) \<leftarrow> thread_dequeue cpu q st;
     st \<leftarrow> sq_unlock cpu q st;
     if t = NULL then Some (0, st)
     else do {
       st \<leftarrow> thread_enter_state cpu t T_READY st;
       (_, st) \<leftarrow> sched_park cpu t st;
       st \<leftarrow> thread_unlock cpu t st;
       Some (0, st)
     }
   }"

definition thread_wake_n :: "ptr \<Rightarrow> ptr \<Rightarrow> sched \<Rightarrow> (int \<times> sched) option" where
  "thread_wake_n cpu t st = do {
     th \<leftarrow> thread_locked cpu t st;
     let th = (if t_flags th AND THREAD_SETPARK \<noteq> 0 then th\<lparr>t_flags := t_flags th OR THREAD_SETWAKEUP\<rparr> else th);
     let st = set_thread t th st;
     if t_state th \<noteq> T_ISLEEP \<or> t_state th = T_ZOMBIE \<or> t_state th = T_TERMINATED then Some (0, st)
     else do {
       kassert (sleep_queue th \<noteq> NULL);
       let g = sleep_guard th;
       (held, st) \<leftarrow> (if g \<noteq> NULL then do {
           lk \<leftarrow> sc_guards st g;
           if \<not> spin_holding cpu lk then do { st \<leftarrow> guard_lock cpu g st; Some (True, st) } else Some (False, st)
         } else Some (False, st));
       (err, st) \<leftarrow> thread_remove_queue cpu t (sleep_queue th) st;
       st \<leftarrow> (if g \<noteq> NULL \<and> held then guard_unlock cpu g st else Some st);
       if err \<noteq> 0 then Some (err, st)
       else do {
         th \<leftarrow> thread_locked cpu t st;
         if t_state th = T_ZOMBIE \<or> t_state th = T_TERMINATED then Some (0, st)
         else do {
           st \<leftarrow> thread_enter_state cpu t T_READY st;
           sched_park cpu t st
         }
       }
     }
   }"

text \<open>The loop of \<^verbatim>\<open>xched_wakeall\<close> reads the next node before it wakes a thread, so it goes over the threads that
  were on the queue at the start.\<close>

fun wakeall_loop :: "ptr \<Rightarrow> ptr list \<Rightarrow> sched \<Rightarrow> sched option" where
  "wakeall_loop cpu [] st = Some st"
| "wakeall_loop cpu (t # ts) st = do {
     st \<leftarrow> thread_lock cpu t st;
     (err, st) \<leftarrow> thread_wake_n cpu t st;
     kassert (err = 0);
     st \<leftarrow> thread_unlock cpu t st;
     wakeall_loop cpu ts st
   }"

definition xched_wakeall :: "ptr \<Rightarrow> ptr \<Rightarrow> sched \<Rightarrow> (int \<times> sched) option" where
  "xched_wakeall cpu q st = do {
     st \<leftarrow> sq_lock cpu q st;
     k \<leftarrow> sc_queues st q;
     let count = int (length (kq_items k));
     st \<leftarrow> wakeall_loop cpu (kq_items k) st;
     st \<leftarrow> sq_unlock cpu q st;
     Some (count, st)
   }"


section \<open>Condition variables and the end of a thread\<close>

definition cond_wait_enter :: "ptr \<Rightarrow> ptr \<Rightarrow> ptr \<Rightarrow> sched \<Rightarrow> ((int option) \<times> sched) option" where
  "cond_wait_enter cpu cur c st = do {
     cv \<leftarrow> sc_conds st c;
     st \<leftarrow> guard_lock cpu (cv_guard cv) st;
     let old = cv_count cv;
     let st = st\<lparr>sc_conds := (sc_conds st)(c \<mapsto> cv\<lparr>cv_count := old + 1\<rparr>)\<rparr>;
     if sint old \<ge> 0 then do {
       st \<leftarrow> thread_lock cpu cur st;
       (err, st) \<leftarrow> xched_sleep_enter cpu cur (cv_waiters cv) (cv_guard cv) st;
       if err \<noteq> 0 then do {
         st \<leftarrow> thread_unlock cpu cur st;
         st \<leftarrow> guard_unlock cpu (cv_guard cv) st;
         Some (Some err, st)
       }
       else Some (None, st)
     }
     else do { st \<leftarrow> guard_unlock cpu (cv_guard cv) st; Some (Some 0, st) }
   }"

definition cond_wait_return :: "ptr \<Rightarrow> ptr \<Rightarrow> ptr \<Rightarrow> sched \<Rightarrow> (int \<times> sched) option" where
  "cond_wait_return cpu cur c st = do {
     cv \<leftarrow> sc_conds st c;
     (err, st) \<leftarrow> xched_sleep_return cpu cur (cv_guard cv) st;
     st \<leftarrow> thread_unlock cpu cur st;
     st \<leftarrow> guard_unlock cpu (cv_guard cv) st;
     Some (err, st)
   }"

definition cond_signal :: "ptr \<Rightarrow> ptr \<Rightarrow> sched \<Rightarrow> sched option" where
  "cond_signal cpu c st = do {
     cv \<leftarrow> sc_conds st c;
     st \<leftarrow> guard_lock cpu (cv_guard cv) st;
     (_, st) \<leftarrow> xched_wake1 cpu (cv_waiters cv) st;
     let st = st\<lparr>sc_conds := (sc_conds st)(c \<mapsto> cv\<lparr>cv_count := cv_count cv - 1\<rparr>)\<rparr>;
     guard_unlock cpu (cv_guard cv) st
   }"

definition cond_broadcast :: "ptr \<Rightarrow> ptr \<Rightarrow> sched \<Rightarrow> sched option" where
  "cond_broadcast cpu c st = do {
     cv \<leftarrow> sc_conds st c;
     st \<leftarrow> guard_lock cpu (cv_guard cv) st;
     (waiters, st) \<leftarrow> xched_wakeall cpu (cv_waiters cv) st;
     let st = st\<lparr>sc_conds := (sc_conds st)(c \<mapsto> cv\<lparr>cv_count := (if waiters = 0 then -1 else 0)\<rparr>)\<rparr>;
     guard_unlock cpu (cv_guard cv) st
   }"

definition sched_zombie :: "ptr \<Rightarrow> ptr \<Rightarrow> sched \<Rightarrow> (int \<times> sched) option" where
  "sched_zombie cpu t st = do {
     th \<leftarrow> thread_locked cpu t st;
     (err, st) \<leftarrow> thread_enqueue cpu (sc_zombie st) t st;
     if err \<noteq> 0 then Some (err, st)
     else do {
       let st = st\<lparr>sc_nthreads := (sc_nthreads st)(t_group th := sc_nthreads st (t_group th) - 1)\<rparr>;
       st \<leftarrow> cond_broadcast cpu (t_wait th) st;
       Some (0, st)
     }
   }"

text \<open>
  The loop of \<^verbatim>\<open>schedule\<close> around a running thread: a killed thread is buried and not run, and the state of a
  thread that has called \<^verbatim>\<open>sched\<close> says where it goes.
\<close>

definition schedule_pick :: "ptr \<Rightarrow> sched \<Rightarrow> (ptr \<times> sched) option" where
  "schedule_pick cpu st = do {
     (t, st) \<leftarrow> sched_next cpu st;
     if t = NULL then Some (NULL, st)
     else do {
       th \<leftarrow> thread_locked cpu t st;
       if t_flags th AND THREAD_KILLED \<noteq> 0 then do {
         let st = set_thread t (th\<lparr>t_state := T_ZOMBIE, t_exit := - EINTR\<rparr>) st;
         (_, st) \<leftarrow> sched_zombie cpu t st;
         st \<leftarrow> thread_unlock cpu t st;
         Some (NULL, st)
       }
       else Some (t, st)
     }
   }"

definition schedule_put :: "ptr \<Rightarrow> ptr \<Rightarrow> sched \<Rightarrow> sched option" where
  "schedule_put cpu t st = do {
     th \<leftarrow> thread_locked cpu t st;
     case t_state th of
       T_ZOMBIE \<Rightarrow> do { (err, st) \<leftarrow> sched_zombie cpu t st; kassert (err = 0); thread_unlock cpu t st }
     | T_READY \<Rightarrow> do { (_, st) \<leftarrow> sched_park cpu t st; thread_unlock cpu t st }
     | T_ISLEEP \<Rightarrow> thread_unlock cpu t st
     | _ \<Rightarrow> None
   }"

definition sched_yield_enter :: "ptr \<Rightarrow> ptr \<Rightarrow> sched \<Rightarrow> sched option" where
  "sched_yield_enter cpu cur st = do {
     st \<leftarrow> thread_lock cpu cur st;
     thread_enter_state cpu cur T_READY st
   }"

definition thread_kill_n :: "ptr \<Rightarrow> ptr \<Rightarrow> int \<Rightarrow> ptr \<Rightarrow> sched \<Rightarrow> (int \<times> sched) option" where
  "thread_kill_n cpu cur self t st =
    (if t = cur then Some (0, st)
     else do {
       th \<leftarrow> thread_locked cpu t st;
       if t_state th = T_ZOMBIE \<or> t_state th = T_TERMINATED \<or> t_flags th AND THREAD_KILLED \<noteq> 0 then Some (0, st)
       else Some (0, set_thread t (th\<lparr>t_flags := t_flags th OR THREAD_KILLED, t_killer := self\<rparr>) st)
     })"

fun get_loop :: "ptr \<Rightarrow> int \<Rightarrow> ptr list \<Rightarrow> sched \<Rightarrow> (ptr \<times> sched) option" where
  "get_loop cpu tid [] st = Some (NULL, st)"
| "get_loop cpu tid (t # ts) st = do {
     st \<leftarrow> thread_lock cpu t st;
     th \<leftarrow> sc_threads st t;
     if t_tid th = tid then Some (t, st)
     else do { st \<leftarrow> thread_unlock cpu t st; get_loop cpu tid ts st }
   }"

definition queue_get_thread :: "ptr \<Rightarrow> ptr \<Rightarrow> int \<Rightarrow> ptr \<Rightarrow> int \<Rightarrow> sched \<Rightarrow> (int \<times> ptr \<times> sched) option" where
  "queue_get_thread cpu cur self q tid st =
    (if q = NULL \<or> tid < 0 then Some (- EINVAL, NULL, st)
     else if tid = self then Some (0, cur, st)
     else do {
       k \<leftarrow> sc_queues st q;
       kassert (spin_holding cpu (kq_lk k));
       (t, st) \<leftarrow> get_loop cpu tid (kq_items k) st;
       Some (if t = NULL then - ESRCH else 0, t, st)
     })"

end
