(* ===== verification/Sleep_Locks.thy ===== *)
theory Sleep_Locks
  imports Sched
begin

text \<open>
  Mutexes and events (\<^verbatim>\<open>kernel/locks/mutex.c\<close>, \<^verbatim>\<open>event.c\<close>) on the sleep queues of \<open>Sched\<close>. The critical sections under the
  guard of a mutex are the steps of a relation that interleaves any number of threads; it shows mutual
  exclusion for \<^verbatim>\<open>mutex_lock\<close> and \<^verbatim>\<open>mutex_unlock\<close>, and a run that breaks it with \<^verbatim>\<open>mutex_try_lock\<close>.
\<close>

declare neq0_conv [iff del] bot_nat_0.not_eq_extremum [simp del]

section \<open>Operations\<close>

text \<open>The first component is the value returned, or \<open>None\<close> for a thread that has gone to sleep.\<close>

definition mutex_lock_enter :: "ptr \<Rightarrow> ptr \<Rightarrow> mutex \<Rightarrow> sched \<Rightarrow> (int option \<times> mutex \<times> sched) option" where
  "mutex_lock_enter cpu cur mx st = do {
     st \<leftarrow> guard_lock cpu (mx_guard mx) st;
     kassert (mx_thread mx \<noteq> cur);
     let old = mx_lock mx;
     let mx = mx\<lparr>mx_lock := old + 1\<rparr>;
     if sint old > 0 then do {
       st \<leftarrow> thread_lock cpu cur st;
       (err, st) \<leftarrow> xched_sleep_enter cpu cur (mx_waiters mx) (mx_guard mx) st;
       if err \<noteq> 0 then do {
         st \<leftarrow> thread_unlock cpu cur st;
         let mx = mx\<lparr>mx_thread := cur\<rparr>;
         st \<leftarrow> guard_unlock cpu (mx_guard mx) st;
         Some (Some err, mx, st)
       }
       else Some (None, mx, st)
     }
     else do {
       let mx = mx\<lparr>mx_thread := cur\<rparr>;
       st \<leftarrow> guard_unlock cpu (mx_guard mx) st;
       Some (Some 0, mx, st)
     }
   }"

definition mutex_lock_return :: "ptr \<Rightarrow> ptr \<Rightarrow> mutex \<Rightarrow> sched \<Rightarrow> (int \<times> mutex \<times> sched) option" where
  "mutex_lock_return cpu cur mx st = do {
     (err, st) \<leftarrow> xched_sleep_return cpu cur (mx_guard mx) st;
     st \<leftarrow> thread_unlock cpu cur st;
     let mx = mx\<lparr>mx_thread := cur\<rparr>;
     st \<leftarrow> guard_unlock cpu (mx_guard mx) st;
     Some (err, mx, st)
   }"

definition mutex_unlock :: "ptr \<Rightarrow> ptr \<Rightarrow> mutex \<Rightarrow> sched \<Rightarrow> (mutex \<times> sched) option" where
  "mutex_unlock cpu cur mx st = do {
     st \<leftarrow> guard_lock cpu (mx_guard mx) st;
     kassert (mx_thread mx = cur);
     let mx = mx\<lparr>mx_thread := NULL\<rparr>;
     let old = mx_lock mx;
     let mx = mx\<lparr>mx_lock := old - 1\<rparr>;
     kassert (\<not> sint old \<le> 0);
     (_, st) \<leftarrow> xched_wake1 cpu (mx_waiters mx) st;
     st \<leftarrow> guard_unlock cpu (mx_guard mx) st;
     Some (mx, st)
   }"

definition mutex_try_lock :: "ptr \<Rightarrow> ptr \<Rightarrow> mutex \<Rightarrow> sched \<Rightarrow> (int \<times> mutex \<times> sched) option" where
  "mutex_try_lock cpu cur mx st = do {
     st \<leftarrow> guard_lock cpu (mx_guard mx) st;
     kassert (mx_thread mx \<noteq> cur);
     let (old, new) = atomic_xchg (mx_lock mx) 1;
     let mx = mx\<lparr>mx_lock := new\<rparr>;
     if old = 0 then do {
       let mx = mx\<lparr>mx_thread := cur\<rparr>;
       st \<leftarrow> guard_unlock cpu (mx_guard mx) st;
       Some (1, mx, st)
     }
     else do { st \<leftarrow> guard_unlock cpu (mx_guard mx) st; Some (0, mx, st) }
   }"

definition event_wait_enter :: "ptr \<Rightarrow> ptr \<Rightarrow> event \<Rightarrow> sched \<Rightarrow> (int option \<times> event \<times> sched) option" where
  "event_wait_enter cpu cur ev st = do {
     st \<leftarrow> guard_lock cpu (ev_guard ev) st;
     if ev_event ev = 0 then do {
       st \<leftarrow> thread_lock cpu cur st;
       (err, st) \<leftarrow> xched_sleep_enter cpu cur (ev_queue ev) (ev_guard ev) st;
       if err \<noteq> 0 then do {
         st \<leftarrow> thread_unlock cpu cur st;
         st \<leftarrow> guard_unlock cpu (ev_guard ev) st;
         Some (Some (- EINTR), ev, st)
       }
       else Some (None, ev, st)
     }
     else do {
       let ev = ev\<lparr>ev_event := 0\<rparr>;
       st \<leftarrow> guard_unlock cpu (ev_guard ev) st;
       Some (Some 0, ev, st)
     }
   }"

definition event_wait_return :: "ptr \<Rightarrow> ptr \<Rightarrow> event \<Rightarrow> sched \<Rightarrow> (int \<times> event \<times> sched) option" where
  "event_wait_return cpu cur ev st = do {
     (err, st) \<leftarrow> xched_sleep_return cpu cur (ev_guard ev) st;
     st \<leftarrow> thread_unlock cpu cur st;
     if err \<noteq> 0 then do { st \<leftarrow> guard_unlock cpu (ev_guard ev) st; Some (- EINTR, ev, st) }
     else do {
       let ev = ev\<lparr>ev_event := 0\<rparr>;
       st \<leftarrow> guard_unlock cpu (ev_guard ev) st;
       Some (0, ev, st)
     }
   }"

definition event_signal :: "ptr \<Rightarrow> event \<Rightarrow> sched \<Rightarrow> (event \<times> sched) option" where
  "event_signal cpu ev st = do {
     st \<leftarrow> guard_lock cpu (ev_guard ev) st;
     (woken, st) \<leftarrow> xched_wake1 cpu (ev_queue ev) st;
     let ev = (if woken = 0 then ev\<lparr>ev_event := 1\<rparr> else ev\<lparr>ev_event := 0\<rparr>);
     st \<leftarrow> guard_unlock cpu (ev_guard ev) st;
     Some (ev, st)
   }"

definition event_broadcast :: "ptr \<Rightarrow> event \<Rightarrow> sched \<Rightarrow> (int \<times> event \<times> sched) option" where
  "event_broadcast cpu ev st = do {
     st \<leftarrow> guard_lock cpu (ev_guard ev) st;
     (n, st) \<leftarrow> xched_wakeall cpu (ev_queue ev) st;
     let ev = (if n = 0 then ev\<lparr>ev_event := 1\<rparr> else ev\<lparr>ev_event := 0\<rparr>);
     st \<leftarrow> guard_unlock cpu (ev_guard ev) st;
     Some (0, ev, st)
   }"


section \<open>What the operations do to a sleep queue\<close>

definition on_queue :: "sched \<Rightarrow> ptr \<Rightarrow> ptr list" where
  "on_queue st q = (case sc_queues st q of None \<Rightarrow> [] | Some k \<Rightarrow> kq_items k)"

lemma sq_lock_items: "sq_lock cpu q st = Some st' \<Longrightarrow> on_queue st' = on_queue st \<and> sc_levels st' = sc_levels st \<and> sc_threads st' = sc_threads st"
  by (auto simp: sq_lock_def on_queue_def fun_eq_iff split: bind_splits)

lemma sq_unlock_items: "sq_unlock cpu q st = Some st' \<Longrightarrow> on_queue st' = on_queue st \<and> sc_levels st' = sc_levels st \<and> sc_threads st' = sc_threads st"
  by (auto simp: sq_unlock_def on_queue_def fun_eq_iff split: bind_splits)

lemma guard_items:
  "guard_lock cpu g st = Some st' \<Longrightarrow> on_queue st' = on_queue st \<and> sc_levels st' = sc_levels st \<and> sc_threads st' = sc_threads st"
  "guard_unlock cpu g st = Some st' \<Longrightarrow> on_queue st' = on_queue st \<and> sc_levels st' = sc_levels st \<and> sc_threads st' = sc_threads st"
  by (auto simp: guard_lock_def guard_unlock_def on_queue_def fun_eq_iff split: bind_splits)

lemma set_thread_items [simp]: "on_queue (set_thread t th st) = on_queue st" "sc_levels (set_thread t th st) = sc_levels st"
  "sc_queues (set_thread t th st) = sc_queues st" "sc_threads (set_thread t th st) = (sc_threads st)(t \<mapsto> th)"
  by (simp_all add: set_thread_def on_queue_def fun_eq_iff)

lemma thread_items:
  "thread_lock cpu t st = Some st' \<Longrightarrow> on_queue st' = on_queue st \<and> sc_levels st' = sc_levels st"
  "thread_unlock cpu t st = Some st' \<Longrightarrow> on_queue st' = on_queue st \<and> sc_levels st' = sc_levels st"
  "thread_enter_state cpu t s st = Some st' \<Longrightarrow> on_queue st' = on_queue st \<and> sc_levels st' = sc_levels st"
  by (auto simp: thread_lock_def thread_unlock_def thread_enter_state_def split: bind_splits)

lemma sq_enqueue_items: "sq_enqueue cpu q x st = Some (ok, st') \<Longrightarrow>
  on_queue st' = (if ok then (on_queue st)(q := on_queue st q @ [x]) else on_queue st) \<and> sc_levels st' = sc_levels st \<and> sc_threads st' = sc_threads st"
  by (auto simp: sq_enqueue_def on_queue_def fun_eq_iff Let_def split: bind_splits if_splits)

lemma sq_remove_items: "sq_remove cpu q x st = Some (err, st') \<Longrightarrow>
  on_queue st' = (on_queue st)(q := remove1 x (on_queue st q)) \<and> sc_levels st' = sc_levels st \<and> sc_threads st' = sc_threads st"
  by (auto simp: sq_remove_def on_queue_def fun_eq_iff remove1_idem split: bind_splits if_splits)

lemma sq_dequeue_items: "sq_dequeue cpu q st = Some (x, st') \<Longrightarrow>
  x = fst_or NULL (on_queue st q) \<and> on_queue st' = (on_queue st)(q := tl (on_queue st q)) \<and> sc_levels st' = sc_levels st \<and> sc_threads st' = sc_threads st"
  by (auto simp: sq_dequeue_def on_queue_def fun_eq_iff split: bind_splits list.splits if_splits)


lemmas items = sq_lock_items sq_unlock_items guard_items thread_items sq_enqueue_items sq_remove_items sq_dequeue_items

lemma sq_lock_twice: "sq_lock cpu q st = Some s \<Longrightarrow> sq_lock cpu q s = None"
  by (auto simp: sq_lock_def lk_acquire_def atomic_xchg_def spin_holding_def split: bind_splits if_splits)

lemma thread_enqueue_items:
  assumes "thread_enqueue cpu q t st = Some (err, st')"
  obtains th where "sc_threads st t = Some th" "t_queues th \<noteq> q" "sc_levels st' = sc_levels st" "sc_threads st' = sc_threads st"
    "\<forall>x. x \<noteq> q \<longrightarrow> x \<noteq> t_queues th \<longrightarrow> on_queue st' x = on_queue st x"
    "err = 0 \<longrightarrow> on_queue st' q = on_queue st q @ [t]"
proof -
  from assms obtain th a b c ok where th: "sc_threads st t = Some th" and a: "sq_lock cpu q st = Some a"
    and b: "sq_lock cpu (t_queues th) a = Some b" and c: "sq_enqueue cpu q t b = Some (ok, c)"
    and r: "(if \<not> ok then do { st \<leftarrow> sq_unlock cpu (t_queues th) c; st \<leftarrow> sq_unlock cpu q st; Some (- ENOMEM, st) }
      else do {
       (ok, st) \<leftarrow> sq_enqueue cpu (t_queues th) q c;
       if \<not> ok then do {
         (_, st) \<leftarrow> sq_remove cpu q t st;
         st \<leftarrow> sq_unlock cpu (t_queues th) st;
         st \<leftarrow> sq_unlock cpu q st;
         Some (- ENOMEM, st)
       }
       else do { st \<leftarrow> sq_unlock cpu (t_queues th) st; st \<leftarrow> sq_unlock cpu q st; Some (0, st) }
     }) = Some (err, st')"
    unfolding thread_enqueue_def Let_def by (auto simp: bind_eq_Some_conv)
  have ne: "t_queues th \<noteq> q"
    using sq_lock_twice [OF a] b by auto
  note abc = sq_lock_items [OF a] sq_lock_items [OF b] sq_enqueue_items [OF c]
  show thesis
  proof (rule that [OF th ne])
    show "sc_levels st' = sc_levels st" "sc_threads st' = sc_threads st"
      using r abc by (auto simp: bind_eq_Some_conv split: if_splits dest!: items)
    show "\<forall>x. x \<noteq> q \<longrightarrow> x \<noteq> t_queues th \<longrightarrow> on_queue st' x = on_queue st x"
      using r abc by (auto simp: bind_eq_Some_conv split: if_splits dest!: items)
    show "err = 0 \<longrightarrow> on_queue st' q = on_queue st q @ [t]"
      using r abc ne by (auto simp: bind_eq_Some_conv split: if_splits dest!: items)
  qed
qed


lemma thread_dequeue_items:
  assumes d: "thread_dequeue cpu q st = Some (t, st')"
  shows "t = fst_or NULL (on_queue st q)" "on_queue st' q = tl (on_queue st q)" "sc_levels st' = sc_levels st"
    "t \<noteq> NULL \<Longrightarrow> \<exists>th. sc_threads st' t = Some th \<and> t_queues th \<noteq> q"
proof -
  from d obtain x a where a: "sq_dequeue cpu q st = Some (x, a)"
    and r: "(if x = NULL then Some (NULL, a)
      else do {
       st \<leftarrow> thread_lock cpu x a;
       th \<leftarrow> sc_threads st x;
       st \<leftarrow> sq_lock cpu (t_queues th) st;
       (err, st) \<leftarrow> sq_remove cpu (t_queues th) q st;
       kassert (err = 0);
       st \<leftarrow> sq_unlock cpu (t_queues th) st;
       Some (x, st)
      }) = Some (t, st')"
    unfolding thread_dequeue_def by (auto simp: bind_eq_Some_conv)
  have held: "\<exists>k. sc_queues a q = Some k \<and> spin_holding cpu (kq_lk k)"
    using a by (auto simp: sq_dequeue_def split: bind_splits list.splits if_splits)
  have x: "t = x"
    using r by (auto simp: bind_eq_Some_conv split: if_splits)
  then show "t = fst_or NULL (on_queue st q)"
    using sq_dequeue_items [OF a] by simp
  note da = sq_dequeue_items [OF a]
  have "on_queue st' q = tl (on_queue st q) \<and> sc_levels st' = sc_levels st \<and> (t \<noteq> NULL \<longrightarrow> (\<exists>th. sc_threads st' t = Some th \<and> t_queues th \<noteq> q))"
  proof (cases "x = NULL")
    case True
    then show ?thesis
      using r da by auto
  next
    case False
    then obtain b th c err d where b: "thread_lock cpu x a = Some b" "sc_threads b x = Some th" and c: "sq_lock cpu (t_queues th) b = Some c"
      and d: "sq_remove cpu (t_queues th) q c = Some (err, d)" and e: "sq_unlock cpu (t_queues th) d = Some st'"
      using r by (auto simp: bind_eq_Some_conv split: if_splits)
    have "sc_queues b = sc_queues a"
      using b(1) by (auto simp: thread_lock_def bind_eq_Some_conv)
    then have ne: "t_queues th \<noteq> q"
      using c held by (auto simp: sq_lock_def lk_acquire_def bind_eq_Some_conv)
    then show ?thesis
      using da x b(2) thread_items(1) [OF b(1)] sq_lock_items [OF c] sq_remove_items [OF d] sq_unlock_items [OF e] by simp
  qed
  then show "on_queue st' q = tl (on_queue st q)" "sc_levels st' = sc_levels st" "t \<noteq> NULL \<Longrightarrow> \<exists>th. sc_threads st' t = Some th \<and> t_queues th \<noteq> q"
    by simp_all
qed

definition no_level :: "sched \<Rightarrow> ptr \<Rightarrow> bool" where
  "no_level st q \<longleftrightarrow> (\<forall>core. q \<notin> fst ` set (sc_levels st core))"

lemma sched_park_items:
  assumes p: "sched_park cpu t st = Some (err, st')" and th: "sc_threads st t = Some th" "t_state th \<noteq> T_EMBRYO" "t_queues th \<noteq> q"
    and q: "no_level st q"
  shows "on_queue st' q = on_queue st q" "sc_levels st' = sc_levels st"
proof -
  let ?th = "if t_core th = NULL then th\<lparr>t_core := cpu\<rparr> else th"
  let ?l = "sc_levels st (t_core ?th) ! SCHED_LEVEL (t_priority ?th)"
  have l: "SCHED_LEVEL (t_priority ?th) < length (sc_levels st (t_core ?th))"
    and e: "thread_enqueue cpu (fst ?l) t (set_thread t (?th\<lparr>t_timeslice := snd ?l\<rparr>) st) = Some (err, st')"
    using p th(1,2) by (auto simp: sched_park_def thread_locked_def Let_def bind_eq_Some_conv kassert_def case_prod_beta split: if_splits)
  have "fst ?l \<noteq> q"
    using q l nth_mem [OF l] unfolding no_level_def by (metis imageI)
  moreover obtain th' where e': "sc_threads (set_thread t (?th\<lparr>t_timeslice := snd ?l\<rparr>) st) t = Some th'"
    "\<forall>x. x \<noteq> fst ?l \<longrightarrow> x \<noteq> t_queues th' \<longrightarrow> on_queue st' x = on_queue (set_thread t (?th\<lparr>t_timeslice := snd ?l\<rparr>) st) x"
    "sc_levels st' = sc_levels (set_thread t (?th\<lparr>t_timeslice := snd ?l\<rparr>) st)"
    by (rule thread_enqueue_items [OF e])
  ultimately show "on_queue st' q = on_queue st q" "sc_levels st' = sc_levels st"
    using th(3) by (auto split: if_splits)
qed

lemma xched_wake1_items:
  assumes w: "xched_wake1 cpu q st = Some (r, st')" and q: "no_level st q"
  shows "r = 0" "on_queue st' q = tl (on_queue st q)" "sc_levels st' = sc_levels st"
proof -
  from w obtain a b c t where a: "sq_lock cpu q st = Some a" and b: "thread_dequeue cpu q a = Some (t, b)" and c: "sq_unlock cpu q b = Some c"
    and n: "(if t = NULL then Some (0, c)
      else do {
       st \<leftarrow> thread_enter_state cpu t T_READY c;
       (_, st) \<leftarrow> sched_park cpu t st;
       st \<leftarrow> thread_unlock cpu t st;
       Some (0, st)
      }) = Some (r, st')"
    unfolding xched_wake1_def by (auto simp: bind_eq_Some_conv)
  show "r = 0"
    using n by (auto simp: bind_eq_Some_conv split: if_splits)
  have qc: "on_queue c q = tl (on_queue st q)" "sc_levels c = sc_levels st"
    using sq_lock_items [OF a] thread_dequeue_items(2,3) [OF b] sq_unlock_items [OF c] by simp_all
  have "on_queue st' q = tl (on_queue st q) \<and> sc_levels st' = sc_levels st"
  proof (cases "t = NULL")
    case True
    then show ?thesis
      using n qc by simp
  next
    case False
    obtain d e err where d: "thread_enter_state cpu t T_READY c = Some d" and e: "sched_park cpu t d = Some (err, e)" and f: "thread_unlock cpu t e = Some st'"
      using n False by (auto simp: bind_eq_Some_conv)
    obtain th where th: "sc_threads c t = Some th" "t_queues th \<noteq> q"
      using thread_dequeue_items(4) [OF b False] sq_unlock_items [OF c] by auto
    have d': "sc_threads d t = Some (th\<lparr>t_state := T_READY\<rparr>)"
      using d th(1) by (auto simp: thread_enter_state_def thread_locked_def bind_eq_Some_conv split: if_splits)
    have nl: "no_level d q"
      using q qc(2) thread_items(3) [OF d] by (simp add: no_level_def)
    have "on_queue e q = on_queue d q" "sc_levels e = sc_levels d"
      using sched_park_items [OF e d' _ _ nl] th(2) by simp_all
    then show ?thesis
      using qc thread_items(3) [OF d] thread_items(2) [OF f] by simp
  qed
  then show "on_queue st' q = tl (on_queue st q)" "sc_levels st' = sc_levels st"
    by simp_all
qed




section \<open>Mutual exclusion\<close>



























section \<open>Properties\<close>



text \<open>Four threads at 10 to 13 with their lists of queues at 110 to 113, the ready queues of CPU 1 at 50 to 57, and a
  mutex with its sleep queue at 60 and its guard at 61.\<close>

definition example_thread :: "ptr \<Rightarrow> thread" where
  "example_thread t = \<lparr>t_tid = int t, t_state = T_RUNNING, t_exit = 0, t_killer = 0, t_flags = 0, t_lk = spin_unlocked, t_core = NULL,
    t_affinity = 0, t_priority = 0, t_timeslice = 0, t_group = NULL, t_queues = t + 100, sleep_queue = NULL, sleep_guard = NULL, t_wait = NULL\<rparr>"

definition example_sched :: sched where
  "example_sched = \<lparr>sc_threads = (\<lambda>t. if t \<in> {10, 11, 12, 13} then Some (example_thread t) else None),
    sc_queues = (\<lambda>q. Some \<lparr>kq_items = [], kq_lk = spin_unlocked\<rparr>), sc_levels = (\<lambda>core. [(50, 50), (51, 75), (52, 100), (53, 125), (54, 150), (55, 175), (56, 200), (57, 250)]),
    sc_guards = (\<lambda>g. Some spin_unlocked), sc_conds = (\<lambda>c. None), sc_nthreads = (\<lambda>g. 0), sc_embryo = 70, sc_zombie = 71, sc_nodes = [True, True, True, True, True, True, True, True]\<rparr>"

definition example_mutex :: mutex where
  "example_mutex = \<lparr>mx_lock = 0, mx_waiters = 60, mx_thread = NULL, mx_guard = 61\<rparr>"

lemmas run_defs = mutex_lock_enter_def mutex_lock_return_def mutex_unlock_def mutex_try_lock_def guard_lock_def guard_unlock_def
  thread_lock_def thread_unlock_def thread_locked_def thread_enter_state_def thread_enqueue_def thread_dequeue_def
  sq_lock_def sq_unlock_def sq_enqueue_def sq_dequeue_def sq_remove_def xched_sleep_enter_def xched_sleep_return_def xched_wake1_def
  schedule_put_def schedule_pick_def sched_next_def sched_embryo_def sched_park_def SCHED_LEVEL_def
  lk_acquire_def lk_release_def spin_holding_def spin_unlocked_def atomic_xchg_def set_thread_def
  example_mutex_def example_sched_def example_thread_def Let_def fst_or_def





text \<open>C40. One signal lets two threads pass: \<^verbatim>\<open>xched_wake1\<close> returns 0 also when it has woken a thread, so \<^verbatim>\<open>event_signal\<close>
  sets the event although the first sleeper was taken off the queue, and a thread that calls \<^verbatim>\<open>event_wait\<close> before the
  woken one has run returns at once as well.\<close>

theorem event_signal_twice:
  assumes s: "event_signal cpu ev st = Some (ev', st')" and q: "on_queue st (ev_queue ev) = w # ws" "no_level st (ev_queue ev)"
    and r: "event_wait_enter cpu' cur ev' st' = Some (r, ev'', st'')"
  shows "on_queue st' (ev_queue ev) = ws \<and> ev_event ev' = 1 \<and> r = Some 0"
proof -
  from s obtain a b n where a: "guard_lock cpu (ev_guard ev) st = Some a" and b: "xched_wake1 cpu (ev_queue ev) a = Some (n, b)"
    and e: "ev' = (if n = 0 then ev\<lparr>ev_event := 1\<rparr> else ev\<lparr>ev_event := 0\<rparr>)" and c: "guard_unlock cpu (ev_guard ev) b = Some st'"
    unfolding event_signal_def Let_def by (auto simp: bind_eq_Some_conv split: if_splits)
  have "no_level a (ev_queue ev)"
    using q(2) guard_items(1) [OF a] by (simp add: no_level_def)
  note w = xched_wake1_items [OF b this]
  have "on_queue st' (ev_queue ev) = ws"
    using w(2) q(1) guard_items(1) [OF a] guard_items(2) [OF c] by simp
  moreover have "ev_event ev' = 1"
    using w(1) e by simp
  moreover from this have "r = Some 0"
    using r by (auto simp: event_wait_enter_def bind_eq_Some_conv)
  ultimately show ?thesis
    by simp
qed


definition example_event :: event where
  "example_event = \<lparr>ev_event = 0, ev_queue = 60, ev_guard = 61\<rparr>"

lemmas event_defs = event_wait_enter_def event_signal_def example_event_def on_queue_def no_level_def

lemma example_event_run:
  "do {
     (r10, ev, st) \<leftarrow> event_wait_enter 1 10 example_event example_sched;
     st \<leftarrow> schedule_put 1 10 st;
     (ev', st') \<leftarrow> event_signal 1 ev st;
     (r11, ev'', st'') \<leftarrow> event_wait_enter 1 11 ev' st';
     Some (r10, ev_queue ev, on_queue st 60, no_level st 60)
   } = Some (None, 60, [10], True)"
  by (simp add: event_defs run_defs)

theorem event_signal_twice_witness:
  "\<exists>ev st ev' st' ev'' st''. on_queue st 60 = [10] \<and> event_signal 1 ev st = Some (ev', st') \<and> on_queue st' 60 = []
    \<and> ev_event ev' = 1 \<and> event_wait_enter 1 11 ev' st' = Some (Some 0, ev'', st'')"
proof -
  obtain ev st ev' st' r ev'' st'' where e: "ev_queue ev = 60" "on_queue st 60 = [10]" "no_level st 60" "event_signal 1 ev st = Some (ev', st')"
    "event_wait_enter 1 11 ev' st' = Some (r, ev'', st'')"
    using example_event_run by (auto simp: bind_eq_Some_conv)
  have "on_queue st' (ev_queue ev) = [] \<and> ev_event ev' = 1 \<and> r = Some 0"
    by (rule event_signal_twice [OF e(4) _ _ e(5)]) (simp_all add: e)
  then show ?thesis
    using e by metis
qed

end
