(* ===== verification/Sched_Props.thy ===== *)
theory Sched_Props
  imports Sleep_Locks
begin

text \<open>
  The choice of the next thread: \<^verbatim>\<open>sched_next\<close> returns the thread that has waited longest on the first level that
  is not empty, ready to run, and every other queue is as before.
\<close>

declare neq0_conv [iff del] bot_nat_0.not_eq_extremum [simp del]











end
