(* ===== verification/Spec2Isabelle.thy ===== *)
theory Spec2Isabelle
  imports Spin_Progress Queue Ringbuf Zone_Props Btree Vmm_Alloc Mmap_Props Tokens Paging_Teardown Sched_Props
begin

text \<open>
  A verification development of the kernel of gingerOs, a Unix-like system for the i386. The kernel's
  parts build on each other: spinlocks and linked queues at the bottom; the allocators of page frames, of
  physical pages and of kernel addresses; the page tables; the regions of a user's address space; threads on
  their queues and the locks that put them to sleep; and byte memory, strings, ring buffers and search trees
  beside them. Each part has a theory with its state and one definition for each function of the source, and
  the theorems about it. Paths below are relative to \<^verbatim>\<open>src/kernel\<close>.

  \<^bold>\<open>Conventions.\<close> A function of the source returns \<open>Some\<close> in the model when it returns, and \<open>None\<close> when it panics,
  fails an assertion, goes through a null or dangling pointer, or does not return. Error numbers are negative
  integers, as in the source. Pointers are natural numbers with \<open>NULL = 0\<close>, a heap maps them to records, and
  machine integers are words of their width. Memory from \<^verbatim>\<open>kmalloc\<close> enters as an argument, or as a list of results in the
  state. A lock inside a record is taken by \<open>lk_acquire\<close> and released by \<open>lk_release\<close>; an operation runs from one acquisition
  to the release, and interleavings are explicit where they are the subject (\<open>spin_step\<close>, \<open>mutex_step\<close>).

  \<^bold>\<open>Shared theories.\<close> \<open>Kernel_Prelude\<close> has the types, the error numbers, \<open>kassert\<close>, heaps and the collections of simplification
  rules. \<open>Linked_List\<close> has doubly linked lists over any node type, with the locale \<open>link_fields\<close> for the two pointer fields.
  \<open>Fifo\<close>, \<open>Allocator\<close> and \<open>Kmap\<close> are contracts between parts: a first-in first-out buffer, an allocator of single objects,
  a keyed index. \<open>Queue\<close> and \<open>Ringbuf\<close> provide the first, \<open>Pmm\<close> and \<open>Zone_Props\<close> the second, \<open>Btree\<close> the third, each by an
  interpretation on its own operations. \<open>Arena\<close> has lists of address regions.

  \<^bold>\<open>Locks and threads.\<close>
  \<^item> \<open>Spinlock\<close>: \<^verbatim>\<open>include/locks/spinlock.h\<close> and \<^verbatim>\<open>lime/preempt.c\<close>. \<open>spin_step\<close> interleaves the memory accesses of any number of CPUs;
    mutual exclusion and the absence of panics hold in every reachable state. \<open>Spin_Progress\<close> shows that a waiting CPU can enter within
    five steps of the owner and itself.
  \<^item> \<open>Sched\<close>: \<^verbatim>\<open>sys/sched/queues.c\<close>, parts of \<^verbatim>\<open>sched.c\<close>, \<^verbatim>\<open>sys/threads/thread.c\<close> and \<^verbatim>\<open>thread_helpers.c\<close>, and \<^verbatim>\<open>locks/cond.c\<close>; threads on ready, sleep, embryo and
    zombie queues, with an operation that sleeps split where it leaves the CPU. \<open>Sched_Props\<close> shows which thread \<^verbatim>\<open>sched_next\<close> takes.
  \<^item> \<open>Sleep_Locks\<close>: \<^verbatim>\<open>locks/mutex.c\<close> and \<^verbatim>\<open>locks/event.c\<close> on these queues. \<open>mutex_step\<close> interleaves the critical sections of any number of threads;
    \<^verbatim>\<open>mutex_lock\<close> and \<^verbatim>\<open>mutex_unlock\<close> exclude each other and lose no sleeper, and \<^verbatim>\<open>mutex_try_lock\<close> breaks this.
    The relation has no step for a failed allocation of a queue node and none for a killed sleeper.

  \<^bold>\<open>Data structures.\<close>
  \<^item> \<open>Queue\<close>: \<^verbatim>\<open>ds/queue/queue.c\<close>, linked queues on a heap; they refine lists.
  \<^item> \<open>Ringbuf\<close>: \<^verbatim>\<open>ds/ringbuf.c\<close>; what is read is what was written, across the wrap-around of the 32-bit counters.
  \<^item> \<open>Bitmap\<close>: \<^verbatim>\<open>ds/bmap.c\<close>, bits in 32-bit words. \<open>Btree\<close>: \<^verbatim>\<open>ds/btree.c\<close>, search trees with parent pointers; they refine finite maps.

  \<^bold>\<open>Memory.\<close>
  \<^item> \<open>Pmm\<close>: \<^verbatim>\<open>mm/pmm/pmm.c\<close>, page frames with reference counts. \<open>Zone\<close>, \<open>Zone_Props\<close>: \<^verbatim>\<open>mm/pmm/mm_zone.c\<close> and \<^verbatim>\<open>zone_page.c\<close>, pages in zones; a well-formedness
    invariant that every operation keeps, distinct results of single pages, and the overlap of larger runs.
  \<^item> \<open>Vmm\<close>, \<open>Vmm_Alloc\<close>: \<^verbatim>\<open>mm/vmm/vmm.c\<close>, kernel addresses on three linked lists; first fit, coalescing, and disjoint regions for every
    sequence of calls.
  \<^item> \<open>Paging\<close>, \<open>Paging_Props\<close>, \<open>Paging_Teardown\<close>: \<^verbatim>\<open>arch/i386/mmu/page.c\<close> and \<^verbatim>\<open>table.c\<close>. Every access to a table goes through the two-level walk of the
    processor and the directory entry that points to the directory itself. Mapping and unmapping change exactly the
    translations they name, and the end of an address space gives back every frame and table.
  \<^item> \<open>Mmap\<close>: \<^verbatim>\<open>mm/mmap/mmap.c\<close>, the regions of a user's address space. \<open>Mmap_Space\<close> abstracts a list of regions to a partial function from addresses to
    flags; \<open>Mmap_Unmap\<close>, \<open>Mmap_Hole\<close>, \<open>Mmap_Map\<close> and \<open>Mmap_Props\<close> show the operations on it.

  \<^bold>\<open>Strings.\<close> \<open>Kmem\<close>, \<open>Kstring\<close>, \<open>Tokens\<close>: \<^verbatim>\<open>lib/string.c\<close> and \<^verbatim>\<open>lib/ctype.c\<close> on a partial byte memory, where an access outside of every object does not return.

  \<^bold>\<open>Bounds and termination.\<close> No model uses fuel. Loops with a count are structural recursion over it; list walks, searches, the
  loops over strings, the loop of \<^verbatim>\<open>spin_lock\<close> and the copies between physical pages are partial functions in the option type, and the theorems
  that say that an operation returns prove that its result is \<open>Some\<close>. Mutual exclusion of mutexes is for fewer than \<open>2 ^ 31\<close> threads, where the signed
  test of the count is exact; ring buffers need a size that divides \<open>2 ^ 32\<close>, which holds for the pipes (512); page-table theorems are
  for addresses below the window at \<open>0xFFC00000\<close>.

  \<^bold>\<open>Not modelled.\<close> The virtual file system, its file systems and the pipes, processes, signals, system calls and program loading: they rest on a graph
  of inodes, open files and function tables that has no model here. Creation and freeing of threads, and the functions that allocate and
  free mutexes, condition variables and events; the release of a ring buffer. Semaphores, which the source leaves unfinished. Start-up, traps, context
  switches, devices, terminals and timers, which are hardware state. The heap \<^verbatim>\<open>liballoc\<close>, which is third-party code; the models take the
  results of \<^verbatim>\<open>kmalloc\<close>. Formatted output. The user's programs and libraries. Of the processor the translation cache is not modelled: the
  invalidations that \<^verbatim>\<open>page.c\<close> sends are recorded in order. Interrupt nesting is in \<open>Spinlock\<close> only.
\<close>

end
